(* ===== verification/Banana_Prelude.thy ===== *)
theory Banana_Prelude
  imports Main "HOL-Library.Word"
begin

text \<open>
  The vocabulary every component of the development shares: the abnormal outcomes of the C++
  code (\<open>cpp_error\<close>), the sequencing of operations that may end in one, machine sizes, the
  counting of threads in a list of thread states, and arithmetic of indices that run around a
  ring. Nothing here models a file of the repository.
\<close>

section \<open>Collections of rewrite rules\<close>

named_theorems inv_defs \<open>the invariants of the components\<close>
named_theorems op_defs \<open>the operations of the components\<close>

section \<open>Outcomes of C++ code\<close>

text \<open>
  What ends a run of the program without a value: a failed \<open>assert\<close>, a division by zero, an
  access through a null pointer, an access outside an array, an access to or a second release of
  memory that has been released, reading a variable that was never written, and calling an empty
  \<open>std::function\<close>, which throws.
\<close>

datatype cpp_error =
    AssertionFailed
  | DivisionByZero
  | NullDereference
  | OutOfBounds
  | UseAfterFree
  | DoubleFree
  | Uninitialised
  | BadFunctionCall
  | MissingReturn

type_synonym 'a outcome = "cpp_error + 'a"

text \<open>\<open>size_t\<close> on the 64-bit targets the project is built for.\<close>

type_synonym size_t = "64 word"

text \<open>Sequencing: an error ends the run, a value is passed on.\<close>

definition and_then :: "'a outcome \<Rightarrow> ('a \<Rightarrow> 'b outcome) \<Rightarrow> 'b outcome" where
  "and_then m f = (case m of Inl e \<Rightarrow> Inl e | Inr a \<Rightarrow> f a)"

lemma and_then_simps [simp]:
  "and_then (Inl e) f = Inl e"
  "and_then (Inr a) f = f a"
  by (simp_all add: and_then_def)

lemma and_then_Inr_iff:
  "and_then m f = Inr b \<longleftrightarrow> (\<exists>a. m = Inr a \<and> f a = Inr b)"
  by (cases m) simp_all

lemma and_then_assoc: "and_then (and_then m f) g = and_then m (\<lambda>x. and_then (f x) g)"
  by (cases m) simp_all

definition assert_that :: "bool \<Rightarrow> unit outcome" where
  "assert_that b = (if b then Inr () else Inl AssertionFailed)"

lemma assert_that_simps [simp]:
  "assert_that True = Inr ()"
  "assert_that False = Inl AssertionFailed"
  "assert_that b = Inr u \<longleftrightarrow> b"
  by (simp_all add: assert_that_def)

lemma replicate_numeral_Cons:
  "replicate (numeral k) x = x # replicate (pred_numeral k) x"
  by (simp add: numeral_eq_Suc)

section \<open>Counting threads\<close>

text \<open>The number of elements of a list of thread states that satisfy a predicate.\<close>

definition tally :: "('a \<Rightarrow> bool) \<Rightarrow> 'a list \<Rightarrow> nat" where
  "tally P xs = length (filter P xs)"

lemma tally_Nil [simp]: "tally P [] = 0"
  and tally_Cons [simp]: "tally P (x # xs) = (if P x then 1 else 0) + tally P xs"
  by (simp_all add: tally_def)

lemma tally_append [simp]: "tally P (xs @ ys) = tally P xs + tally P ys"
  by (simp add: tally_def)

lemma tally_update:
  "i < length xs \<Longrightarrow>
   tally P (xs[i := v]) + (if P (xs ! i) then 1 else 0) = tally P xs + (if P v then 1 else 0)"
proof (induction xs arbitrary: i)
  case Nil
  then show ?case by simp
next
  case (Cons x xs)
  then show ?case by (cases i) auto
qed

text \<open>As a rewrite rule: what one thread's move does to the count.\<close>

lemma tally_list_update:
  "i < length xs \<Longrightarrow> tally P (xs[i := v]) =
   (if P (xs ! i) then if P v then tally P xs else tally P xs - 1
    else if P v then Suc (tally P xs) else tally P xs)"
  using tally_update [of i xs P v] by auto

lemma tally_zero_iff: "tally P xs = 0 \<longleftrightarrow> (\<forall>i < length xs. \<not> P (xs ! i))"
  by (auto simp: tally_def filter_empty_conv all_set_conv_all_nth)

lemma tally_pos_iff: "0 < tally P xs \<longleftrightarrow> (\<exists>i < length xs. P (xs ! i))"
  using tally_zero_iff [of P xs] by auto

lemma tally_less_length: "tally P xs < length xs \<Longrightarrow> \<exists>i < length xs. \<not> P (xs ! i)"
proof (rule ccontr)
  assume "tally P xs < length xs" "\<not> (\<exists>i < length xs. \<not> P (xs ! i))"
  moreover from this(2) have "filter P xs = xs" by (intro filter_True) (auto simp: in_set_conv_nth)
  ultimately show False by (simp add: tally_def)
qed

lemma tally_replicate [simp]: "tally P (replicate n x) = (if P x then n else 0)"
  by (induction n) auto

section \<open>Condition variables\<close>

text \<open>
  \<open>notify_one\<close> on a condition variable: \<open>w\<close> tells for a thread state whether the thread
  waits there and what it does once woken. If no thread waits nothing happens; otherwise one
  waiter, any one, is woken.
\<close>

inductive notify_one :: "('t \<Rightarrow> 't option) \<Rightarrow> 't list \<Rightarrow> 't list \<Rightarrow> bool" for w where
  nobody: "\<forall>t \<in> set ts. w t = None \<Longrightarrow> notify_one w ts ts"
| wake: "i < length ts \<Longrightarrow> w (ts ! i) = Some t \<Longrightarrow> notify_one w ts (ts[i := t])"

lemma notify_one_length: "notify_one w ts ts' \<Longrightarrow> length ts' = length ts"
  by (induction rule: notify_one.induct) simp_all

lemma notify_one_tally:
  assumes "notify_one w ts ts'" "\<And>t t'. w t = Some t' \<Longrightarrow> P t = P t'"
  shows "tally P ts' = tally P ts"
  using assms(1)
proof cases
  case (wake i t)
  with assms(2) [of "ts ! i" t] tally_update [of i ts P t] show ?thesis by auto
qed simp

text \<open>If anyone waits, one waiter fewer is waiting and one thread more is awake.\<close>

lemma notify_one_wakes:
  assumes "notify_one w ts ts'"
    and "\<And>t. waits t = (w t \<noteq> None)" "\<And>t t'. w t = Some t' \<Longrightarrow> \<not> waits t' \<and> awake t'"
    and "\<And>t. waits t \<Longrightarrow> \<not> awake t"
  shows "(tally waits ts = 0 \<and> ts' = ts) \<or>
    (tally waits ts = Suc (tally waits ts') \<and> tally awake ts' = Suc (tally awake ts))"
  using assms(1)
proof cases
  case nobody
  with assms(2) show ?thesis by (auto simp: tally_zero_iff)
next
  case (wake i t)
  have "waits (ts ! i)" "\<not> awake (ts ! i)" "\<not> waits t" "awake t"
    using wake assms(2-4) by auto
  with wake tally_update [of i ts waits t] tally_update [of i ts awake t] show ?thesis by auto
qed

section \<open>Indices that run around a ring\<close>

text \<open>Within a window of \<open>n\<close> consecutive numbers, equal residues mean equal numbers.\<close>

lemma mod_eq_in_window_le:
  fixes n :: nat
  assumes "x \<le> y" "y < x + n" "x mod n = y mod n"
  shows "x = y"
proof -
  have "n dvd y - x" using assms(1,3) by (metis mod_eq_dvd_iff_nat)
  moreover have "y - x < n" using assms(1,2) by simp
  ultimately have "y - x = 0" using dvd_imp_le by force
  then show ?thesis using assms(1) by simp
qed

lemma mod_eq_in_window:
  fixes n :: nat
  assumes "b \<le> x" "x < b + n" "b \<le> y" "y < b + n"
  shows "x mod n = y mod n \<longleftrightarrow> x = y"
  using mod_eq_in_window_le [of x y n] mod_eq_in_window_le [of y x n] assms
  by (cases "x \<le> y") auto

lemma Suc_mod_ring: "Suc (k mod n) mod n = Suc k mod n"
  by (rule mod_Suc_eq)

lemma unat_size_t_less: "unat n < 2 ^ 64" for n :: size_t
proof -
  have "(unat n :: nat) < 2 ^ LENGTH(64)" by (rule unsigned_less)
  then show ?thesis by simp
qed

text \<open>The next index of a ring, computed on \<open>size_t\<close>, does not wrap.\<close>

lemma unat_ring_next:
  fixes i n :: size_t
  assumes "i < n"
  shows "unat ((i + 1) mod n) = Suc (unat i) mod unat n"
proof -
  have "unat i < unat n" using assms by (simp add: word_less_nat_alt)
  moreover have "unat n < 2 ^ 64" by (rule unat_size_t_less)
  ultimately have "Suc (unat i) < 2 ^ 64" by linarith
  then have "unat (i + 1) = Suc (unat i)"
    by (simp add: unat_word_ariths)
  then show ?thesis by (simp add: unat_mod_distrib)
qed


section \<open>Runs of bounded length\<close>

text \<open>When all runs from a state are shorter than a bound, one of them ends where no step is possible.\<close>

lemma bounded_run_ends:
  assumes "\<And>m t. (R ^^ m) s t \<Longrightarrow> m \<le> (b :: nat)"
  obtains m t where "(R ^^ m) s t" "\<nexists>u. R t u"
proof -
  let ?M = "{m. \<exists>t. (R ^^ m) s t}"
  have "?M \<subseteq> {..b}" using assms by blast
  then have fin: "finite ?M" by (rule finite_subset) simp
  have "(R ^^ 0) s s" by simp
  then have "?M \<noteq> {}" by blast
  from Max_in [OF fin this] obtain t where t: "(R ^^ Max ?M) s t" by blast
  have "\<not> R t u" for u
  proof
    assume "R t u"
    with t have "(R ^^ Suc (Max ?M)) s u" by (rule relpowp_Suc_I)
    then have "Suc (Max ?M) \<le> Max ?M" by (intro Max_ge [OF fin]) blast
    then show False by simp
  qed
  with t that show ?thesis by blast
qed

end
