(* ===== verification/Map_Interface.thy ===== *)
theory Map_Interface
  imports Banana_Prelude
begin

text \<open>
  The interface of the registry of tasks: a finite map with an insertion that keeps an existing
  entry and reports whether it inserted. \<open>ConcurrentHashMap\<close> promises it and \<open>MessageCenter\<close>
  relies on it; the connection table of a \<open>NetWorkService\<close> (a \<open>std::unordered_map\<close>) has the
  same contract.
\<close>

locale registry =
  fixes find :: "'m \<Rightarrow> 'k \<Rightarrow> 'v option"
    and insert :: "'m \<Rightarrow> 'k \<Rightarrow> 'v \<Rightarrow> bool \<times> 'm"
    and erase :: "'m \<Rightarrow> 'k \<Rightarrow> 'm"
    and inv :: "'m \<Rightarrow> bool"
  assumes insert_result: "inv m \<Longrightarrow> fst (insert m k v) \<longleftrightarrow> find m k = None"
    and insert_find: "inv m \<Longrightarrow>
      find (snd (insert m k v)) k' = (if k' = k \<and> find m k = None then Some v else find m k')"
    and erase_find: "inv m \<Longrightarrow> find (erase m k) k' = (if k' = k then None else find m k')"
    and insert_inv: "inv m \<Longrightarrow> inv (snd (insert m k v))"
    and erase_inv: "inv m \<Longrightarrow> inv (erase m k)"
begin

lemma insert_fresh:
  "inv m \<Longrightarrow> find m k = None \<Longrightarrow> fst (insert m k v) \<and> find (snd (insert m k v)) k = Some v"
  by (simp add: insert_result insert_find)

lemma insert_taken:
  "inv m \<Longrightarrow> find m k = Some w \<Longrightarrow>
   \<not> fst (insert m k v) \<and> find (snd (insert m k v)) = find m"
  by (auto simp: insert_result insert_find fun_eq_iff)

lemma insert_erase: "inv m \<Longrightarrow> find m k = None \<Longrightarrow> find (erase (snd (insert m k v)) k) = find m"
  by (auto simp: fun_eq_iff erase_find insert_inv insert_find)

text \<open>After an erase the key is free again: a second registration succeeds.\<close>

lemma erase_insert: "inv m \<Longrightarrow> fst (insert (erase m k) k v)"
  by (simp add: insert_result erase_inv erase_find)

end

end
