(* ===== verification/ConcurrentHashMap.thy ===== *)
theory ConcurrentHashMap
  imports Map_Interface
begin

text \<open>
  The template \<open>ConcurrentHashMap<K, V, HASHLOCKS>\<close> of \<open>multi-threading/ConcurrentHashMap.h\<close>:
  an array of hash maps, each with a mutex and a condition variable of its own. The operations
  are their critical sections. The table refines a single map, and the threads that block in
  \<open>waitFind\<close> are a monitor per bucket.
\<close>

section \<open>The table\<close>

text \<open>
  \<open>map_\<close> is the array of \<open>unordered_map\<close>s, whose length is the template argument
  \<open>HASHLOCKS\<close>. The hash function \<open>std::hash<K>\<close> is a parameter of every operation.
\<close>

record ('k, 'v) chm =
  chm_map :: "('k \<rightharpoonup> 'v) list"

definition DEFAULT_HASHLOCKS :: size_t where
  "DEFAULT_HASHLOCKS = 499"

definition chm_new :: "size_t \<Rightarrow> ('k, 'v) chm" where
  "chm_new HASHLOCKS = \<lparr>chm_map = replicate (unat HASHLOCKS) Map.empty\<rparr>"

definition chm_bucketIdx :: "('k \<Rightarrow> size_t) \<Rightarrow> ('k, 'v) chm \<Rightarrow> 'k \<Rightarrow> nat" where
  "chm_bucketIdx hasher m k = unat (hasher k mod of_nat (length (chm_map m)))"

definition chm_find :: "('k \<Rightarrow> size_t) \<Rightarrow> ('k, 'v) chm \<Rightarrow> 'k \<Rightarrow> 'v option" where
  "chm_find hasher m k = (chm_map m ! chm_bucketIdx hasher m k) k"

text \<open>One pass of \<open>waitFind\<close>: \<open>None\<close> when the thread waits on the bucket's condition.\<close>

definition chm_waitFind :: "('k \<Rightarrow> size_t) \<Rightarrow> ('k, 'v) chm \<Rightarrow> 'k \<Rightarrow> 'v option" where
  "chm_waitFind hasher m k = (chm_map m ! chm_bucketIdx hasher m k) k"

text \<open>\<open>insert\<close>: whether the pair was inserted, in which case one waiter of the bucket is
  notified, and the table.\<close>

definition chm_insert :: "('k \<Rightarrow> size_t) \<Rightarrow> ('k, 'v) chm \<Rightarrow> 'k \<Rightarrow> 'v \<Rightarrow> bool \<times> ('k, 'v) chm" where
  "chm_insert hasher m k v =
     (let b = chm_bucketIdx hasher m k in
      case (chm_map m ! b) k of
        None \<Rightarrow> (True, m\<lparr>chm_map := (chm_map m)[b := (chm_map m ! b)(k \<mapsto> v)]\<rparr>)
      | Some _ \<Rightarrow> (False, m))"

definition chm_erase :: "('k \<Rightarrow> size_t) \<Rightarrow> ('k, 'v) chm \<Rightarrow> 'k \<Rightarrow> ('k, 'v) chm" where
  "chm_erase hasher m k =
     (let b = chm_bucketIdx hasher m k in
      m\<lparr>chm_map := (chm_map m)[b := (chm_map m ! b)(k := None)]\<rparr>)"

section \<open>The table is a map\<close>

text \<open>There is at least one bucket, their number is a \<open>size_t\<close>, and every key sits in the
  bucket its hash selects.\<close>

definition chm_inv :: "('k \<Rightarrow> size_t) \<Rightarrow> ('k, 'v) chm \<Rightarrow> bool" where
  "chm_inv hasher m \<longleftrightarrow> 0 < length (chm_map m) \<and> length (chm_map m) < 2 ^ 64 \<and>
     (\<forall>b < length (chm_map m). \<forall>k \<in> dom (chm_map m ! b). chm_bucketIdx hasher m k = b)"

lemma chm_bucket_less:
  assumes "0 < length (chm_map m)" "length (chm_map m) < 2 ^ 64"
  shows "chm_bucketIdx hasher m k < length (chm_map m)"
proof -
  have "unat (of_nat (length (chm_map m)) :: size_t) = length (chm_map m)"
    using assms(2) by (simp add: unat_of_nat)
  then show ?thesis
    using assms(1) by (simp add: chm_bucketIdx_def unat_mod_distrib)
qed

lemma chm_inv_bucket: "chm_inv hasher m \<Longrightarrow> chm_bucketIdx hasher m k < length (chm_map m)"
  by (simp add: chm_inv_def chm_bucket_less)

lemma chm_bucketIdx_update [simp]:
  "chm_bucketIdx hasher (m\<lparr>chm_map := (chm_map m)[b := f]\<rparr>) = chm_bucketIdx hasher m"
  by (simp add: chm_bucketIdx_def fun_eq_iff)

lemma chm_new_inv:
  assumes "0 < n"
  shows "chm_inv hasher (chm_new n)"
proof -
  have "0 < unat n" using assms by (simp add: word_gt_0 unat_gt_0)
  then show ?thesis using unat_size_t_less [of n] by (simp add: chm_inv_def chm_new_def)
qed

lemma chm_new_find:
  fixes hasher :: "'k \<Rightarrow> size_t"
  assumes "0 < n"
  shows "chm_find hasher (chm_new n :: ('k, 'v) chm) k = None"
proof -
  have "chm_bucketIdx hasher (chm_new n :: ('k, 'v) chm) k < unat n"
    using chm_inv_bucket [OF chm_new_inv [OF assms], of hasher k, where ?'b = 'v]
    by (simp add: chm_new_def)
  then show ?thesis by (simp add: chm_find_def chm_new_def)
qed

interpretation chm: registry "chm_find hasher" "chm_insert hasher" "chm_erase hasher" "chm_inv hasher"
  for hasher :: "'k \<Rightarrow> size_t"
proof (unfold_locales, goal_cases)
  case (1 m k v)
  then show ?case by (auto simp: chm_insert_def chm_find_def Let_def split: option.splits)
next
  case (2 m k v k')
  then show ?case
    using chm_inv_bucket [of hasher m k] chm_inv_bucket [of hasher m k']
    by (auto simp: chm_insert_def chm_find_def Let_def nth_list_update split: option.splits)
next
  case (3 m k k')
  then show ?case
    using chm_inv_bucket [of hasher m k] chm_inv_bucket [of hasher m k']
    by (auto simp: chm_erase_def chm_find_def Let_def nth_list_update)
next
  case (4 m k v)
  then show ?case
    using chm_inv_bucket [of hasher m k]
    by (fastforce simp: chm_insert_def chm_inv_def Let_def nth_list_update
        split: option.splits if_splits)
next
  case (5 m k)
  then show ?case
    using chm_inv_bucket [of hasher m k]
    by (fastforce simp: chm_erase_def chm_inv_def Let_def nth_list_update split: if_splits)
qed

section \<open>Threads that block in waitFind\<close>

text \<open>
  A thread is outside, inside \<open>waitFind\<close> about to look the key up with the bucket's mutex
  held, blocked on the bucket's condition variable, or back with the value. Insertions and
  erasures come from any other thread.
\<close>

datatype ('k, 'v) wthread =
    WOutside
  | WTest 'k
  | WBlocked 'k
  | WReturned 'k 'v

record ('k, 'v) chmon =
  cm_table :: "('k, 'v) chm"
  cm_threads :: "('k, 'v) wthread list"

text \<open>Who waits on the condition variable of bucket \<open>b\<close>.\<close>

fun wake_bucket ::
  "('k \<Rightarrow> size_t) \<Rightarrow> ('k, 'v) chm \<Rightarrow> nat \<Rightarrow> ('k, 'v) wthread \<Rightarrow> ('k, 'v) wthread option" where
  "wake_bucket hasher m b (WBlocked k) =
     (if chm_bucketIdx hasher m k = b then Some (WTest k) else None)"
| "wake_bucket hasher m b _ = None"

inductive chmon_step :: "('k \<Rightarrow> size_t) \<Rightarrow> ('k, 'v) chmon \<Rightarrow> ('k, 'v) chmon \<Rightarrow> bool" for hasher where
  call: "i < length (cm_threads s) \<Longrightarrow> cm_threads s ! i = WOutside \<Longrightarrow>
     chmon_step hasher s (s\<lparr>cm_threads := (cm_threads s)[i := WTest k]\<rparr>)"
| found: "i < length (cm_threads s) \<Longrightarrow> cm_threads s ! i = WTest k \<Longrightarrow>
     chm_waitFind hasher (cm_table s) k = Some v \<Longrightarrow>
     chmon_step hasher s (s\<lparr>cm_threads := (cm_threads s)[i := WReturned k v]\<rparr>)"
| block: "i < length (cm_threads s) \<Longrightarrow> cm_threads s ! i = WTest k \<Longrightarrow>
     chm_waitFind hasher (cm_table s) k = None \<Longrightarrow>
     chmon_step hasher s (s\<lparr>cm_threads := (cm_threads s)[i := WBlocked k]\<rparr>)"
| ins: "chm_insert hasher (cm_table s) k v = (True, m) \<Longrightarrow>
     notify_one (wake_bucket hasher (cm_table s) (chm_bucketIdx hasher (cm_table s) k))
       (cm_threads s) ts \<Longrightarrow>
     chmon_step hasher s (s\<lparr>cm_table := m, cm_threads := ts\<rparr>)"
| ers: "chmon_step hasher s (s\<lparr>cm_table := chm_erase hasher (cm_table s) k\<rparr>)"
| spurious: "i < length (cm_threads s) \<Longrightarrow> cm_threads s ! i = WBlocked k \<Longrightarrow>
     chmon_step hasher s (s\<lparr>cm_threads := (cm_threads s)[i := WTest k]\<rparr>)"

inductive chmon_reach :: "('k \<Rightarrow> size_t) \<Rightarrow> size_t \<Rightarrow> nat \<Rightarrow> ('k, 'v) chmon \<Rightarrow> bool"
  for hasher n t where
  start: "chmon_reach hasher n t \<lparr>cm_table = chm_new n, cm_threads = replicate t WOutside\<rparr>"
| step: "chmon_reach hasher n t s \<Longrightarrow> chmon_step hasher s s' \<Longrightarrow> chmon_reach hasher n t s'"

lemma chm_waitFind_find: "chm_waitFind hasher m k = chm_find hasher m k"
  by (simp add: chm_waitFind_def chm_find_def)

lemma chmon_step_inv: "chmon_step hasher s s' \<Longrightarrow> chm_inv hasher (cm_table s) \<Longrightarrow> chm_inv hasher (cm_table s')"
proof (induction rule: chmon_step.induct)
  case (ins s k v m ts)
  then show ?case using chm.insert_inv [of hasher "cm_table s" k v] by simp
next
  case (ers s k)
  then show ?case by (simp add: chm.erase_inv)
qed simp_all

lemma chmon_reach_inv: "chmon_reach hasher n t s \<Longrightarrow> 0 < n \<Longrightarrow> chm_inv hasher (cm_table s)"
  by (induction rule: chmon_reach.induct) (auto intro: chm_new_inv chmon_step_inv)

text \<open>The threads whose key is there although they are blocked.\<close>

definition stranded :: "('k \<Rightarrow> size_t) \<Rightarrow> ('k, 'v) chmon \<Rightarrow> nat \<Rightarrow> 'k \<Rightarrow> bool" where
  "stranded hasher s i k \<longleftrightarrow> i < length (cm_threads s) \<and> cm_threads s ! i = WBlocked k \<and>
     chm_find hasher (cm_table s) k \<noteq> None"

text \<open>An insertion into the one waiter's bucket wakes it.\<close>

lemma chmon_ins_single:
  assumes "chm_inv hasher (cm_table s)" "cm_threads s = [w]" "\<not> stranded hasher s 0 k"
    and "chm_insert hasher (cm_table s) k' v = (True, m)"
    and "notify_one (wake_bucket hasher (cm_table s) (chm_bucketIdx hasher (cm_table s) k')) [w] ts"
  shows "\<not> stranded hasher (s\<lparr>cm_table := m, cm_threads := ts\<rparr>) 0 k"
proof
  assume st: "stranded hasher (s\<lparr>cm_table := m, cm_threads := ts\<rparr>) 0 k"
  then have blocked: "ts ! 0 = WBlocked k" and here: "chm_find hasher m k \<noteq> None"
    by (auto simp: stranded_def)
  from assms(5) show False
  proof cases
    case nobody
    with blocked have w: "w = WBlocked k" by simp
    then have "k \<noteq> k'" using nobody by (auto split: if_splits)
    moreover have "chm_find hasher (cm_table s) k = None"
      using assms(2,3) w by (simp add: stranded_def)
    ultimately show False
      using here chm.insert_find [OF assms(1), of k' v k] assms(4) by simp
  next
    case (wake i t)
    with blocked show False by (cases w) (auto split: if_splits)
  qed
qed

lemma chmon_step_single:
  assumes "chmon_step hasher s s'" "chm_inv hasher (cm_table s)"
    and "length (cm_threads s) = 1" "\<not> stranded hasher s 0 k"
  shows "length (cm_threads s') = 1 \<and> \<not> stranded hasher s' 0 k"
  using assms(1)
proof cases
  case (ins k' v m ts)
  from assms(3) obtain w where w: "cm_threads s = [w]" by (cases "cm_threads s") auto
  have "\<not> stranded hasher s' 0 k"
    using chmon_ins_single [OF assms(2) w assms(4) ins(2)] ins(1,3) w by simp
  moreover have "length (cm_threads s') = 1"
    using notify_one_length [OF ins(3)] assms(3) ins(1) by simp
  ultimately show ?thesis by simp
next
  case (block i k')
  then show ?thesis using assms(3,4) by (auto simp: stranded_def chm_waitFind_find)
next
  case (ers k')
  then show ?thesis
    using assms(2-4) by (auto simp: stranded_def chm.erase_find split: if_splits)
qed (use assms(3,4) in \<open>auto simp: stranded_def\<close>)

lemma chmon_reach_single:
  "chmon_reach hasher n t s \<Longrightarrow> t = 1 \<Longrightarrow> 0 < n \<Longrightarrow> length (cm_threads s) = 1 \<and> \<not> stranded hasher s 0 k"
proof (induction rule: chmon_reach.induct)
  case start
  then show ?case by (simp add: stranded_def)
next
  case (step s s')
  then have "chm_inv hasher (cm_table s)" using chmon_reach_inv [of hasher n t s] by simp
  with step show ?case using chmon_step_single [of hasher s s' k] by simp
qed

section \<open>Properties\<close>

text \<open>
  C14: The sharded table behaves as one map, for every hash function and every number of buckets:
  \<open>insert\<close> succeeds exactly when the key is absent and then \<open>find\<close> yields the value, a
  duplicate leaves the table unchanged, \<open>erase\<close> removes exactly its key, every other key is
  untouched, and the placement of keys in buckets is kept.
\<close>

theorem chm_refines_map:
  assumes "chm_inv hasher m"
  shows "(case chm_insert hasher m k v of (b, m') \<Rightarrow>
      chm_inv hasher m' \<and> b = (chm_find hasher m k = None) \<and>
      chm_find hasher m' = (if b then (chm_find hasher m)(k \<mapsto> v) else chm_find hasher m)) \<and>
    (let m' = chm_erase hasher m k in
      chm_inv hasher m' \<and> chm_find hasher m' = (chm_find hasher m)(k := None))"
  using chm.insert_inv [OF assms, of k v] chm.insert_result [OF assms, of k v]
    chm.insert_find [OF assms, of k v] chm.erase_inv [OF assms, of k] chm.erase_find [OF assms, of k]
  by (auto simp: fun_eq_iff Let_def split: prod.splits)

theorem chm_refines_map_witness:
  "chm_inv (\<lambda>k::nat. of_nat k) (chm_new DEFAULT_HASHLOCKS) \<and>
   (case chm_insert (\<lambda>k::nat. of_nat k) (chm_new DEFAULT_HASHLOCKS) 1000 True of (b, m') \<Rightarrow>
     b \<and> chm_find (\<lambda>k::nat. of_nat k) m' 1000 = Some True)"
proof -
  have n: "0 < DEFAULT_HASHLOCKS" by (simp add: DEFAULT_HASHLOCKS_def)
  show ?thesis
    using chm_refines_map [OF chm_new_inv [OF n], of "\<lambda>k::nat. of_nat k" 1000 True]
      chm_new_inv [OF n, of "\<lambda>k::nat. of_nat k"] chm_new_find [OF n, of "\<lambda>k::nat. of_nat k" 1000]
    by (auto split: prod.splits)
qed

text \<open>
  With a single thread in \<open>waitFind\<close>, as when \<open>TcpServer\<close> waits for its services to
  register, no wake-up is lost: in every reachable state a blocked thread's key is absent.
\<close>

theorem waitFind_single_waiter:
  assumes "chmon_reach hasher n 1 s" "0 < n" "cm_threads s = [WBlocked k]"
  shows "chm_find hasher (cm_table s) k = None"
  using chmon_reach_single [OF assms(1) refl assms(2), of k] assms(3) by (simp add: stranded_def)

theorem waitFind_single_waiter_witness:
  "chm_find (\<lambda>k::nat. of_nat k) (chm_new 7 :: (nat, bool) chm) 3 = None"
proof -
  let ?h = "\<lambda>k::nat. of_nat k :: size_t"
  let ?s = "\<lambda>w. \<lparr>cm_table = chm_new 7, cm_threads = [w]\<rparr> :: (nat, bool) chmon"
  have "chmon_reach ?h 7 1 (?s WOutside)" using chmon_reach.start [of ?h 7 1] by simp
  from chmon_reach.step [OF this chmon_step.call [of 0 _ _ 3]]
  have "chmon_reach ?h 7 1 (?s (WTest 3))" by simp
  from chmon_reach.step [OF this chmon_step.block [of 0 _ 3]]
  have "chmon_reach ?h 7 1 (?s (WBlocked 3))" by (simp add: chm_waitFind_find chm_new_find)
  from waitFind_single_waiter [OF this, of 3] show ?thesis by simp
qed

text \<open>
  C29: With two threads waiting for the same key a wake-up is lost: \<open>insert\<close> notifies one waiter
  only, so the other stays blocked although the key is present and no thread is about to look it
  up again. This happens for every hash function, key and value.
\<close>

theorem waitFind_lost_wakeup:
  "\<exists>s. chmon_reach hasher DEFAULT_HASHLOCKS 2 s \<and>
     cm_threads s = [WReturned k v, WBlocked k] \<and> chm_find hasher (cm_table s) k = Some v"
proof -
  let ?n = DEFAULT_HASHLOCKS
  have n: "0 < ?n" by (simp add: DEFAULT_HASHLOCKS_def)
  let ?t = "chm_new ?n :: ('a, 'b) chm"
  let ?s = "\<lambda>ts. \<lparr>cm_table = ?t, cm_threads = ts\<rparr>"
  have none: "chm_waitFind hasher ?t k = None"
    by (simp add: chm_waitFind_find chm_new_find [OF n])
  have "chmon_reach hasher ?n 2 (?s [WOutside, WOutside])"
    using chmon_reach.start [of hasher ?n 2] by (simp add: replicate_numeral_Cons)
  from chmon_reach.step [OF this chmon_step.call [of 0 _ _ k]]
  have "chmon_reach hasher ?n 2 (?s [WTest k, WOutside])" by simp
  from chmon_reach.step [OF this chmon_step.block [of 0 _ k]] none
  have "chmon_reach hasher ?n 2 (?s [WBlocked k, WOutside])" by simp
  from chmon_reach.step [OF this chmon_step.call [of 1 _ _ k]]
  have "chmon_reach hasher ?n 2 (?s [WBlocked k, WTest k])" by simp
  from chmon_reach.step [OF this chmon_step.block [of 1 _ k]] none
  have two: "chmon_reach hasher ?n 2 (?s [WBlocked k, WBlocked k])" by simp
  obtain b m where ins: "chm_insert hasher ?t k v = (b, m)" by fastforce
  have b: "b" and found: "chm_find hasher m k = Some v"
    using chm.insert_fresh [OF chm_new_inv [OF n] chm_new_find [OF n], of hasher k v] ins by auto
  have "chmon_reach hasher ?n 2 \<lparr>cm_table = m, cm_threads = [WTest k, WBlocked k]\<rparr>"
    using chmon_reach.step [OF two chmon_step.ins [of _ _ k v m "[WTest k, WBlocked k]"]] ins b
      notify_one.wake [of 0 "[WBlocked k, WBlocked k]"
        "wake_bucket hasher ?t (chm_bucketIdx hasher ?t k)" "WTest k"]
    by simp
  from chmon_reach.step [OF this chmon_step.found [of 0 _ k _ v]] found
  have "chmon_reach hasher ?n 2 \<lparr>cm_table = m, cm_threads = [WReturned k v, WBlocked k]\<rparr>"
    by (simp add: chm_waitFind_find)
  then show ?thesis using found by (intro exI) auto
qed

end
