(* ===== verification/Bounded_Queue.thy ===== *)
theory Bounded_Queue
  imports Banana_Prelude
begin

text \<open>
  The interface of the message and task queues. \<open>ConcurrentRingBuffer\<close> and
  \<open>WaitFreeConcurrentRingBuffer\<close> both promise it, and their clients (the message queue of an
  \<open>InteractiveTask\<close>, the task queue of the \<open>ThreadPool\<close>, the new-connection queue of a
  \<open>NetWorkService\<close>) rely on nothing else: a queue of bounded length, first in first out, whose
  \<open>put\<close> reports a full and whose \<open>get\<close> an empty queue.
\<close>

datatype 'a qop = Put 'a | Get

locale bounded_queue =
  fixes put :: "'q \<Rightarrow> 'a \<Rightarrow> 'q option"
    and get :: "'q \<Rightarrow> ('a \<times> 'q) option"
    and items :: "'q \<Rightarrow> 'a list"
    and cap :: "'q \<Rightarrow> nat"
    and inv :: "'q \<Rightarrow> bool"
  assumes put_full: "inv q \<Longrightarrow> put q x = None \<longleftrightarrow> length (items q) = cap q"
    and put_items: "inv q \<Longrightarrow> put q x = Some q' \<Longrightarrow> items q' = items q @ [x]"
    and put_inv: "inv q \<Longrightarrow> put q x = Some q' \<Longrightarrow> inv q'"
    and put_cap: "inv q \<Longrightarrow> put q x = Some q' \<Longrightarrow> cap q' = cap q"
    and get_empty: "inv q \<Longrightarrow> get q = None \<longleftrightarrow> items q = []"
    and get_items: "inv q \<Longrightarrow> get q = Some (x, q') \<Longrightarrow> items q = x # items q'"
    and get_inv: "inv q \<Longrightarrow> get q = Some (x, q') \<Longrightarrow> inv q'"
    and get_cap: "inv q \<Longrightarrow> get q = Some (x, q') \<Longrightarrow> cap q' = cap q"
    and items_bound: "inv q \<Longrightarrow> length (items q) \<le> cap q"
begin

lemmas put_laws = put_items put_inv put_cap
lemmas get_laws = get_items get_inv get_cap

text \<open>A queue with room accepts; a queue with an element delivers its oldest.\<close>

lemma put_accepts:
  assumes "inv q" "length (items q) < cap q"
  obtains q' where "put q x = Some q'" "items q' = items q @ [x]" "inv q'" "cap q' = cap q"
proof (cases "put q x")
  case None
  with assms show ?thesis using put_full [of q x] by simp
next
  case (Some q')
  then show ?thesis using that put_laws [OF assms(1)] by blast
qed

lemma get_delivers:
  assumes "inv q" "items q = x # xs"
  obtains q' where "get q = Some (x, q')" "items q' = xs" "inv q'" "cap q' = cap q"
proof (cases "get q")
  case None
  with assms show ?thesis using get_empty [of q] by simp
next
  case (Some p)
  obtain y q' where p: "p = (y, q')" by (cases p)
  with Some assms have "items q = y # items q'" "inv q'" "cap q' = cap q"
    using get_laws [of q y q'] by auto
  with that Some p assms show ?thesis by auto
qed

lemma put_then_get_empty:
  assumes "inv q" "items q = []" "put q x = Some q'"
  shows "\<exists>q''. get q' = Some (x, q'') \<and> items q'' = []"
proof -
  have "inv q'" "items q' = [x]" using assms put_laws by auto
  then show ?thesis by (auto elim: get_delivers)
qed

text \<open>
  A run of operations: the elements accepted and the elements delivered, in order. A refused
  \<open>put\<close> and a \<open>get\<close> on the empty queue leave the queue as it is.
\<close>

fun run :: "'q \<Rightarrow> 'a qop list \<Rightarrow> 'q \<times> 'a list \<times> 'a list" where
  "run q [] = (q, [], [])"
| "run q (Put x # ops) =
     (case put q x of
        None \<Rightarrow> run q ops
      | Some q' \<Rightarrow> (case run q' ops of (r, ins, outs) \<Rightarrow> (r, x # ins, outs)))"
| "run q (Get # ops) =
     (case get q of
        None \<Rightarrow> run q ops
      | Some (x, q') \<Rightarrow> (case run q' ops of (r, ins, outs) \<Rightarrow> (r, ins, x # outs)))"

lemma run_fifo:
  "inv q \<Longrightarrow> run q ops = (r, ins, outs) \<Longrightarrow>
   inv r \<and> cap r = cap q \<and> items q @ ins = outs @ items r"
proof (induction q ops arbitrary: r ins outs rule: run.induct)
  case (1 q)
  then show ?case by simp
next
  case (2 q x ops)
  show ?case
  proof (cases "put q x")
    case None
    with "2" show ?thesis by simp
  next
    case (Some q')
    with "2" show ?thesis using put_laws [of q x q'] by (fastforce split: prod.splits)
  qed
next
  case (3 q ops)
  show ?case
  proof (cases "get q")
    case None
    with "3" show ?thesis by simp
  next
    case (Some p)
    with "3" show ?thesis using get_laws [of q] by (cases p) (fastforce split: prod.splits)
  qed
qed

lemma run_bounded:
  assumes "inv q" "items q = []" "run q ops = (r, ins, outs)"
  shows "length ins \<le> length outs + cap q"
proof -
  from run_fifo [OF assms(1,3)] have "ins = outs @ items r" "inv r" "cap r = cap q"
    using assms(2) by auto
  with items_bound [of r] show ?thesis by simp
qed

end

end
