(* ===== verification/ConcurrentRingBuffer.thy ===== *)
theory ConcurrentRingBuffer
  imports Bounded_Queue
begin

text \<open>
  The template \<open>ConcurrentRingBuffer<T>\<close> of \<open>multi-threading/ConcurrentRingBuffer.h\<close>: the
  operations as the critical sections between two releases of \<open>mtx_\<close>, the refinement of the
  ring to a bounded queue, and the monitor: threads that block on \<open>condNotFull_\<close> and
  \<open>condNotEmpty_\<close> and are woken one at a time.
\<close>

section \<open>The ring\<close>

record 'a ring =
  rb_buff :: "'a list"
  rb_size :: size_t
  rb_head :: size_t
  rb_tail :: size_t

text \<open>The constructor; \<open>d\<close> is the value \<open>T()\<close> that \<open>new T[size]\<close> fills the array with.\<close>

definition crb_new :: "'a \<Rightarrow> size_t \<Rightarrow> 'a ring" where
  "crb_new d sz = \<lparr>rb_buff = replicate (unat sz) d, rb_size = sz, rb_head = 0, rb_tail = 0\<rparr>"

text \<open>\<open>(index + 1) % size_\<close>; the remainder by zero traps.\<close>

definition crb_next :: "'a ring \<Rightarrow> size_t \<Rightarrow> size_t outcome" where
  "crb_next r index =
     (if rb_size r = 0 then Inl DivisionByZero else Inr ((index + 1) mod rb_size r))"

text \<open>\<open>buff_[i] = obj\<close> and \<open>buff_[i]\<close>.\<close>

definition crb_store :: "'a ring \<Rightarrow> size_t \<Rightarrow> 'a \<Rightarrow> 'a ring outcome" where
  "crb_store r i obj =
     (if unat i < length (rb_buff r) then Inr (r\<lparr>rb_buff := (rb_buff r)[unat i := obj]\<rparr>)
      else Inl OutOfBounds)"

definition crb_load :: "'a ring \<Rightarrow> size_t \<Rightarrow> 'a outcome" where
  "crb_load r i =
     (if unat i < length (rb_buff r) then Inr (rb_buff r ! unat i) else Inl OutOfBounds)"

text \<open>
  One pass of \<open>syncPut\<close> through its critical section: \<open>Inr None\<close> when the loop's guard holds
  and the thread waits on \<open>condNotFull_\<close>, \<open>Inr (Some r)\<close> when the element has been stored
  and one waiter of \<open>condNotEmpty_\<close> is notified.
\<close>

definition crb_syncPut :: "'a ring \<Rightarrow> 'a \<Rightarrow> 'a ring option outcome" where
  "crb_syncPut r obj =
     and_then (crb_next r (rb_head r)) (\<lambda>nh.
       if nh = rb_tail r then Inr None
       else and_then (crb_store r (rb_head r) obj) (\<lambda>r'.
         and_then (crb_next r' (rb_head r')) (\<lambda>nh'. Inr (Some (r'\<lparr>rb_head := nh'\<rparr>)))))"

text \<open>
  \<open>asyncPut\<close>: the value returned is \<open>Some False\<close> for a full buffer; after a store control
  flows off the end of a function that returns \<open>bool\<close>, so no value is returned: \<open>None\<close>.
\<close>

definition crb_asyncPut :: "'a ring \<Rightarrow> 'a \<Rightarrow> (bool option \<times> 'a ring) outcome" where
  "crb_asyncPut r obj =
     and_then (crb_next r (rb_head r)) (\<lambda>nh.
       if nh = rb_tail r then Inr (Some False, r)
       else and_then (crb_store r (rb_head r) obj) (\<lambda>r'.
         and_then (crb_next r' (rb_head r')) (\<lambda>nh'. Inr (None, r'\<lparr>rb_head := nh'\<rparr>))))"

text \<open>
  One pass of \<open>syncGet\<close>: \<open>Inr None\<close> when the thread waits on \<open>condNotEmpty_\<close>; otherwise
  the returned \<open>bool\<close> (always true), the element and the ring.
\<close>

definition crb_syncGet :: "'a ring \<Rightarrow> (bool \<times> 'a \<times> 'a ring) option outcome" where
  "crb_syncGet r =
     (if rb_tail r = rb_head r then Inr None
      else and_then (crb_load r (rb_tail r)) (\<lambda>obj.
        and_then (crb_next r (rb_tail r)) (\<lambda>nt. Inr (Some (True, obj, r\<lparr>rb_tail := nt\<rparr>)))))"

text \<open>\<open>asyncGet\<close>: the returned \<open>bool\<close>, the object written through the reference if any.\<close>

definition crb_asyncGet :: "'a ring \<Rightarrow> (bool \<times> 'a option \<times> 'a ring) outcome" where
  "crb_asyncGet r =
     (if rb_tail r = rb_head r then Inr (False, None, r)
      else and_then (crb_load r (rb_tail r)) (\<lambda>obj.
        and_then (crb_next r (rb_tail r)) (\<lambda>nt. Inr (True, Some obj, r\<lparr>rb_tail := nt\<rparr>))))"

section \<open>The invariant and the elements of the ring\<close>

definition crb_inv :: "'a ring \<Rightarrow> bool" where
  "crb_inv r \<longleftrightarrow> 0 < rb_size r \<and> length (rb_buff r) = unat (rb_size r) \<and>
     rb_head r < rb_size r \<and> rb_tail r < rb_size r"

definition crb_cap :: "'a ring \<Rightarrow> nat" where
  "crb_cap r = unat (rb_size r) - 1"

text \<open>How many elements there are, and which, oldest first.\<close>

definition crb_count :: "'a ring \<Rightarrow> nat" where
  "crb_count r =
     (if rb_tail r \<le> rb_head r then unat (rb_head r) - unat (rb_tail r)
      else unat (rb_head r) + unat (rb_size r) - unat (rb_tail r))"

definition crb_items :: "'a ring \<Rightarrow> 'a list" where
  "crb_items r =
     map (\<lambda>i. rb_buff r ! ((unat (rb_tail r) + i) mod unat (rb_size r))) [0..<crb_count r]"

lemmas crb_ops = crb_syncPut_def crb_asyncPut_def crb_syncGet_def crb_asyncGet_def
  crb_next_def crb_store_def crb_load_def

lemma crb_new_inv [simp]: "0 < n \<Longrightarrow> crb_inv (crb_new d n)"
  by (simp add: crb_inv_def crb_new_def)

lemma crb_new_items [simp]: "crb_items (crb_new d n) = []"
  by (simp add: crb_items_def crb_count_def crb_new_def)

lemma crb_new_cap [simp]: "crb_cap (crb_new d n) = unat n - 1"
  by (simp add: crb_cap_def crb_new_def)

text \<open>The index arithmetic, on natural numbers.\<close>

lemma Suc_mod_cases: "h < N \<Longrightarrow> Suc h mod N = (if Suc h = N then 0 else Suc h)" for h N :: nat
  by simp

lemma crb_inv_nat:
  assumes "crb_inv r"
  shows "unat (rb_head r) < unat (rb_size r)" "unat (rb_tail r) < unat (rb_size r)"
    "0 < unat (rb_size r)" "length (rb_buff r) = unat (rb_size r)" "rb_size r \<noteq> 0"
  using assms by (auto simp: crb_inv_def word_less_nat_alt)

lemma crb_next_inv:
  assumes "crb_inv r" "i < rb_size r"
  shows "crb_next r i = Inr ((i + 1) mod rb_size r)" "(i + 1) mod rb_size r < rb_size r"
    "unat ((i + 1) mod rb_size r) = (if Suc (unat i) = unat (rb_size r) then 0 else Suc (unat i))"
proof -
  from assms(1) have "rb_size r \<noteq> 0" by (rule crb_inv_nat)
  then show "crb_next r i = Inr ((i + 1) mod rb_size r)" by (simp add: crb_next_def)
  show "(i + 1) mod rb_size r < rb_size r"
    using assms(1) by (simp add: crb_inv_def word_mod_less_divisor)
  show "unat ((i + 1) mod rb_size r) = (if Suc (unat i) = unat (rb_size r) then 0 else Suc (unat i))"
    using assms(2) by (simp only: unat_ring_next Suc_mod_cases word_less_nat_alt)
qed

lemma crb_count_bound: "crb_inv r \<Longrightarrow> crb_count r \<le> crb_cap r"
  using crb_inv_nat [of r] by (auto simp: crb_count_def crb_cap_def word_le_nat_alt)

lemma crb_length_items [simp]: "length (crb_items r) = crb_count r"
  by (simp add: crb_items_def)

text \<open>The loop guards of the code say exactly that the ring is full, or empty.\<close>

lemma crb_full_iff:
  assumes "crb_inv r"
  shows "(rb_head r + 1) mod rb_size r = rb_tail r \<longleftrightarrow> crb_count r = crb_cap r"
proof -
  have h: "rb_head r < rb_size r" using assms by (simp add: crb_inv_def)
  show ?thesis
    using crb_inv_nat [OF assms] crb_next_inv(3) [OF assms h]
    by (auto simp: crb_count_def crb_cap_def word_le_nat_alt word_unat_eq_iff split: if_splits)
qed

lemma crb_empty_iff: "crb_inv r \<Longrightarrow> rb_tail r = rb_head r \<longleftrightarrow> crb_items r = []"
  using crb_inv_nat [of r]
  by (auto simp: crb_items_def crb_count_def word_le_nat_alt word_unat_eq_iff split: if_splits)

text \<open>What the two critical sections do to the ring once their guards let them through.\<close>

definition crb_push :: "'a ring \<Rightarrow> 'a \<Rightarrow> 'a ring" where
  "crb_push r x = r\<lparr>rb_buff := (rb_buff r)[unat (rb_head r) := x],
     rb_head := (rb_head r + 1) mod rb_size r\<rparr>"

definition crb_pop :: "'a ring \<Rightarrow> 'a ring" where
  "crb_pop r = r\<lparr>rb_tail := (rb_tail r + 1) mod rb_size r\<rparr>"

lemma crb_put_cases:
  assumes "crb_inv r"
  shows "crb_syncPut r x = Inr (if crb_count r = crb_cap r then None else Some (crb_push r x))"
    and "crb_asyncPut r x =
      Inr (if crb_count r = crb_cap r then (Some False, r) else (None, crb_push r x))"
proof -
  have h: "rb_head r < rb_size r" using assms by (simp add: crb_inv_def)
  note facts = crb_inv_nat [OF assms] crb_next_inv(1) [OF assms h] crb_full_iff [OF assms]
  show "crb_syncPut r x = Inr (if crb_count r = crb_cap r then None else Some (crb_push r x))"
    using facts by (simp add: crb_syncPut_def crb_store_def crb_next_def crb_push_def)
  show "crb_asyncPut r x =
      Inr (if crb_count r = crb_cap r then (Some False, r) else (None, crb_push r x))"
    using facts by (simp add: crb_asyncPut_def crb_store_def crb_next_def crb_push_def)
qed

lemma crb_get_cases:
  assumes "crb_inv r"
  shows "crb_syncGet r = Inr (case crb_items r of [] \<Rightarrow> None
      | x # _ \<Rightarrow> Some (True, x, crb_pop r))"
    and "crb_asyncGet r = Inr (case crb_items r of [] \<Rightarrow> (False, None, r)
      | x # _ \<Rightarrow> (True, Some x, crb_pop r))"
proof -
  have t: "rb_tail r < rb_size r" using assms by (simp add: crb_inv_def)
  have hd: "crb_items r = x # xs \<Longrightarrow> x = rb_buff r ! unat (rb_tail r)" for x xs
    using crb_inv_nat [OF assms]
    by (cases "crb_count r") (auto simp: crb_items_def upt_rec split: if_splits)
  note facts = crb_inv_nat [OF assms] crb_next_inv(1) [OF assms t] crb_empty_iff [OF assms]
  show "crb_syncGet r = Inr (case crb_items r of [] \<Rightarrow> None
      | x # _ \<Rightarrow> Some (True, x, crb_pop r))"
    using facts hd
    by (auto simp: crb_syncGet_def crb_load_def crb_pop_def split: list.splits)
  show "crb_asyncGet r = Inr (case crb_items r of [] \<Rightarrow> (False, None, r)
      | x # _ \<Rightarrow> (True, Some x, crb_pop r))"
    using facts hd
    by (auto simp: crb_asyncGet_def crb_load_def crb_pop_def split: list.splits)
qed

lemma crb_push_inv: "crb_inv r \<Longrightarrow> crb_inv (crb_push r x)"
  using crb_next_inv(2) [of r "rb_head r"] by (simp add: crb_inv_def crb_push_def)

lemma crb_pop_inv: "crb_inv r \<Longrightarrow> crb_inv (crb_pop r)"
  using crb_next_inv(2) [of r "rb_tail r"] by (simp add: crb_inv_def crb_pop_def)

lemma crb_push_cap [simp]: "crb_cap (crb_push r x) = crb_cap r"
  and crb_pop_cap [simp]: "crb_cap (crb_pop r) = crb_cap r"
  by (simp_all add: crb_cap_def crb_push_def crb_pop_def)

lemma crb_push_count:
  assumes "crb_inv r" "crb_count r \<noteq> crb_cap r"
  shows "crb_count (crb_push r x) = Suc (crb_count r)"
proof -
  have h: "rb_head r < rb_size r" using assms by (simp add: crb_inv_def)
  show ?thesis
    using crb_inv_nat [OF assms(1)] crb_next_inv(3) [OF assms(1) h] assms(2)
    by (auto simp: crb_count_def crb_cap_def crb_push_def word_le_nat_alt split: if_splits)
qed

lemma crb_pop_count:
  assumes "crb_inv r" "crb_items r \<noteq> []"
  shows "crb_count r = Suc (crb_count (crb_pop r))"
proof -
  have t: "rb_tail r < rb_size r" using assms by (simp add: crb_inv_def)
  have "rb_tail r \<noteq> rb_head r" using crb_empty_iff [OF assms(1)] assms(2) by simp
  then show ?thesis
    using crb_inv_nat [OF assms(1)] crb_next_inv(3) [OF assms(1) t]
    by (auto simp: crb_count_def crb_pop_def word_le_nat_alt word_unat_eq_iff split: if_splits)
qed

text \<open>The slot the next element goes to is not one of those in use.\<close>

lemma crb_slot_free:
  assumes "crb_inv r" "i < crb_count r" "crb_count r \<noteq> crb_cap r"
  shows "unat (rb_head r) \<noteq> (unat (rb_tail r) + i) mod unat (rb_size r)"
proof -
  let ?N = "unat (rb_size r)" and ?t = "unat (rb_tail r)"
  have "unat (rb_head r) = (?t + crb_count r) mod ?N"
    using crb_inv_nat [OF assms(1)] by (auto simp: crb_count_def word_le_nat_alt)
  moreover have "(?t + i) mod ?N = (?t + crb_count r) mod ?N \<longleftrightarrow> i = crb_count r"
    using mod_eq_in_window [of "?t" "?t + i" ?N "?t + crb_count r"] assms(2)
      crb_count_bound [OF assms(1)] crb_inv_nat [OF assms(1)] by (auto simp: crb_cap_def)
  ultimately show ?thesis using assms(2) by auto
qed

lemma crb_push_items:
  assumes "crb_inv r" "crb_count r \<noteq> crb_cap r"
  shows "crb_items (crb_push r x) = crb_items r @ [x]"
proof -
  let ?N = "unat (rb_size r)" and ?t = "unat (rb_tail r)" and ?h = "unat (rb_head r)"
  have hd: "(?t + crb_count r) mod ?N = ?h"
    using crb_inv_nat [OF assms(1)] by (auto simp: crb_count_def word_le_nat_alt)
  have "map (\<lambda>i. (rb_buff r)[?h := x] ! ((?t + i) mod ?N)) [0..<crb_count r] = crb_items r"
    using crb_slot_free [OF assms(1) _ assms(2)]
    by (auto simp: crb_items_def intro!: nth_list_update_neq)
  then have "crb_items (crb_push r x) = crb_items r @ [(rb_buff r)[?h := x] ! ?h]"
    unfolding crb_items_def [of "crb_push r x"] crb_push_count [OF assms]
    by (simp add: crb_push_def hd)
  then show ?thesis using crb_inv_nat [OF assms(1)] by simp
qed

lemma crb_pop_items:
  assumes "crb_inv r" "crb_items r \<noteq> []"
  shows "crb_items r = hd (crb_items r) # crb_items (crb_pop r)"
proof -
  let ?N = "unat (rb_size r)" and ?t = "unat (rb_tail r)"
  have t: "rb_tail r < rb_size r" using assms by (simp add: crb_inv_def)
  have shift: "(unat ((rb_tail r + 1) mod rb_size r) + i) mod ?N = (?t + Suc i) mod ?N" for i
    unfolding unat_ring_next [OF t] by (simp add: mod_add_left_eq)
  have "crb_items (crb_pop r) =
      map (\<lambda>i. rb_buff r ! ((?t + Suc i) mod ?N)) [0..<crb_count (crb_pop r)]"
    by (simp add: crb_items_def crb_pop_def shift)
  also have "\<dots> = tl (crb_items r)"
    by (simp add: crb_items_def crb_pop_count [OF assms] map_upt_Suc del: upt_Suc)
  finally show ?thesis using assms(2) by simp
qed

section \<open>The ring is a bounded queue\<close>

text \<open>The blocking operations as a client sees them between two waits.\<close>

definition crb_put :: "'a ring \<Rightarrow> 'a \<Rightarrow> 'a ring option" where
  "crb_put r x = (case crb_syncPut r x of Inl _ \<Rightarrow> None | Inr ro \<Rightarrow> ro)"

definition crb_get :: "'a ring \<Rightarrow> ('a \<times> 'a ring) option" where
  "crb_get r = (case crb_syncGet r of Inl _ \<Rightarrow> None | Inr ro \<Rightarrow> map_option snd ro)"

interpretation crb: bounded_queue crb_put crb_get crb_items crb_cap crb_inv
proof (unfold_locales, goal_cases)
  case (1 q x)
  then show ?case by (simp add: crb_put_def crb_put_cases)
next
  case (2 q x q')
  then show ?case
    by (auto simp: crb_put_def crb_put_cases crb_push_items split: if_splits)
next
  case (3 q x q')
  then show ?case by (auto simp: crb_put_def crb_put_cases crb_push_inv split: if_splits)
next
  case (4 q x q')
  then show ?case by (auto simp: crb_put_def crb_put_cases split: if_splits)
next
  case (5 q)
  then show ?case by (simp add: crb_get_def crb_get_cases split: list.split)
next
  case (6 q x q')
  then show ?case using crb_pop_items [of q]
    by (auto simp: crb_get_def crb_get_cases split: list.splits)
next
  case (7 q x q')
  then show ?case by (auto simp: crb_get_def crb_get_cases crb_pop_inv split: list.splits)
next
  case (8 q x q')
  then show ?case by (auto simp: crb_get_def crb_get_cases split: list.splits)
next
  case (9 q)
  then show ?case by (simp add: crb_count_bound)
qed

section \<open>The monitor: threads that put and get\<close>

text \<open>
  A thread is outside the buffer, inside \<open>syncPut\<close> or \<open>syncGet\<close> and about to test the
  loop's guard with the mutex held, or blocked in \<open>wait\<close> on one of the two condition
  variables. A woken thread tests its guard again.
\<close>

datatype 'a pthread =
    Outside
  | InPut 'a
  | OnNotFull 'a
  | InGet
  | OnNotEmpty

fun wake_putter :: "'a pthread \<Rightarrow> 'a pthread option" where
  "wake_putter (OnNotFull x) = Some (InPut x)"
| "wake_putter _ = None"

fun wake_getter :: "'a pthread \<Rightarrow> 'a pthread option" where
  "wake_getter OnNotEmpty = Some InGet"
| "wake_getter _ = None"

fun is_InPut :: "'a pthread \<Rightarrow> bool" where
  "is_InPut (InPut x) = True"
| "is_InPut _ = False"

fun is_OnNotFull :: "'a pthread \<Rightarrow> bool" where
  "is_OnNotFull (OnNotFull x) = True"
| "is_OnNotFull _ = False"

text \<open>
  The buffer, the threads, and the history: the elements stored and the elements handed out.
\<close>

record 'a monitor =
  mon_ring :: "'a ring"
  mon_threads :: "'a pthread list"
  mon_put :: "'a list"
  mon_got :: "'a list"

definition mon_init :: "'a \<Rightarrow> size_t \<Rightarrow> nat \<Rightarrow> 'a monitor" where
  "mon_init d n k =
     \<lparr>mon_ring = crb_new d n, mon_threads = replicate k Outside, mon_put = [], mon_got = []\<rparr>"

inductive mon_step :: "'a monitor \<Rightarrow> 'a monitor \<Rightarrow> bool" where
  call_put: "i < length (mon_threads m) \<Longrightarrow> mon_threads m ! i = Outside \<Longrightarrow>
     mon_step m (m\<lparr>mon_threads := (mon_threads m)[i := InPut x]\<rparr>)"
| put_wait: "i < length (mon_threads m) \<Longrightarrow> mon_threads m ! i = InPut x \<Longrightarrow>
     crb_syncPut (mon_ring m) x = Inr None \<Longrightarrow>
     mon_step m (m\<lparr>mon_threads := (mon_threads m)[i := OnNotFull x]\<rparr>)"
| put_done: "i < length (mon_threads m) \<Longrightarrow> mon_threads m ! i = InPut x \<Longrightarrow>
     crb_syncPut (mon_ring m) x = Inr (Some r) \<Longrightarrow>
     notify_one wake_getter ((mon_threads m)[i := Outside]) ts \<Longrightarrow>
     mon_step m (m\<lparr>mon_ring := r, mon_threads := ts, mon_put := mon_put m @ [x]\<rparr>)"
| async_put: "i < length (mon_threads m) \<Longrightarrow> mon_threads m ! i = Outside \<Longrightarrow>
     crb_asyncPut (mon_ring m) x = Inr (None, r) \<Longrightarrow>
     notify_one wake_getter (mon_threads m) ts \<Longrightarrow>
     mon_step m (m\<lparr>mon_ring := r, mon_threads := ts, mon_put := mon_put m @ [x]\<rparr>)"
| call_get: "i < length (mon_threads m) \<Longrightarrow> mon_threads m ! i = Outside \<Longrightarrow>
     mon_step m (m\<lparr>mon_threads := (mon_threads m)[i := InGet]\<rparr>)"
| get_wait: "i < length (mon_threads m) \<Longrightarrow> mon_threads m ! i = InGet \<Longrightarrow>
     crb_syncGet (mon_ring m) = Inr None \<Longrightarrow>
     mon_step m (m\<lparr>mon_threads := (mon_threads m)[i := OnNotEmpty]\<rparr>)"
| get_done: "i < length (mon_threads m) \<Longrightarrow> mon_threads m ! i = InGet \<Longrightarrow>
     crb_syncGet (mon_ring m) = Inr (Some (b, x, r)) \<Longrightarrow>
     notify_one wake_putter ((mon_threads m)[i := Outside]) ts \<Longrightarrow>
     mon_step m (m\<lparr>mon_ring := r, mon_threads := ts, mon_got := mon_got m @ [x]\<rparr>)"
| async_get: "i < length (mon_threads m) \<Longrightarrow> mon_threads m ! i = Outside \<Longrightarrow>
     crb_asyncGet (mon_ring m) = Inr (True, Some x, r) \<Longrightarrow>
     notify_one wake_putter (mon_threads m) ts \<Longrightarrow>
     mon_step m (m\<lparr>mon_ring := r, mon_threads := ts, mon_got := mon_got m @ [x]\<rparr>)"
| spurious_put: "i < length (mon_threads m) \<Longrightarrow> mon_threads m ! i = OnNotFull x \<Longrightarrow>
     mon_step m (m\<lparr>mon_threads := (mon_threads m)[i := InPut x]\<rparr>)"
| spurious_get: "i < length (mon_threads m) \<Longrightarrow> mon_threads m ! i = OnNotEmpty \<Longrightarrow>
     mon_step m (m\<lparr>mon_threads := (mon_threads m)[i := InGet]\<rparr>)"

inductive mon_reach :: "'a \<Rightarrow> size_t \<Rightarrow> nat \<Rightarrow> 'a monitor \<Rightarrow> bool" for d n k where
  start: "mon_reach d n k (mon_init d n k)"
| step: "mon_reach d n k m \<Longrightarrow> mon_step m m' \<Longrightarrow> mon_reach d n k m'"

text \<open>How many threads wait for an element or a slot, and how many are about to look for one.\<close>

abbreviation get_waiters :: "'a pthread list \<Rightarrow> nat" where
  "get_waiters \<equiv> tally ((=) OnNotEmpty)"

abbreviation get_ready :: "'a pthread list \<Rightarrow> nat" where
  "get_ready \<equiv> tally ((=) InGet)"

abbreviation put_waiters :: "'a pthread list \<Rightarrow> nat" where
  "put_waiters \<equiv> tally is_OnNotFull"

abbreviation put_ready :: "'a pthread list \<Rightarrow> nat" where
  "put_ready \<equiv> tally is_InPut"

text \<open>The history is first in first out, and the ring is well formed.\<close>

definition mon_hist :: "'a monitor \<Rightarrow> bool" where
  "mon_hist m \<longleftrightarrow> crb_inv (mon_ring m) \<and> mon_put m = mon_got m @ crb_items (mon_ring m)"

text \<open>While a thread waits for an element, there are no more elements than threads about to
  look for one; while a thread waits for a slot, no more free slots than threads about to put.\<close>

definition mon_getters :: "'a monitor \<Rightarrow> bool" where
  "mon_getters m \<longleftrightarrow> (0 < get_waiters (mon_threads m) \<longrightarrow>
     crb_count (mon_ring m) \<le> get_ready (mon_threads m))"

definition mon_putters :: "'a monitor \<Rightarrow> bool" where
  "mon_putters m \<longleftrightarrow> (0 < put_waiters (mon_threads m) \<longrightarrow>
     crb_cap (mon_ring m) - crb_count (mon_ring m) \<le> put_ready (mon_threads m))"

lemma wake_getter_tallies:
  assumes "notify_one wake_getter ts ts'"
  shows "put_waiters ts' = put_waiters ts" "put_ready ts' = put_ready ts"
    "(get_waiters ts = 0 \<and> ts' = ts) \<or>
      (get_waiters ts = Suc (get_waiters ts') \<and> get_ready ts' = Suc (get_ready ts))"
proof -
  have w: "wake_getter t = Some t' \<longleftrightarrow> t = OnNotEmpty \<and> t' = InGet" for t t' :: "'a pthread"
    by (cases t) auto
  show "put_waiters ts' = put_waiters ts" "put_ready ts' = put_ready ts"
    by (rule notify_one_tally [OF assms]; auto simp: w)+
  have "OnNotEmpty = t \<longleftrightarrow> wake_getter t \<noteq> None" for t :: "'a pthread"
    by (cases t) auto
  then show "(get_waiters ts = 0 \<and> ts' = ts) \<or>
      (get_waiters ts = Suc (get_waiters ts') \<and> get_ready ts' = Suc (get_ready ts))"
    by (rule notify_one_wakes [OF assms]) (auto simp: w)
qed

lemma wake_putter_tallies:
  assumes "notify_one wake_putter ts ts'"
  shows "get_waiters ts' = get_waiters ts" "get_ready ts' = get_ready ts"
    "(put_waiters ts = 0 \<and> ts' = ts) \<or>
      (put_waiters ts = Suc (put_waiters ts') \<and> put_ready ts' = Suc (put_ready ts))"
proof -
  have w: "wake_putter t = Some t' \<longleftrightarrow> (\<exists>x. t = OnNotFull x \<and> t' = InPut x)" for t t' :: "'a pthread"
    by (cases t) auto
  show "get_waiters ts' = get_waiters ts" "get_ready ts' = get_ready ts"
    by (rule notify_one_tally [OF assms]; auto simp: w)+
  have waits: "is_OnNotFull t \<longleftrightarrow> wake_putter t \<noteq> None" for t :: "'a pthread"
    by (cases t) simp_all
  have asleep: "is_OnNotFull t \<Longrightarrow> \<not> is_InPut t" for t :: "'a pthread"
    by (cases t) simp_all
  show "(put_waiters ts = 0 \<and> ts' = ts) \<or>
      (put_waiters ts = Suc (put_waiters ts') \<and> put_ready ts' = Suc (put_ready ts))"
    by (rule notify_one_wakes [OF assms waits _ asleep]) (auto simp: w)
qed

text \<open>The effect of a pass that goes through, on the elements and their number.\<close>

lemma crb_put_done:
  assumes "crb_inv r" "crb_syncPut r x = Inr (Some r') \<or> crb_asyncPut r x = Inr (None, r')"
  shows "crb_inv r' \<and> crb_items r' = crb_items r @ [x] \<and>
    crb_count r' = Suc (crb_count r) \<and> crb_cap r' = crb_cap r"
  using assms
  by (auto simp: crb_put_cases crb_push_inv crb_push_items crb_push_count split: if_splits)

lemma crb_get_done:
  assumes "crb_inv r" "crb_syncGet r = Inr (Some (b, x, r')) \<or> crb_asyncGet r = Inr (True, Some x, r')"
  shows "crb_inv r' \<and> crb_items r = x # crb_items r' \<and>
    crb_count r = Suc (crb_count r') \<and> crb_cap r' = crb_cap r"
  using assms crb_pop_items [of r] crb_pop_count [of r]
  by (auto simp: crb_get_cases crb_pop_inv split: list.splits)

lemma mon_step_hist: "mon_step m m' \<Longrightarrow> mon_hist m \<Longrightarrow> mon_hist m'"
proof (induction rule: mon_step.induct)
  case (put_done i m x r ts)
  then show ?case using crb_put_done [of "mon_ring m" x r] by (simp add: mon_hist_def)
next
  case (async_put i m x r ts)
  then show ?case using crb_put_done [of "mon_ring m" x r] by (simp add: mon_hist_def)
next
  case (get_done i m b x r ts)
  then show ?case using crb_get_done [of "mon_ring m" b x r] by (simp add: mon_hist_def)
next
  case (async_get i m x r ts)
  then show ?case using crb_get_done [of "mon_ring m" _ x r] by (simp add: mon_hist_def)
qed (simp_all add: mon_hist_def)

lemma mon_step_getters: "mon_step m m' \<Longrightarrow> crb_inv (mon_ring m) \<Longrightarrow> mon_getters m \<Longrightarrow> mon_getters m'"
proof (induction rule: mon_step.induct)
  case (put_done i m x r ts)
  then show ?case
    using crb_put_done [of "mon_ring m" x r] wake_getter_tallies(3) [OF put_done(4)]
    by (auto simp: mon_getters_def tally_list_update)
next
  case (async_put i m x r ts)
  then show ?case
    using crb_put_done [of "mon_ring m" x r] wake_getter_tallies(3) [OF async_put(4)]
    by (auto simp: mon_getters_def)
next
  case (get_done i m b x r ts)
  then show ?case
    using crb_get_done [of "mon_ring m" b x r] wake_putter_tallies(1,2) [OF get_done(4)]
    by (auto simp: mon_getters_def tally_list_update)
next
  case (async_get i m x r ts)
  then show ?case
    using crb_get_done [of "mon_ring m" _ x r] wake_putter_tallies(1,2) [OF async_get(4)]
    by (auto simp: mon_getters_def)
next
  case (get_wait i m)
  then have "crb_count (mon_ring m) = 0"
    by (auto simp: crb_get_cases split: list.splits simp flip: crb_length_items)
  then show ?case by (simp add: mon_getters_def)
qed (auto simp: mon_getters_def tally_list_update)

lemma mon_step_putters: "mon_step m m' \<Longrightarrow> crb_inv (mon_ring m) \<Longrightarrow> mon_putters m \<Longrightarrow> mon_putters m'"
proof (induction rule: mon_step.induct)
  case (put_done i m x r ts)
  then show ?case
    using crb_put_done [of "mon_ring m" x r] wake_getter_tallies(1,2) [OF put_done(4)]
    by (auto simp: mon_putters_def tally_list_update)
next
  case (async_put i m x r ts)
  then show ?case
    using crb_put_done [of "mon_ring m" x r] wake_getter_tallies(1,2) [OF async_put(4)]
    by (auto simp: mon_putters_def)
next
  case (get_done i m b x r ts)
  then show ?case
    using crb_get_done [of "mon_ring m" b x r] wake_putter_tallies(3) [OF get_done(4)]
    by (auto simp: mon_putters_def tally_list_update)
next
  case (async_get i m x r ts)
  then show ?case
    using crb_get_done [of "mon_ring m" _ x r] wake_putter_tallies(3) [OF async_get(4)]
    by (auto simp: mon_putters_def)
next
  case (put_wait i m x)
  then have "crb_cap (mon_ring m) - crb_count (mon_ring m) = 0"
    by (auto simp: crb_put_cases split: if_splits)
  then show ?case by (simp add: mon_putters_def)
qed (auto simp: mon_putters_def tally_list_update)

lemma mon_reach_inv:
  "mon_reach d n k m \<Longrightarrow> 0 < n \<Longrightarrow> mon_hist m \<and> mon_getters m \<and> mon_putters m"
proof (induction rule: mon_reach.induct)
  case start
  then show ?case
    by (simp add: mon_hist_def mon_getters_def mon_putters_def mon_init_def)
next
  case (step m m')
  then show ?case
    using mon_step_hist mon_step_getters mon_step_putters by (auto simp: mon_hist_def)
qed

lemma mon_step_cap: "mon_step m m' \<Longrightarrow> crb_inv (mon_ring m) \<Longrightarrow> crb_cap (mon_ring m') = crb_cap (mon_ring m)"
proof (induction rule: mon_step.induct)
  case (get_done i m b x r ts)
  then show ?case using crb_get_done [of "mon_ring m" b x r] by simp
next
  case (async_get i m x r ts)
  then show ?case using crb_get_done [of "mon_ring m" _ x r] by simp
next
  case (put_done i m x r ts)
  then show ?case using crb_put_done [of "mon_ring m" x r] by simp
next
  case (async_put i m x r ts)
  then show ?case using crb_put_done [of "mon_ring m" x r] by simp
qed simp_all

lemma mon_reach_cap:
  "mon_reach d n k m \<Longrightarrow> 0 < n \<Longrightarrow> crb_cap (mon_ring m) = unat n - 1"
proof (induction rule: mon_reach.induct)
  case start
  then show ?case by (simp add: mon_init_def crb_cap_def crb_new_def)
next
  case (step m m')
  then have "crb_inv (mon_ring m)"
    using mon_reach_inv [OF step.hyps(1) step.prems] by (simp add: mon_hist_def)
  with step show ?case using mon_step_cap [OF step.hyps(2)] by simp
qed

section \<open>Properties\<close>

text \<open>
  C26: Every critical section of the blocking operations behaves as the bounded queue does. On a
  well-formed ring nothing traps; \<open>syncPut\<close> waits exactly when \<open>size - 1\<close> elements are
  stored and otherwise appends; \<open>syncGet\<close> waits exactly when nothing is stored and otherwise
  hands out the oldest element; the ring stays well formed.
\<close>

theorem crb_refines_bounded_queue:
  assumes "crb_inv r"
  shows "(case crb_syncPut r x of
      Inl e \<Rightarrow> False
    | Inr None \<Rightarrow> length (crb_items r) = unat (rb_size r) - 1
    | Inr (Some r') \<Rightarrow> length (crb_items r) < unat (rb_size r) - 1 \<and> crb_inv r' \<and>
        rb_size r' = rb_size r \<and> crb_items r' = crb_items r @ [x]) \<and>
    (case crb_syncGet r of
      Inl e \<Rightarrow> False
    | Inr None \<Rightarrow> crb_items r = []
    | Inr (Some (b, y, r')) \<Rightarrow> b \<and> crb_inv r' \<and> rb_size r' = rb_size r \<and>
        crb_items r = y # crb_items r')"
proof
  have "crb_count r \<le> unat (rb_size r) - 1"
    using crb_count_bound [OF assms] by (simp add: crb_cap_def)
  then show "case crb_syncPut r x of
      Inl e \<Rightarrow> False
    | Inr None \<Rightarrow> length (crb_items r) = unat (rb_size r) - 1
    | Inr (Some r') \<Rightarrow> length (crb_items r) < unat (rb_size r) - 1 \<and> crb_inv r' \<and>
        rb_size r' = rb_size r \<and> crb_items r' = crb_items r @ [x]"
    using crb_push_inv [OF assms] crb_push_items [OF assms]
    by (auto simp: crb_put_cases [OF assms] crb_cap_def crb_push_def)
  show "case crb_syncGet r of
      Inl e \<Rightarrow> False
    | Inr None \<Rightarrow> crb_items r = []
    | Inr (Some (b, y, r')) \<Rightarrow> b \<and> crb_inv r' \<and> rb_size r' = rb_size r \<and>
        crb_items r = y # crb_items r'"
    using crb_pop_inv [OF assms] crb_pop_items [OF assms]
    by (auto simp: crb_get_cases [OF assms] crb_pop_def split: list.splits)
qed

theorem crb_refines_bounded_queue_witness:
  "crb_inv (crb_new (0::int) 3) \<and>
   (case crb_syncPut (crb_new (0::int) 3) 7 of Inr (Some r') \<Rightarrow> crb_items r' = [7] | _ \<Rightarrow> False)"
proof -
  have h: "crb_inv (crb_new (0::int) 3)" by simp
  have "crb_syncPut (crb_new (0::int) 3) 7 = Inr (Some (crb_push (crb_new 0 3) 7))"
    by (simp add: crb_ops crb_new_def crb_push_def)
  with h crb_refines_bounded_queue [OF h, of 7] show ?thesis by simp
qed

text \<open>
  A reachable state in which a wake-up is under way: of three threads the first two came to an
  empty ring of size three and blocked, then the third stored 5 and its notification woke the
  first.
\<close>

definition mon_example :: "int monitor" where
  "mon_example = \<lparr>mon_ring = \<lparr>rb_buff = [5, 0, 0], rb_size = 3, rb_head = 1, rb_tail = 0\<rparr>,
     mon_threads = [InGet, OnNotEmpty, Outside], mon_put = [5], mon_got = []\<rparr>"

lemma mon_example_reach: "mon_reach 0 3 3 mon_example"
proof -
  let ?r = "\<lparr>rb_buff = [0::int, 0, 0], rb_size = 3, rb_head = 0, rb_tail = 0\<rparr>"
  let ?m = "\<lambda>ts. \<lparr>mon_ring = ?r, mon_threads = ts, mon_put = [], mon_got = []\<rparr>"
  have "mon_reach 0 3 3 (?m [Outside, Outside, Outside])"
    using mon_reach.start [of "0::int" 3 3] by (simp add: mon_init_def crb_new_def replicate_numeral_Cons)
  from mon_reach.step [OF this mon_step.call_get [of 0]]
  have "mon_reach 0 3 3 (?m [InGet, Outside, Outside])" by simp
  from mon_reach.step [OF this mon_step.get_wait [of 0]]
  have "mon_reach 0 3 3 (?m [OnNotEmpty, Outside, Outside])" by (simp add: crb_ops)
  from mon_reach.step [OF this mon_step.call_get [of 1]]
  have "mon_reach 0 3 3 (?m [OnNotEmpty, InGet, Outside])" by simp
  from mon_reach.step [OF this mon_step.get_wait [of 1]]
  have "mon_reach 0 3 3 (?m [OnNotEmpty, OnNotEmpty, Outside])" by (simp add: crb_ops)
  from mon_reach.step [OF this mon_step.call_put [of 2 _ 5]]
  have "mon_reach 0 3 3 (?m [OnNotEmpty, OnNotEmpty, InPut 5])" by simp
  from mon_reach.step [OF this mon_step.put_done [of 2 _ 5 "mon_ring mon_example"
        "[InGet, OnNotEmpty, Outside]"]]
  show ?thesis
    using notify_one.wake [of 0 "[OnNotEmpty, OnNotEmpty, Outside]" wake_getter InGet]
    by (simp add: crb_ops mon_example_def)
qed

text \<open>
  C10: The buffer shared by any number of threads is linearisable to a first-in-first-out queue:
  in every reachable state of the monitor the elements stored so far are, in order, those handed
  out so far followed by those still in the ring, so none is lost, duplicated or reordered, and
  the ring never holds more than \<open>size - 1\<close> elements.
\<close>

theorem monitor_fifo:
  assumes "mon_reach d n k m" "0 < n"
  shows "mon_put m = mon_got m @ crb_items (mon_ring m) \<and>
    length (crb_items (mon_ring m)) \<le> unat n - 1"
proof -
  have "crb_inv (mon_ring m)" "mon_put m = mon_got m @ crb_items (mon_ring m)"
    using mon_reach_inv [OF assms] by (auto simp: mon_hist_def)
  then show ?thesis
    using crb_count_bound [of "mon_ring m"] mon_reach_cap [OF assms] by simp
qed

theorem monitor_fifo_witness:
  "mon_reach 0 3 3 mon_example \<and> mon_put mon_example = [5] \<and>
   mon_put mon_example = mon_got mon_example @ crb_items (mon_ring mon_example)"
  using monitor_fifo [OF mon_example_reach] mon_example_reach by (simp add: mon_example_def)

text \<open>
  No wake-up of a consumer is lost. Whenever a thread is blocked in \<open>syncGet\<close> although an
  element is stored, another thread is inside \<open>syncGet\<close> about to test the guard, and that pass
  succeeds. So one \<open>notify_one\<close> per store is enough, with spurious wake-ups and with the
  asynchronous operations mixed in.
\<close>

lemma monitor_no_lost_get_wakeup:
  assumes "mon_reach d n k m" "0 < n"
    and "i < length (mon_threads m)" "mon_threads m ! i = OnNotEmpty"
    and "crb_items (mon_ring m) \<noteq> []"
  shows "\<exists>j < length (mon_threads m). mon_threads m ! j = InGet \<and>
    (\<exists>y r'. crb_syncGet (mon_ring m) = Inr (Some (True, y, r')))"
proof -
  from mon_reach_inv [OF assms(1,2)]
  have inv: "crb_inv (mon_ring m)" "mon_getters m" by (auto simp: mon_hist_def)
  have "0 < get_waiters (mon_threads m)" using assms(3,4) by (auto simp: tally_pos_iff)
  moreover have "0 < crb_count (mon_ring m)"
    using assms(5) crb_length_items [of "mon_ring m"] by (metis length_greater_0_conv)
  ultimately have "0 < get_ready (mon_threads m)" using inv(2) by (simp add: mon_getters_def)
  then obtain j where "j < length (mon_threads m)" "mon_threads m ! j = InGet"
    by (auto simp: tally_pos_iff)
  moreover have "\<exists>y r'. crb_syncGet (mon_ring m) = Inr (Some (True, y, r'))"
    using assms(5) by (auto simp: crb_get_cases [OF inv(1)] split: list.splits)
  ultimately show ?thesis by blast
qed

text \<open>
  No wake-up of a producer is lost. Whenever a thread is blocked in \<open>syncPut\<close> although a
  slot is free, another thread is inside \<open>syncPut\<close> about to test the guard, and that pass
  succeeds.
\<close>

lemma monitor_no_lost_put_wakeup:
  assumes "mon_reach d n k m" "0 < n"
    and "i < length (mon_threads m)" "mon_threads m ! i = OnNotFull x"
    and "length (crb_items (mon_ring m)) < unat n - 1"
  shows "\<exists>j < length (mon_threads m). \<exists>y r'. mon_threads m ! j = InPut y \<and>
    crb_syncPut (mon_ring m) y = Inr (Some r')"
proof -
  from mon_reach_inv [OF assms(1,2)]
  have inv: "crb_inv (mon_ring m)" "mon_putters m" by (auto simp: mon_hist_def)
  have "0 < put_waiters (mon_threads m)" using assms(3,4) by (auto simp: tally_pos_iff)
  moreover have room: "crb_count (mon_ring m) < crb_cap (mon_ring m)"
    using assms(5) mon_reach_cap [OF assms(1,2)] by simp
  ultimately have "0 < put_ready (mon_threads m)" using inv(2) by (simp add: mon_putters_def)
  then obtain j where "j < length (mon_threads m)" "is_InPut (mon_threads m ! j)"
    by (auto simp: tally_pos_iff)
  moreover then obtain y where "mon_threads m ! j = InPut y"
    by (cases "mon_threads m ! j") auto
  ultimately show ?thesis using room by (auto simp: crb_put_cases [OF inv(1)])
qed

text \<open>
  The mirror image: in a ring of size two that holds one element the second and third thread
  blocked, then the first took the element and its notification woke the second.
\<close>

definition mon_example_full :: "int monitor" where
  "mon_example_full = \<lparr>mon_ring = \<lparr>rb_buff = [5, 0], rb_size = 2, rb_head = 1, rb_tail = 1\<rparr>,
     mon_threads = [Outside, InPut 6, OnNotFull 7], mon_put = [5], mon_got = [5]\<rparr>"

lemma mon_example_full_reach: "mon_reach 0 2 3 mon_example_full"
proof -
  let ?m = "\<lambda>ts. \<lparr>mon_ring = \<lparr>rb_buff = [5::int, 0], rb_size = 2, rb_head = 1, rb_tail = 0\<rparr>,
    mon_threads = ts, mon_put = [5], mon_got = []\<rparr>"
  have "mon_reach 0 2 3 \<lparr>mon_ring = \<lparr>rb_buff = [0::int, 0], rb_size = 2, rb_head = 0, rb_tail = 0\<rparr>,
    mon_threads = [Outside, Outside, Outside], mon_put = [], mon_got = []\<rparr>"
    using mon_reach.start [of "0::int" 2 3] by (simp add: mon_init_def crb_new_def replicate_numeral_Cons)
  from mon_reach.step [OF this mon_step.async_put [of 0 _ 5 "\<lparr>rb_buff = [5, 0], rb_size = 2,
        rb_head = 1, rb_tail = 0\<rparr>" "[Outside, Outside, Outside]"]]
  have "mon_reach 0 2 3 (?m [Outside, Outside, Outside])"
    by (simp add: crb_ops notify_one.nobody)
  from mon_reach.step [OF this mon_step.call_put [of 1 _ 6]]
  have "mon_reach 0 2 3 (?m [Outside, InPut 6, Outside])" by simp
  from mon_reach.step [OF this mon_step.put_wait [of 1 _ 6]]
  have "mon_reach 0 2 3 (?m [Outside, OnNotFull 6, Outside])" by (simp add: crb_ops)
  from mon_reach.step [OF this mon_step.call_put [of 2 _ 7]]
  have "mon_reach 0 2 3 (?m [Outside, OnNotFull 6, InPut 7])" by simp
  from mon_reach.step [OF this mon_step.put_wait [of 2 _ 7]]
  have "mon_reach 0 2 3 (?m [Outside, OnNotFull 6, OnNotFull 7])" by (simp add: crb_ops)
  from mon_reach.step [OF this mon_step.async_get [of 0 _ 5 "mon_ring mon_example_full"
        "[Outside, InPut 6, OnNotFull 7]"]]
  show ?thesis
    using notify_one.wake [of 1 "[Outside, OnNotFull 6, OnNotFull 7]" wake_putter "InPut 6"]
    by (simp add: crb_ops mon_example_full_def)
qed

text \<open>
  C25: No wake-up is lost. Whenever a thread is blocked in \<open>syncGet\<close> although an element is stored, another
  thread is inside \<open>syncGet\<close> about to test the guard, and that pass succeeds; whenever a thread is
  blocked in \<open>syncPut\<close> although a slot is free, another thread is inside \<open>syncPut\<close> about to test the
  guard, and that pass succeeds. So one \<open>notify_one\<close> per operation is enough, with spurious wake-ups
  and with the asynchronous operations mixed in.
\<close>

theorem monitor_no_lost_wakeups:
  assumes "mon_reach d n k m" "0 < n" "i < length (mon_threads m)"
  shows "(mon_threads m ! i = OnNotEmpty \<and> crb_items (mon_ring m) \<noteq> [] \<longrightarrow>
      (\<exists>j < length (mon_threads m). mon_threads m ! j = InGet \<and>
        (\<exists>y r'. crb_syncGet (mon_ring m) = Inr (Some (True, y, r'))))) \<and>
    (\<forall>x. mon_threads m ! i = OnNotFull x \<and> length (crb_items (mon_ring m)) < unat n - 1 \<longrightarrow>
      (\<exists>j < length (mon_threads m). \<exists>y r'. mon_threads m ! j = InPut y \<and>
        crb_syncPut (mon_ring m) y = Inr (Some r')))"
  using monitor_no_lost_get_wakeup [OF assms] monitor_no_lost_put_wakeup [OF assms] by blast

theorem monitor_no_lost_wakeups_witness:
  "mon_threads mon_example ! 1 = OnNotEmpty \<and> mon_threads mon_example_full ! 2 = OnNotFull 7 \<and>
   (\<exists>j < length (mon_threads mon_example). mon_threads mon_example ! j = InGet \<and>
     (\<exists>y r'. crb_syncGet (mon_ring mon_example) = Inr (Some (True, y, r')))) \<and>
   (\<exists>j < length (mon_threads mon_example_full). \<exists>y r'. mon_threads mon_example_full ! j = InPut y \<and>
     crb_syncPut (mon_ring mon_example_full) y = Inr (Some r'))"
  using conjunct1 [OF monitor_no_lost_wakeups [OF mon_example_reach, of 1]]
    conjunct2 [OF monitor_no_lost_wakeups [OF mon_example_full_reach, of 2]]
  by (simp add: mon_example_def mon_example_full_def crb_items_def crb_count_def)

text \<open>The clients of the ring count its elements, not its slots.\<close>

declare crb_length_items [simp del]

end
