(* ===== verification/Message.thy ===== *)
theory Message
  imports Banana_Prelude
begin

text \<open>
  Messages between tasks: \<open>multi-threading/Message.h\<close> and \<open>Message.cpp\<close>, and the message
  classes derived from it (\<open>network/NewConnectMessage.h\<close>, \<open>network/ConnectionMessage.h\<close>,
  \<open>examples/MapReduceServer/MapDoneConnectionMessage.h\<close>,
  \<open>examples/StorageServer/StringMessage.h\<close>). An object is its members together with its dynamic
  type, which \<open>dynamic_pointer_cast\<close> inspects.
\<close>

section \<open>The class hierarchy\<close>

text \<open>The members each class adds to those of \<open>Message\<close>.\<close>

datatype msg_class =
    PlainMessage
  | NewConnectMessage int \<comment> \<open>\<open>clientFd_\<close>\<close>
  | ConnectionMessage int \<comment> \<open>\<open>handle_\<close>\<close>
  | MapDoneConnectionMessage int int \<comment> \<open>\<open>handle_\<close>, \<open>maxNum_\<close>\<close>
  | StringMessage string \<comment> \<open>\<open>data_\<close>\<close>

text \<open>\<open>what_\<close> and \<open>messageCallBack_\<close> (\<open>None\<close> for a null \<open>function\<close>); \<open>'c\<close> is the type
  of callbacks.\<close>

record 'c message =
  msg_what :: string
  msg_callback :: "'c option"
  msg_class :: msg_class

section \<open>Message\<close>

definition new_Message :: "string \<Rightarrow> 'c option \<Rightarrow> 'c message" where
  "new_Message what cb = \<lparr>msg_what = what, msg_callback = cb, msg_class = PlainMessage\<rparr>"

text \<open>\<open>Message()\<close> with its default arguments.\<close>

definition default_Message :: "'c message" where
  "default_Message = new_Message ''UNKNOWN'' None"

definition getWhat :: "'c message \<Rightarrow> string" where
  "getWhat m = msg_what m"

text \<open>The member is copied to the reference argument: in a \<open>const\<close> function \<open>std::move\<close> does
  not move. The result is always true.\<close>

definition getMsgCallBack :: "'c message \<Rightarrow> bool \<times> 'c option" where
  "getMsgCallBack m = (True, msg_callback m)"

definition setWhat :: "'c message \<Rightarrow> string \<Rightarrow> 'c message" where
  "setWhat m what = m\<lparr>msg_what := what\<rparr>"

definition setMessageCallBack :: "'c message \<Rightarrow> 'c option \<Rightarrow> 'c message" where
  "setMessageCallBack m cb = m\<lparr>msg_callback := cb\<rparr>"

section \<open>The derived classes\<close>

definition new_NewConnectMessage :: "int \<Rightarrow> 'c message" where
  "new_NewConnectMessage clientFd =
     \<lparr>msg_what = ''NEW_CONNECT'', msg_callback = None, msg_class = NewConnectMessage clientFd\<rparr>"

definition default_NewConnectMessage :: "'c message" where
  "default_NewConnectMessage = new_NewConnectMessage (-1)"

definition new_ConnectionMessage :: "int \<Rightarrow> 'c message" where
  "new_ConnectionMessage handle =
     \<lparr>msg_what = ''CONNECTION'', msg_callback = None, msg_class = ConnectionMessage handle\<rparr>"

definition new_MapDoneConnectionMessage :: "int \<Rightarrow> int \<Rightarrow> 'c message" where
  "new_MapDoneConnectionMessage handle maxNum =
     \<lparr>msg_what = ''CONNECTION'', msg_callback = None,
      msg_class = MapDoneConnectionMessage handle maxNum\<rparr>"

definition new_StringMessage :: "string \<Rightarrow> 'c option \<Rightarrow> 'c message" where
  "new_StringMessage what cb = \<lparr>msg_what = what, msg_callback = cb, msg_class = StringMessage []\<rparr>"

text \<open>
  \<open>dynamic_pointer_cast\<close> followed by the accessor that reads the cast object: a failed cast is
  a null pointer and the access through it an error.
\<close>

fun getClientFd :: "msg_class \<Rightarrow> int outcome" where
  "getClientFd (NewConnectMessage fd) = Inr fd"
| "getClientFd _ = Inl NullDereference"

fun getHandle :: "msg_class \<Rightarrow> int outcome" where
  "getHandle (ConnectionMessage h) = Inr h"
| "getHandle (MapDoneConnectionMessage h n) = Inr h"
| "getHandle _ = Inl NullDereference"

fun getMaxNum :: "msg_class \<Rightarrow> int outcome" where
  "getMaxNum (MapDoneConnectionMessage h n) = Inr n"
| "getMaxNum _ = Inl NullDereference"

text \<open>
  \<open>StringMessage::setData\<close> and \<open>getData\<close>. The latter moves its argument into itself, which
  leaves a \<open>std::string\<close> with an unspecified value: \<open>self_move\<close> is that value.
\<close>

fun setData :: "'c message \<Rightarrow> string \<Rightarrow> 'c message" where
  "setData m d = (case msg_class m of StringMessage _ \<Rightarrow> m\<lparr>msg_class := StringMessage d\<rparr> | _ \<Rightarrow> m)"

definition getData :: "(string \<Rightarrow> string) \<Rightarrow> 'c message \<Rightarrow> string \<Rightarrow> bool \<times> string" where
  "getData self_move m d = (True, self_move d)"

section \<open>Which messages a service can dispatch\<close>

text \<open>
  The contract between a message's \<open>what_\<close> and its dynamic type that the dispatch in
  \<open>NetWorkService::onMessage\<close> relies on. Every constructor establishes it; \<open>setWhat\<close> can
  break it.
\<close>

definition msg_ok :: "'c message \<Rightarrow> bool" where
  "msg_ok m \<longleftrightarrow>
     (msg_what m = ''NEW_CONNECT'' \<longrightarrow> (\<exists>fd. msg_class m = NewConnectMessage fd)) \<and>
     (msg_what m = ''CONNECTION'' \<longrightarrow>
       (\<exists>h. msg_class m = ConnectionMessage h) \<or> (\<exists>h n. msg_class m = MapDoneConnectionMessage h n))"

lemma msg_ok_constructors [simp]:
  "msg_ok (new_NewConnectMessage fd)" "msg_ok (new_ConnectionMessage h)"
  "msg_ok (new_MapDoneConnectionMessage h n)" "msg_ok default_Message"
  by (simp_all add: msg_ok_def new_NewConnectMessage_def new_ConnectionMessage_def
      new_MapDoneConnectionMessage_def default_Message_def new_Message_def)

lemma msg_ok_NEW_CONNECT: "msg_ok m \<Longrightarrow> msg_what m = ''NEW_CONNECT'' \<Longrightarrow> \<exists>fd. getClientFd (msg_class m) = Inr fd"
  by (auto simp: msg_ok_def)

lemma msg_ok_CONNECTION: "msg_ok m \<Longrightarrow> msg_what m = ''CONNECTION'' \<Longrightarrow> \<exists>h. getHandle (msg_class m) = Inr h"
  by (auto simp: msg_ok_def)

end
