(* ===== verification/Utils.thy ===== *)
theory Utils
  imports Banana_Prelude
begin

text \<open>
  \<open>utils/Utils.cpp\<close>: splitting a string, creating an event descriptor, naming a thread. Also
  the decimal output of an \<open>int\<close> to a stream, and the joining of strings with a separator as
  the benchmark client does it.
\<close>

section \<open>split\<close>

text \<open>
  \<open>std::getline(ss, tmpStr, delim)\<close> on the characters that are left in the stream: it fails
  when none is left, otherwise it extracts up to the delimiter, which it drops, or to the end.
\<close>

definition getline :: "char \<Rightarrow> string \<Rightarrow> (string \<times> string) option" where
  "getline delim ss =
     (if ss = [] then None
      else Some (takeWhile (\<lambda>c. c \<noteq> delim) ss, tl (dropWhile (\<lambda>c. c \<noteq> delim) ss)))"

lemma getline_shorter:
  assumes "getline delim ss = Some (l, rest)"
  shows "length rest < length ss"
proof -
  have "ss \<noteq> []" "length rest = length (dropWhile (\<lambda>c. c \<noteq> delim) ss) - 1"
    using assms by (auto simp: getline_def split: if_splits)
  then show ?thesis using length_dropWhile_le [of "\<lambda>c. c \<noteq> delim" ss] by (cases ss) auto
qed

text \<open>The loop of \<open>Utils::split\<close>, which appends to the vector it is given.\<close>

function split_loop :: "char \<Rightarrow> string \<Rightarrow> string list \<Rightarrow> string list" where
  "split_loop delim ss vecStr =
     (case getline delim ss of
        None \<Rightarrow> vecStr
      | Some (tmpStr, rest) \<Rightarrow> split_loop delim rest (vecStr @ [tmpStr]))"
  by pat_completeness auto
termination
  by (relation "measure (\<lambda>(delim, ss, vecStr). length ss)") (auto dest: getline_shorter)

declare split_loop.simps [simp del]

definition split :: "string \<Rightarrow> string list \<Rightarrow> char \<Rightarrow> bool \<times> string list" where
  "split str vecStr delim = (True, split_loop delim str vecStr)"

section \<open>Event descriptors and thread names\<close>

text \<open>\<open>fd\<close> is what the system call \<open>eventfd(0, EFD_CLOEXEC | EFD_SEMAPHORE)\<close> returns.\<close>

definition createEventFd :: "int \<Rightarrow> int" where
  "createEventFd fd = fd"

text \<open>\<open>prctl\<close> is the result of \<open>prctl(PR_SET_NAME, \<dots>)\<close>, called only for short names.\<close>

definition setThreadName :: "int \<Rightarrow> string \<Rightarrow> bool" where
  "setThreadName prctl name = (if length name > 15 then False else prctl = 0)"

section \<open>Decimal output\<close>

text \<open>What \<open>ss << i\<close> writes for a number that is not negative.\<close>

function decimal :: "nat \<Rightarrow> string" where
  "decimal n =
     (if n < 10 then [char_of (48 + n)] else decimal (n div 10) @ [char_of (48 + n mod 10)])"
  by pat_completeness auto
termination by (relation "measure id") auto

declare decimal.simps [simp del]

definition undecimal :: "string \<Rightarrow> nat" where
  "undecimal s = foldl (\<lambda>n c. 10 * n + (of_char c - 48)) 0 s"

lemma undecimal_decimal [simp]: "undecimal (decimal n) = n"
proof (induction n rule: decimal.induct)
  case (1 n)
  show ?case
  proof (cases "n < 10")
    case True
    then show ?thesis by (simp add: undecimal_def decimal.simps [of n])
  next
    case False
    then have "undecimal (decimal n) = 10 * undecimal (decimal (n div 10)) + n mod 10"
      by (simp add: undecimal_def decimal.simps [of n])
    with "1" False show ?thesis by simp
  qed
qed

lemma decimal_inject: "decimal m = decimal n \<longleftrightarrow> m = n"
  by (metis undecimal_decimal)

lemma decimal_length: "length (decimal n) \<le> Suc k \<longleftrightarrow> n < 10 ^ Suc k"
proof (induction n arbitrary: k rule: decimal.induct)
  case (1 n)
  show ?case
  proof (cases "n < 10")
    case True
    have "(10::nat) * 1 \<le> 10 * 10 ^ k" by (rule mult_le_mono2) simp
    with True have "n < 10 ^ Suc k" by (simp only: power_Suc)
    then show ?thesis using True by (simp add: decimal.simps [of n])
  next
    case False
    note ten = False
    show ?thesis
    proof (cases k)
      case 0
      have "decimal (n div 10) \<noteq> []" by (subst decimal.simps) simp
      with False 0 show ?thesis by (simp add: decimal.simps [of n])
    next
      case (Suc j)
      have "length (decimal n) \<le> Suc k \<longleftrightarrow> length (decimal (n div 10)) \<le> Suc j"
        using ten Suc by (simp add: decimal.simps [of n])
      also have "\<dots> \<longleftrightarrow> n div 10 < 10 ^ Suc j" using "1" ten by simp
      also have "\<dots> \<longleftrightarrow> n < 10 ^ Suc k" using Suc by (simp add: div_less_iff_less_mult mult.commute)
      finally show ?thesis .
    qed
  qed
qed

section \<open>Joining and splitting\<close>

text \<open>The request the benchmark client builds: the names with one blank between them.\<close>

fun join :: "char \<Rightarrow> string list \<Rightarrow> string" where
  "join delim [] = []"
| "join delim [w] = w"
| "join delim (w # ws) = w @ delim # join delim ws"

lemma getline_join:
  "delim \<notin> set w \<Longrightarrow> getline delim (w @ delim # rest) = Some (w, rest)"
  by (auto simp: getline_def takeWhile_append dropWhile_append)

lemma getline_last:
  assumes "delim \<notin> set w" "w \<noteq> []"
  shows "getline delim w = Some (w, [])"
proof -
  have all: "\<forall>c \<in> set w. c \<noteq> delim" using assms(1) by auto
  then have cut: "takeWhile (\<lambda>c. c \<noteq> delim) w = w" "dropWhile (\<lambda>c. c \<noteq> delim) w = []"
    by (simp_all add: takeWhile_eq_all_conv dropWhile_eq_Nil_conv)
  show ?thesis using assms(2) by (simp add: getline_def cut)
qed

lemma split_loop_join:
  "\<forall>w \<in> set ws. delim \<notin> set w \<Longrightarrow> ws \<noteq> [] \<longrightarrow> last ws \<noteq> [] \<Longrightarrow>
   split_loop delim (join delim ws) acc = acc @ ws"
proof (induction delim ws arbitrary: acc rule: join.induct)
  case (1 delim)
  then show ?case by (simp add: split_loop.simps getline_def)
next
  case (2 delim w)
  then show ?case
    by (simp add: split_loop.simps [of delim w] split_loop.simps [of delim "[]"] getline_last)
      (simp add: getline_def)
next
  case (3 delim w v vs)
  then show ?case
    by (simp add: split_loop.simps [of delim "w @ delim # join delim (v # vs)"] getline_join)
qed

text \<open>Every piece is free of the delimiter, and together they have no more characters.\<close>

lemma split_loop_pieces:
  "\<forall>w \<in> set acc. delim \<notin> set w \<Longrightarrow> \<forall>w \<in> set (split_loop delim s acc). delim \<notin> set w"
proof (induction delim s acc rule: split_loop.induct)
  case (1 delim ss acc)
  show ?case
  proof (cases "getline delim ss")
    case None
    with "1.prems" show ?thesis by (simp add: split_loop.simps)
  next
    case (Some p)
    then obtain l rest where p: "getline delim ss = Some (l, rest)" by (cases p) auto
    then have "delim \<notin> set l" by (auto simp: getline_def dest: set_takeWhileD split: if_splits)
    with "1" p show ?thesis by (simp add: split_loop.simps [of delim ss])
  qed
qed

section \<open>Properties\<close>

text \<open>
  \<open>split\<close> undoes the joining of the client: names without the delimiter, the last of them
  not empty, come back exactly, in order, after what the vector held.
\<close>

theorem split_join:
  assumes "\<forall>w \<in> set ws. delim \<notin> set w" "ws \<noteq> [] \<longrightarrow> last ws \<noteq> []"
  shows "split (join delim ws) vec delim = (True, vec @ ws)"
  using split_loop_join [OF assms] by (simp add: split_def)

theorem split_join_witness:
  "split (join CHR '' '' [''ab'', ''c'']) [] CHR '' '' = (True, [''ab'', ''c''])"
  using split_join [of "[''ab'', ''c'']" "CHR '' ''" "[]"] by simp

end
