(* ===== verification/InteractiveTask.thy ===== *)
theory InteractiveTask
  imports ConcurrentRingBuffer Message Utils
begin

text \<open>
  The message side of \<open>InteractiveTask\<close> (\<open>multi-threading/InteractiveTask.h\<close> and
  \<open>InteractiveTask.cpp\<close>): the task's own message queue, the event descriptor that counts its
  messages, \<open>notifyMsg\<close> as the senders run it and the reading side as the task's loop runs it.
  \<open>TaskLifecycle\<close> has \<open>start\<close> and \<open>__stop\<close>.
\<close>

section \<open>The task\<close>

datatype task_stat = STARTING | RUNNING | STOPPING | STOPPED

text \<open>
  \<open>it_counter\<close> is the counter the kernel keeps behind the event descriptor, which was created
  with \<open>EFD_SEMAPHORE\<close>: a write adds its value, a read of a counter above zero takes one away
  and delivers 1, a read of zero blocks.
\<close>

record 'm itask =
  it_name :: string
  it_queue :: "'m ring"
  it_eventFd :: int
  it_counter :: nat
  it_stat :: task_stat
  it_hasReactor :: bool

definition MSG_QUEUE_SIZE :: size_t where
  "MSG_QUEUE_SIZE = 50000"

text \<open>The constructor; \<open>d\<close> is the null pointer a fresh queue slot holds.\<close>

definition new_InteractiveTask :: "'m \<Rightarrow> string \<Rightarrow> bool \<Rightarrow> 'm itask" where
  "new_InteractiveTask d name reactor =
     \<lparr>it_name = name, it_queue = crb_new d MSG_QUEUE_SIZE, it_eventFd = -1, it_counter = 0,
      it_stat = STARTING, it_hasReactor = reactor\<rparr>"

definition getStat :: "'m itask \<Rightarrow> task_stat" where
  "getStat t = it_stat t"

definition setStat :: "'m itask \<Rightarrow> task_stat \<Rightarrow> 'm itask" where
  "setStat t s = t\<lparr>it_stat := s\<rparr>"

definition getEventFd :: "'m itask \<Rightarrow> int" where
  "getEventFd t = it_eventFd t"

section \<open>notifyMsg\<close>

text \<open>\<open>recvMsgQueue_.syncPut(spMessage)\<close>: \<open>None\<close> while the sender waits for a slot.\<close>

definition it_putMsg :: "'m itask \<Rightarrow> 'm \<Rightarrow> 'm itask option outcome" where
  "it_putMsg t m =
     and_then (crb_syncPut (it_queue t) m) (\<lambda>ro. Inr (map_option (\<lambda>r. t\<lparr>it_queue := r\<rparr>) ro))"

text \<open>\<open>write(eventFd_, &eventVal, sizeof(eventVal))\<close> with \<open>eventVal\<close> 1; the result is not
  looked at, so on a descriptor that is not open nothing happens.\<close>

definition it_writeEvent :: "'m itask \<Rightarrow> 'm itask" where
  "it_writeEvent t = (if it_eventFd t < 0 then t else t\<lparr>it_counter := Suc (it_counter t)\<rparr>)"

definition notifyMsg :: "'m itask \<Rightarrow> 'm \<Rightarrow> (int \<times> 'm itask) option outcome" where
  "notifyMsg t m =
     and_then (it_putMsg t m) (\<lambda>to. Inr (map_option (\<lambda>t'. (0, it_writeEvent t')) to))"

section \<open>The receiving side\<close>

text \<open>\<open>read(eventFd_, &eventVal, sizeof(eventVal))\<close>: \<open>None\<close> while it blocks. On a descriptor
  that is not open the read fails and \<open>eventVal\<close> is never written.\<close>

definition it_readEvent :: "'m itask \<Rightarrow> (nat \<times> 'm itask) option outcome" where
  "it_readEvent t =
     (if it_eventFd t < 0 then Inl Uninitialised
      else if it_counter t = 0 then Inr None
      else Inr (Some (1, t\<lparr>it_counter := it_counter t - 1\<rparr>)))"

definition it_getMsg :: "'m itask \<Rightarrow> ('m \<times> 'm itask) option outcome" where
  "it_getMsg t =
     and_then (crb_syncGet (it_queue t)) (\<lambda>go.
       Inr (map_option (\<lambda>(b, m, r). (m, t\<lparr>it_queue := r\<rparr>)) go))"

text \<open>
  One round of the receiving side, up to the call of the virtual \<open>onMessage\<close>: the body of the
  loop of a task without reactor, and of \<open>__onMessage\<close> of a task with one. The result is the
  message handed to \<open>onMessage\<close>, or \<open>None\<close> while the thread blocks in \<open>read\<close> or \<open>syncGet\<close>.
\<close>

definition it_round :: "'m itask \<Rightarrow> ('m \<times> 'm itask) option outcome" where
  "it_round t =
     and_then (it_readEvent t) (\<lambda>ro.
       case ro of
         None \<Rightarrow> Inr None
       | Some (eventVal, t') \<Rightarrow> and_then (assert_that (eventVal = 1)) (\<lambda>_. it_getMsg t'))"

definition it_onMessageEvent :: "'m itask \<Rightarrow> int \<Rightarrow> ('m \<times> 'm itask) option outcome" where
  "it_onMessageEvent t fd = and_then (assert_that (fd = it_eventFd t)) (\<lambda>_. it_round t)"

section \<open>Senders and the loop, interleaved\<close>

text \<open>
  Any number of threads call \<open>notifyMsg\<close>; each is outside, waiting or about to put its message,
  or between the put and the write. The loop waits for an event, has read one and is about to
  get a message, or is inside \<open>onMessage\<close>.
\<close>

datatype 'm sender = SOut | SPutting 'm | SWriting

datatype 'm looper = LIdle | LEvent | LHandling 'm

record 'm tasksys =
  ts_task :: "'m itask"
  ts_senders :: "'m sender list"
  ts_loop :: "'m looper"
  ts_posted :: "'m list"
  ts_handled :: "'m list"

inductive task_step :: "'m tasksys \<Rightarrow> 'm tasksys \<Rightarrow> bool" where
  call: "i < length (ts_senders s) \<Longrightarrow> ts_senders s ! i = SOut \<Longrightarrow>
     task_step s (s\<lparr>ts_senders := (ts_senders s)[i := SPutting m]\<rparr>)"
| put: "i < length (ts_senders s) \<Longrightarrow> ts_senders s ! i = SPutting m \<Longrightarrow>
     it_putMsg (ts_task s) m = Inr (Some t) \<Longrightarrow>
     task_step s (s\<lparr>ts_task := t, ts_senders := (ts_senders s)[i := SWriting],
       ts_posted := ts_posted s @ [m]\<rparr>)"
| wrt: "i < length (ts_senders s) \<Longrightarrow> ts_senders s ! i = SWriting \<Longrightarrow>
     task_step s (s\<lparr>ts_task := it_writeEvent (ts_task s),
       ts_senders := (ts_senders s)[i := SOut]\<rparr>)"
| rd: "ts_loop s = LIdle \<Longrightarrow> it_readEvent (ts_task s) = Inr (Some (v, t)) \<Longrightarrow> v = 1 \<Longrightarrow>
     task_step s (s\<lparr>ts_task := t, ts_loop := LEvent\<rparr>)"
| get: "ts_loop s = LEvent \<Longrightarrow> it_getMsg (ts_task s) = Inr (Some (m, t)) \<Longrightarrow>
     task_step s (s\<lparr>ts_task := t, ts_loop := LHandling m\<rparr>)"
| handled: "ts_loop s = LHandling m \<Longrightarrow>
     task_step s (s\<lparr>ts_loop := LIdle, ts_handled := ts_handled s @ [m]\<rparr>)"

text \<open>A task that has created its event descriptor \<open>fd\<close>, with \<open>k\<close> senders.\<close>

definition tasksys_init :: "'m \<Rightarrow> int \<Rightarrow> nat \<Rightarrow> 'm tasksys" where
  "tasksys_init d fd k =
     \<lparr>ts_task = setStat ((new_InteractiveTask d [] True)\<lparr>it_eventFd := fd\<rparr>) RUNNING,
      ts_senders = replicate k SOut, ts_loop = LIdle, ts_posted = [], ts_handled = []\<rparr>"

inductive task_reach :: "'m \<Rightarrow> int \<Rightarrow> nat \<Rightarrow> 'm tasksys \<Rightarrow> bool" for d fd k where
  start: "task_reach d fd k (tasksys_init d fd k)"
| step: "task_reach d fd k s \<Longrightarrow> task_step s s' \<Longrightarrow> task_reach d fd k s'"

text \<open>
  The queue holds as many messages as the counter says, plus those whose write is still to come,
  plus the one whose event has been read.
\<close>

definition task_inv :: "'m tasksys \<Rightarrow> bool" where
  "task_inv s \<longleftrightarrow> crb_inv (it_queue (ts_task s)) \<and> 0 \<le> it_eventFd (ts_task s) \<and>
     length (crb_items (it_queue (ts_task s))) =
       it_counter (ts_task s) + tally ((=) SWriting) (ts_senders s) +
       (if ts_loop s = LEvent then 1 else 0) \<and>
     ts_posted s = ts_handled s @ (case ts_loop s of LHandling m \<Rightarrow> [m] | _ \<Rightarrow> []) @
       crb_items (it_queue (ts_task s))"

lemma it_putMsg_Some:
  assumes "crb_inv (it_queue t)" "it_putMsg t m = Inr (Some t')"
  shows "\<exists>r. t' = t\<lparr>it_queue := r\<rparr> \<and> crb_inv r \<and> crb_items r = crb_items (it_queue t) @ [m] \<and>
    crb_cap r = crb_cap (it_queue t)"
  using assms crb_put_done [of "it_queue t" m] by (auto simp: it_putMsg_def and_then_Inr_iff)

lemma it_getMsg_Some:
  assumes "crb_inv (it_queue t)" "it_getMsg t = Inr (Some (m, t'))"
  shows "\<exists>r. t' = t\<lparr>it_queue := r\<rparr> \<and> crb_inv r \<and> crb_items (it_queue t) = m # crb_items r \<and>
    crb_cap r = crb_cap (it_queue t)"
  using assms crb_get_done [of "it_queue t"] by (fastforce simp: it_getMsg_def and_then_Inr_iff)

lemma it_getMsg_ready:
  assumes "crb_inv (it_queue t)" "crb_items (it_queue t) = m # ms"
  shows "\<exists>r. it_getMsg t = Inr (Some (m, t\<lparr>it_queue := r\<rparr>)) \<and> crb_inv r \<and> crb_items r = ms"
  using assms crb_pop_items [OF assms(1)] crb_pop_inv [OF assms(1)]
  by (auto simp: it_getMsg_def crb_get_cases [OF assms(1)])

lemma it_putMsg_room:
  assumes "crb_inv (it_queue t)" "length (crb_items (it_queue t)) < crb_cap (it_queue t)"
  shows "\<exists>r. it_putMsg t m = Inr (Some (t\<lparr>it_queue := r\<rparr>)) \<and> crb_inv r \<and>
    crb_items r = crb_items (it_queue t) @ [m]"
  using assms crb_push_items [OF assms(1), of m] crb_push_inv [OF assms(1), of m]
  by (auto simp: it_putMsg_def crb_put_cases [OF assms(1)] crb_length_items)

lemma task_step_inv: "task_step s s' \<Longrightarrow> task_inv s \<Longrightarrow> task_inv s'"
proof (induction rule: task_step.induct)
  case (call i s m)
  then show ?case by (simp add: task_inv_def tally_list_update)
next
  case (put i s m t)
  then obtain r where r: "t = (ts_task s)\<lparr>it_queue := r\<rparr>" "crb_inv r"
    "crb_items r = crb_items (it_queue (ts_task s)) @ [m]"
    using it_putMsg_Some [of "ts_task s" m t] by (auto simp: task_inv_def)
  with put show ?case
    using arg_cong [OF r(3), of length] by (simp add: task_inv_def tally_list_update)
next
  case (wrt i s)
  then have "0 < tally ((=) SWriting) (ts_senders s)" by (auto simp: tally_pos_iff)
  with wrt show ?case by (auto simp: task_inv_def it_writeEvent_def tally_list_update)
next
  case (rd s v t)
  then show ?case by (auto simp: task_inv_def it_readEvent_def split: if_splits)
next
  case (get s m t)
  then obtain r where r: "t = (ts_task s)\<lparr>it_queue := r\<rparr>" "crb_inv r"
    "crb_items (it_queue (ts_task s)) = m # crb_items r"
    using it_getMsg_Some [of "ts_task s" m t] by (auto simp: task_inv_def)
  with get show ?case
    using arg_cong [OF r(3), of length] by (simp add: task_inv_def)
next
  case (handled s m)
  then show ?case by (simp add: task_inv_def)
qed

lemma task_reach_inv: "task_reach d fd k s \<Longrightarrow> 0 \<le> fd \<Longrightarrow> task_inv s"
proof (induction rule: task_reach.induct)
  case start
  then show ?case
    by (simp add: task_inv_def tasksys_init_def new_InteractiveTask_def setStat_def MSG_QUEUE_SIZE_def)
next
  case (step s s')
  then show ?case using task_step_inv by blast
qed

text \<open>A run to apply the properties to: one sender has posted the message 5.\<close>

lemma task_example:
  "\<exists>s. task_reach (0::int) 7 1 s \<and> ts_loop s = LIdle \<and> crb_inv (it_queue (ts_task s)) \<and>
     crb_items (it_queue (ts_task s)) = [5] \<and> ts_senders s = [SOut] \<and> ts_posted s = [5] \<and>
     ts_handled s = [] \<and> it_counter (ts_task s) = 1 \<and> it_eventFd (ts_task s) = 7"
proof -
  let ?s0 = "tasksys_init (0::int) 7 1"
  let ?t0 = "ts_task ?s0"
  have q: "crb_inv (it_queue ?t0)" "crb_items (it_queue ?t0) = []" "crb_cap (it_queue ?t0) = 49999"
    by (simp_all add: tasksys_init_def new_InteractiveTask_def setStat_def MSG_QUEUE_SIZE_def)
  obtain r where r: "it_putMsg ?t0 5 = Inr (Some (?t0\<lparr>it_queue := r\<rparr>))" "crb_inv r" "crb_items r = [5]"
    using it_putMsg_room [of ?t0 5] q by auto
  have s0: "ts_senders ?s0 = [SOut]" "ts_loop ?s0 = LIdle" "ts_posted ?s0 = []" "ts_handled ?s0 = []"
    "it_counter ?t0 = 0" "it_eventFd ?t0 = 7"
    by (simp_all add: tasksys_init_def new_InteractiveTask_def setStat_def)
  have "task_reach 0 7 1 (?s0\<lparr>ts_senders := [SPutting 5]\<rparr>)"
    using task_reach.step [OF task_reach.start task_step.call [of 0 ?s0 5]] s0 by simp
  from task_reach.step [OF this task_step.put [of 0 _ 5 "?t0\<lparr>it_queue := r\<rparr>"]] s0 r
  have "task_reach 0 7 1 (?s0\<lparr>ts_task := ?t0\<lparr>it_queue := r\<rparr>, ts_senders := [SWriting],
      ts_posted := [5]\<rparr>)" by simp
  from task_reach.step [OF this task_step.wrt [of 0]] s0
  have "task_reach 0 7 1 (?s0\<lparr>ts_posted := [5],
      ts_task := ?t0\<lparr>it_queue := r, it_counter := 1\<rparr>, ts_senders := [SOut]\<rparr>)"
    by (simp add: it_writeEvent_def)
  then show ?thesis using r s0 by (intro exI conjI) (assumption | simp)+
qed

text \<open>The rounds of the queues.\<close>

lemma it_round_Some:
  assumes "it_round t = Inr (Some (m, t'))" "crb_inv (it_queue t)" "it_counter t = length (crb_items (it_queue t))"
  shows "crb_items (it_queue t) = m # crb_items (it_queue t')" "crb_inv (it_queue t')"
    "it_counter t' = length (crb_items (it_queue t'))" "it_eventFd t' = it_eventFd t"
    "crb_cap (it_queue t') = crb_cap (it_queue t)"
proof -
  obtain t1 where t1: "it_readEvent t = Inr (Some (1, t1))" "it_getMsg t1 = Inr (Some (m, t'))"
    "t1 = t\<lparr>it_counter := it_counter t - 1\<rparr>"
    using assms(1) by (auto simp: it_round_def it_readEvent_def and_then_Inr_iff split: if_splits)
  with it_getMsg_Some [of t1 m t'] assms(2) obtain r where
    "t' = t1\<lparr>it_queue := r\<rparr>" "crb_inv r" "crb_items (it_queue t1) = m # crb_items r"
    "crb_cap r = crb_cap (it_queue t1)" by auto
  with t1(3) assms(3) show "crb_items (it_queue t) = m # crb_items (it_queue t')" "crb_inv (it_queue t')"
    "it_counter t' = length (crb_items (it_queue t'))" "it_eventFd t' = it_eventFd t"
    "crb_cap (it_queue t') = crb_cap (it_queue t)" by auto
qed

lemma notifyMsg_Some:
  assumes "notifyMsg t m = Inr (Some (e, t'))" "crb_inv (it_queue t)" "0 \<le> it_eventFd t"
  shows "crb_items (it_queue t') = crb_items (it_queue t) @ [m]" "crb_inv (it_queue t')"
    "it_counter t' = Suc (it_counter t)" "it_eventFd t' = it_eventFd t"
    "crb_cap (it_queue t') = crb_cap (it_queue t)"
proof -
  obtain t1 where t1: "it_putMsg t m = Inr (Some t1)" "t' = it_writeEvent t1"
    using assms(1) by (auto simp: notifyMsg_def and_then_Inr_iff)
  with it_putMsg_Some [OF assms(2) t1(1)] assms(3)
  show "crb_items (it_queue t') = crb_items (it_queue t) @ [m]" "crb_inv (it_queue t')"
    "it_counter t' = Suc (it_counter t)" "it_eventFd t' = it_eventFd t"
    "crb_cap (it_queue t') = crb_cap (it_queue t)" by (auto simp: it_writeEvent_def)
qed

lemma it_round_ready:
  assumes "crb_inv (it_queue t)" "0 \<le> it_eventFd t" "it_counter t = length (crb_items (it_queue t))"
    and "crb_items (it_queue t) = m # q"
  obtains t' where "it_round t = Inr (Some (m, t'))" "crb_items (it_queue t') = q"
proof -
  let ?t = "t\<lparr>it_counter := length q\<rparr>"
  obtain r where "it_getMsg ?t = Inr (Some (m, ?t\<lparr>it_queue := r\<rparr>))" "crb_items r = q"
    using it_getMsg_ready [of ?t m q] assms(1,4) by auto
  with assms(2-4) that show ?thesis by (simp add: it_round_def it_readEvent_def)
qed

section \<open>Properties\<close>

text \<open>
  C18: Messages are handled exactly once and in the order in which they were put into the queue,
  whatever the interleaving of senders and loop: the messages posted are those handled, the one
  being handled and those queued, in this order.
\<close>

theorem task_messages_in_order:
  assumes "task_reach d fd k s" "0 \<le> fd"
  shows "ts_posted s = ts_handled s @ (case ts_loop s of LHandling m \<Rightarrow> [m] | _ \<Rightarrow> []) @
    crb_items (it_queue (ts_task s))"
  using task_reach_inv [OF assms] by (simp add: task_inv_def)

theorem task_messages_in_order_witness:
  "\<exists>s. task_reach (0::int) 7 1 s \<and> ts_posted s = [5] \<and>
     ts_posted s = ts_handled s @ crb_items (it_queue (ts_task s))"
proof -
  obtain s where s: "task_reach (0::int) 7 1 s" "ts_loop s = LIdle" "ts_posted s = [5]"
    using task_example by blast
  with task_messages_in_order [OF s(1)] show ?thesis by auto
qed

text \<open>
  An event that has been read always has its message: when the loop has taken one from the
  event counter, \<open>syncGet\<close> returns at once with the oldest message, so the loop never blocks
  inside its handler.
\<close>

theorem task_event_has_message:
  assumes "task_reach d fd k s" "0 \<le> fd" "ts_loop s = LEvent"
  shows "\<exists>m t. it_getMsg (ts_task s) = Inr (Some (m, t)) \<and>
    crb_items (it_queue (ts_task s)) = m # crb_items (it_queue t)"
proof -
  have inv: "task_inv s" using task_reach_inv assms(1,2) .
  then have "crb_items (it_queue (ts_task s)) \<noteq> []"
    using assms(3) by (auto simp: task_inv_def simp flip: length_greater_0_conv)
  then obtain m ms where ms: "crb_items (it_queue (ts_task s)) = m # ms"
    by (cases "crb_items (it_queue (ts_task s))") auto
  with it_getMsg_ready [of "ts_task s" m ms] inv show ?thesis
    by (auto simp: task_inv_def)
qed

theorem task_event_has_message_witness:
  "\<exists>s m t. task_reach (0::int) 7 1 s \<and> ts_loop s = LEvent \<and> it_getMsg (ts_task s) = Inr (Some (m, t))"
proof -
  obtain s where s: "task_reach (0::int) 7 1 s" "ts_loop s = LIdle" "it_counter (ts_task s) = 1"
    "it_eventFd (ts_task s) = 7"
    using task_example by blast
  let ?t = "(ts_task s)\<lparr>it_counter := 0\<rparr>"
  have "task_reach 0 7 1 (s\<lparr>ts_task := ?t, ts_loop := LEvent\<rparr>)"
    using task_reach.step [OF s(1) task_step.rd [of s 1 ?t]] s(2-4) by (simp add: it_readEvent_def)
  from task_event_has_message [OF this] this show ?thesis by fastforce
qed

text \<open>
  C13: No message is stranded: when a message is queued, the loop is idle and every sender that
  has put its message has also written its event, the event counter is above zero, so the
  descriptor is readable and the loop's read delivers 1.
\<close>

theorem task_message_has_event:
  assumes "task_reach d fd k s" "0 \<le> fd" "ts_loop s = LIdle"
    and "crb_items (it_queue (ts_task s)) \<noteq> []"
    and "\<forall>i < length (ts_senders s). ts_senders s ! i \<noteq> SWriting"
  shows "\<exists>t. it_readEvent (ts_task s) = Inr (Some (1, t))"
proof -
  have inv: "task_inv s" using task_reach_inv assms(1,2) .
  have "tally ((=) SWriting) (ts_senders s) = 0" using assms(5) by (auto simp: tally_zero_iff)
  moreover have "0 < length (crb_items (it_queue (ts_task s)))" using assms(4) by blast
  ultimately have "0 < it_counter (ts_task s)"
    using inv assms(3) by (auto simp: task_inv_def simp del: length_greater_0_conv)
  with inv show ?thesis by (simp add: task_inv_def it_readEvent_def)
qed

theorem task_message_has_event_witness:
  "\<exists>s t. task_reach (0::int) 7 1 s \<and> ts_loop s = LIdle \<and> it_readEvent (ts_task s) = Inr (Some (1, t))"
proof -
  obtain s where s: "task_reach (0::int) 7 1 s" "ts_loop s = LIdle"
    "crb_items (it_queue (ts_task s)) = [5]" "ts_senders s = [SOut]"
    using task_example by blast
  with task_message_has_event [OF s(1) _ s(2)] show ?thesis by auto
qed

end
