(* ===== verification/MessageCenter.thy ===== *)
theory MessageCenter
  imports ConcurrentHashMap InteractiveTask
begin

text \<open>
  \<open>multi-threading/MessageCenter.h\<close> and \<open>MessageCenter.cpp\<close>: the registry through which tasks
  find one another by name, and the double-checked creation of its single instance.
\<close>

section \<open>The registry\<close>

datatype mc_error =
    RECEIVER_RECV_OK
  | RECEIVER_NOT_EXIST
  | RECEIVER_BUSY
  | UNKNOWN_ERR

text \<open>The value of an enumerator, and its conversion to \<open>bool\<close>.\<close>

fun err_value :: "mc_error \<Rightarrow> int" where
  "err_value RECEIVER_RECV_OK = 0"
| "err_value RECEIVER_NOT_EXIST = 1"
| "err_value RECEIVER_BUSY = 2"
| "err_value UNKNOWN_ERR = 3"

definition err_bool :: "mc_error \<Rightarrow> bool" where
  "err_bool e = (err_value e \<noteq> 0)"

text \<open>
  \<open>taskMap_\<close> maps a name to a \<open>weak_ptr\<close>, here the address of the task. \<open>lock()\<close> on it is a
  lookup among the task objects that are still alive.
\<close>

type_synonym task_map = "(string, nat) chm"

type_synonym 'm task_heap = "nat \<rightharpoonup> 'm itask"

definition new_MessageCenter :: task_map where
  "new_MessageCenter = chm_new DEFAULT_HASHLOCKS"

definition registerTask :: "(string \<Rightarrow> size_t) \<Rightarrow> task_map \<Rightarrow> string \<Rightarrow> nat \<Rightarrow> bool \<times> task_map" where
  "registerTask hasher taskMap taskName wpTask = chm_insert hasher taskMap taskName wpTask"

definition unregisterTask :: "(string \<Rightarrow> size_t) \<Rightarrow> task_map \<Rightarrow> string \<Rightarrow> task_map" where
  "unregisterTask hasher taskMap taskName = chm_erase hasher taskMap taskName"

text \<open>\<open>None\<close> while the sender waits for the receiver to register or for a slot in its queue.\<close>

definition syncSendMsgTo ::
  "(string \<Rightarrow> size_t) \<Rightarrow> task_map \<Rightarrow> 'm task_heap \<Rightarrow> string \<Rightarrow> 'm \<Rightarrow>
   (mc_error \<times> 'm task_heap) option outcome" where
  "syncSendMsgTo hasher taskMap heap receTask spMessage =
     (case chm_waitFind hasher taskMap receTask of
        None \<Rightarrow> Inr None
      | Some wpTask \<Rightarrow>
        (case heap wpTask of
           None \<Rightarrow> Inr (Some (RECEIVER_NOT_EXIST, heap))
         | Some spTask \<Rightarrow>
           and_then (notifyMsg spTask spMessage) (\<lambda>ro.
             Inr (map_option (\<lambda>(ret, t). (RECEIVER_RECV_OK, heap(wpTask \<mapsto> t))) ro))))"

definition asyncSendMsgTo :: "string \<Rightarrow> 'm \<Rightarrow> bool" where
  "asyncSendMsgTo receTask spMessage = False"

text \<open>The result and what is written to the reference argument, if anything. For a name that is
  not registered the enumerator is returned as a \<open>bool\<close>.\<close>

definition getTaskRef :: "(string \<Rightarrow> size_t) \<Rightarrow> task_map \<Rightarrow> string \<Rightarrow> bool \<times> nat option" where
  "getTaskRef hasher taskMap receTask =
     (case chm_find hasher taskMap receTask of
        None \<Rightarrow> (err_bool RECEIVER_NOT_EXIST, None)
      | Some wpTask \<Rightarrow> (True, Some wpTask))"

definition waitGetTaskRef :: "(string \<Rightarrow> size_t) \<Rightarrow> task_map \<Rightarrow> string \<Rightarrow> nat option" where
  "waitGetTaskRef hasher taskMap receTask = chm_waitFind hasher taskMap receTask"

section \<open>The single instance\<close>

text \<open>
  Where a thread is inside \<open>Instance\<close>: before the first load; the load gave null and the lock
  is to be taken; the lock is held and the second load is next; it gave null too; the object is
  built but not yet published; the pointer is known and the lock is to be released; returned.
\<close>

datatype instance_pc =
    IStart
  | ILock
  | IHold
  | ICreate
  | ICreated nat
  | IUnlock nat
  | IDone nat

record instance_state =
  is_ptr :: "nat option"
  is_lock :: "nat option"
  is_news :: nat
  is_threads :: "instance_pc list"

text \<open>The first load, an acquire, may still return the initial null after a store; the second
  happens under the mutex and returns the latest value. Objects are numbered as they are built.\<close>

inductive instance_step :: "instance_state \<Rightarrow> instance_state \<Rightarrow> bool" where
  load_hit: "i < length (is_threads s) \<Longrightarrow> is_threads s ! i = IStart \<Longrightarrow> is_ptr s = Some p \<Longrightarrow>
     instance_step s (s\<lparr>is_threads := (is_threads s)[i := IDone p]\<rparr>)"
| load_miss: "i < length (is_threads s) \<Longrightarrow> is_threads s ! i = IStart \<Longrightarrow>
     instance_step s (s\<lparr>is_threads := (is_threads s)[i := ILock]\<rparr>)"
| acquire: "i < length (is_threads s) \<Longrightarrow> is_threads s ! i = ILock \<Longrightarrow> is_lock s = None \<Longrightarrow>
     instance_step s (s\<lparr>is_lock := Some i, is_threads := (is_threads s)[i := IHold]\<rparr>)"
| again_hit: "i < length (is_threads s) \<Longrightarrow> is_threads s ! i = IHold \<Longrightarrow> is_ptr s = Some p \<Longrightarrow>
     instance_step s (s\<lparr>is_threads := (is_threads s)[i := IUnlock p]\<rparr>)"
| again_miss: "i < length (is_threads s) \<Longrightarrow> is_threads s ! i = IHold \<Longrightarrow> is_ptr s = None \<Longrightarrow>
     instance_step s (s\<lparr>is_threads := (is_threads s)[i := ICreate]\<rparr>)"
| create: "i < length (is_threads s) \<Longrightarrow> is_threads s ! i = ICreate \<Longrightarrow>
     instance_step s (s\<lparr>is_news := Suc (is_news s),
       is_threads := (is_threads s)[i := ICreated (is_news s)]\<rparr>)"
| publish: "i < length (is_threads s) \<Longrightarrow> is_threads s ! i = ICreated p \<Longrightarrow>
     instance_step s (s\<lparr>is_ptr := Some p, is_threads := (is_threads s)[i := IUnlock p]\<rparr>)"
| release: "i < length (is_threads s) \<Longrightarrow> is_threads s ! i = IUnlock p \<Longrightarrow>
     instance_step s (s\<lparr>is_lock := None, is_threads := (is_threads s)[i := IDone p]\<rparr>)"

inductive instance_reach :: "nat \<Rightarrow> instance_state \<Rightarrow> bool" for k where
  start: "instance_reach k
     \<lparr>is_ptr = None, is_lock = None, is_news = 0, is_threads = replicate k IStart\<rparr>"
| step: "instance_reach k s \<Longrightarrow> instance_step s s' \<Longrightarrow> instance_reach k s'"

fun holds_lock :: "instance_pc \<Rightarrow> bool" where
  "holds_lock IHold = True"
| "holds_lock ICreate = True"
| "holds_lock (ICreated p) = True"
| "holds_lock (IUnlock p) = True"
| "holds_lock _ = False"

text \<open>What a thread's position says about the pointer and the number of objects built.\<close>

fun instance_pc_ok :: "nat option \<Rightarrow> nat \<Rightarrow> instance_pc \<Rightarrow> bool" where
  "instance_pc_ok ptr news ICreate = (ptr = None \<and> news = 0)"
| "instance_pc_ok ptr news (ICreated p) = (ptr = None \<and> news = 1 \<and> p = 0)"
| "instance_pc_ok ptr news (IUnlock p) = (ptr = Some p)"
| "instance_pc_ok ptr news (IDone p) = (ptr = Some p)"
| "instance_pc_ok ptr news _ = True"

text \<open>The lock's holder is the one thread inside the critical section; every thread's position
  is right; an object has been built exactly if it is published or about to be.\<close>

definition instance_excl :: "instance_state \<Rightarrow> bool" where
  "instance_excl s \<longleftrightarrow>
     (\<forall>i < length (is_threads s). holds_lock (is_threads s ! i) \<longleftrightarrow> is_lock s = Some i)"

definition instance_pcs :: "instance_state \<Rightarrow> bool" where
  "instance_pcs s \<longleftrightarrow>
     (\<forall>i < length (is_threads s). instance_pc_ok (is_ptr s) (is_news s) (is_threads s ! i))"

definition instance_built :: "instance_state \<Rightarrow> bool" where
  "instance_built s \<longleftrightarrow>
     (if is_ptr s = None then is_news s = 0 \<or> (\<exists>i < length (is_threads s). is_threads s ! i = ICreated 0)
      else is_ptr s = Some 0 \<and> is_news s = 1)"

lemma instance_step_excl: "instance_step s s' \<Longrightarrow> instance_excl s \<Longrightarrow> instance_excl s'"
proof (induction rule: instance_step.induct)
  case (acquire i s)
  then show ?case by (auto simp: instance_excl_def nth_list_update)
next
  case (release i s p)
  then have "is_lock s = Some i" by (auto simp: instance_excl_def)
  with release show ?case by (auto simp: instance_excl_def nth_list_update)
qed (auto simp: instance_excl_def nth_list_update)

text \<open>While one thread holds the lock no other thread is building an object.\<close>

lemma instance_excl_other:
  "instance_excl s \<Longrightarrow> i < length (is_threads s) \<Longrightarrow> holds_lock (is_threads s ! i) \<Longrightarrow>
   j < length (is_threads s) \<Longrightarrow> holds_lock (is_threads s ! j) \<Longrightarrow> j = i"
  by (simp add: instance_excl_def)

lemma instance_pc_ok_outside:
  "instance_pc_ok ptr news pc \<Longrightarrow> \<not> holds_lock pc \<Longrightarrow> ptr = None \<Longrightarrow> instance_pc_ok ptr' news' pc"
  by (cases pc) auto

lemma instance_step_pcs:
  assumes "instance_step s s'" "instance_excl s" "instance_pcs s" "instance_built s"
  shows "instance_pcs s'"
  using assms(1)
proof cases
  case (again_miss i)
  have "is_threads s ! j \<noteq> ICreated 0" if "j < length (is_threads s)" for j
    using instance_excl_other [OF assms(2) again_miss(2) _ that] again_miss by fastforce
  then have "is_news s = 0" using assms(4) again_miss by (auto simp: instance_built_def)
  with again_miss assms(3) show ?thesis by (auto simp: instance_pcs_def nth_list_update)
next
  case (create i)
  have other: "\<not> holds_lock (is_threads s ! j)" if "j < length (is_threads s)" "j \<noteq> i" for j
    using instance_excl_other [OF assms(2) create(2) _ that(1)] create that by auto
  have "is_ptr s = None" "is_news s = 0"
    using assms(3) create by (auto simp: instance_pcs_def)
  with create other assms(3) show ?thesis
    by (auto simp: instance_pcs_def nth_list_update intro: instance_pc_ok_outside)
next
  case (publish i p)
  have other: "\<not> holds_lock (is_threads s ! j)" if "j < length (is_threads s)" "j \<noteq> i" for j
    using instance_excl_other [OF assms(2) publish(2) _ that(1)] publish that by auto
  have "is_ptr s = None" using assms(3) publish by (auto simp: instance_pcs_def)
  with publish other assms(3) show ?thesis
    by (auto simp: instance_pcs_def nth_list_update intro: instance_pc_ok_outside)
qed (use assms(3) in \<open>auto simp: instance_pcs_def nth_list_update\<close>)

lemma ex_nth_update:
  "\<exists>j < length xs. xs ! j = c \<Longrightarrow> xs ! i \<noteq> c \<Longrightarrow> \<exists>j < length xs. xs[i := v] ! j = c"
  by (metis nth_list_update_neq)

lemma instance_step_built:
  assumes "instance_step s s'" "instance_pcs s" "instance_built s"
  shows "instance_built s'"
  using assms(1)
proof cases
  case (create i)
  then have "is_ptr s = None" "is_news s = 0" using assms(2) by (auto simp: instance_pcs_def)
  with create show ?thesis by (auto simp: instance_built_def intro!: exI [of _ i])
next
  case (publish i p)
  then have "p = 0" "is_news s = 1" using assms(2) by (auto simp: instance_pcs_def)
  with publish show ?thesis by (auto simp: instance_built_def)
qed (use assms(3) in \<open>auto simp: instance_built_def intro!: ex_nth_update split: if_splits\<close>)

lemma instance_reach_inv:
  "instance_reach k s \<Longrightarrow> instance_excl s \<and> instance_pcs s \<and> instance_built s"
proof (induction rule: instance_reach.induct)
  case start
  then show ?case by (simp add: instance_excl_def instance_pcs_def instance_built_def)
next
  case (step s s')
  then show ?case using instance_step_excl instance_step_pcs instance_step_built by blast
qed

section \<open>Sending\<close>

text \<open>Every living task has a well-formed queue and an open event descriptor.\<close>

definition heap_ok :: "'m task_heap \<Rightarrow> bool" where
  "heap_ok heap \<longleftrightarrow> (\<forall>w t. heap w = Some t \<longrightarrow> crb_inv (it_queue t) \<and> 0 \<le> it_eventFd t)"

text \<open>The whole of \<open>notifyMsg\<close> on a started task with room in its queue.\<close>

lemma notifyMsg_room:
  assumes "crb_inv (it_queue t)" "length (crb_items (it_queue t)) < crb_cap (it_queue t)"
    and "0 \<le> it_eventFd t"
  shows "\<exists>r. notifyMsg t m = Inr (Some (0, t\<lparr>it_queue := r, it_counter := Suc (it_counter t)\<rparr>)) \<and>
    crb_inv r \<and> crb_items r = crb_items (it_queue t) @ [m]"
  using it_putMsg_room [OF assms(1,2), of m] assms(3) by (auto simp: notifyMsg_def it_writeEvent_def)

lemma notifyMsg_full:
  assumes "crb_inv (it_queue t)" "length (crb_items (it_queue t)) = crb_cap (it_queue t)"
  shows "notifyMsg t m = Inr None"
  using assms by (simp add: notifyMsg_def it_putMsg_def crb_put_cases crb_length_items)

section \<open>Properties\<close>

text \<open>
  C30: The double-checked creation yields one object: in every interleaving of any number of
  threads calling \<open>Instance\<close>, also when the first load returns a stale null, all threads that
  have returned hold the same pointer and exactly one \<open>MessageCenter\<close> has been built.
\<close>

theorem instance_unique:
  assumes "instance_reach k s"
    and "i < length (is_threads s)" "is_threads s ! i = IDone p"
    and "j < length (is_threads s)" "is_threads s ! j = IDone q"
  shows "p = q \<and> is_ptr s = Some p \<and> is_news s = 1"
proof -
  from instance_reach_inv [OF assms(1)] have inv: "instance_pcs s" "instance_built s" by auto
  from inv(1) assms(2-) have "instance_pc_ok (is_ptr s) (is_news s) (IDone p)"
    "instance_pc_ok (is_ptr s) (is_news s) (IDone q)"
    unfolding instance_pcs_def by metis+
  then have "is_ptr s = Some p" "is_ptr s = Some q" by simp_all
  with inv(2) show ?thesis by (simp add: instance_built_def)
qed

text \<open>Two threads, both of which saw null at first; the second finds the object of the first.\<close>

definition instance_example :: instance_state where
  "instance_example =
     \<lparr>is_ptr = Some 0, is_lock = None, is_news = 1, is_threads = [IDone 0, IDone 0]\<rparr>"

lemma instance_example_reach: "instance_reach 2 instance_example"
proof -
  let ?s = "\<lambda>p l n ts. \<lparr>is_ptr = p, is_lock = l, is_news = n, is_threads = ts\<rparr>"
  have "instance_reach 2 (?s None None 0 [IStart, IStart])"
    using instance_reach.start [of 2] by (simp add: replicate_numeral_Cons)
  from instance_reach.step [OF this instance_step.load_miss [of 0]]
  have "instance_reach 2 (?s None None 0 [ILock, IStart])" by simp
  from instance_reach.step [OF this instance_step.load_miss [of 1]]
  have "instance_reach 2 (?s None None 0 [ILock, ILock])" by simp
  from instance_reach.step [OF this instance_step.acquire [of 0]]
  have "instance_reach 2 (?s None (Some 0) 0 [IHold, ILock])" by simp
  from instance_reach.step [OF this instance_step.again_miss [of 0]]
  have "instance_reach 2 (?s None (Some 0) 0 [ICreate, ILock])" by simp
  from instance_reach.step [OF this instance_step.create [of 0]]
  have "instance_reach 2 (?s None (Some 0) 1 [ICreated 0, ILock])" by simp
  from instance_reach.step [OF this instance_step.publish [of 0 _ 0]]
  have "instance_reach 2 (?s (Some 0) (Some 0) 1 [IUnlock 0, ILock])" by simp
  from instance_reach.step [OF this instance_step.release [of 0 _ 0]]
  have "instance_reach 2 (?s (Some 0) None 1 [IDone 0, ILock])" by simp
  from instance_reach.step [OF this instance_step.acquire [of 1]]
  have "instance_reach 2 (?s (Some 0) (Some 1) 1 [IDone 0, IHold])" by simp
  from instance_reach.step [OF this instance_step.again_hit [of 1 _ 0]]
  have "instance_reach 2 (?s (Some 0) (Some 1) 1 [IDone 0, IUnlock 0])" by simp
  from instance_reach.step [OF this instance_step.release [of 1 _ 0]]
  show ?thesis by (simp add: instance_example_def)
qed

theorem instance_unique_witness:
  "instance_reach 2 instance_example \<and> is_ptr instance_example = Some 0 \<and> is_news instance_example = 1"
  using instance_unique [OF instance_example_reach, of 0 0 1 0] instance_example_reach
  by (simp add: instance_example_def)

text \<open>
  \<open>syncSendMsgTo\<close> on every branch. With the receiver registered and alive, started, and
  with room in its queue it returns \<open>RECEIVER_RECV_OK\<close>, the message is the last in the
  receiver's queue, its event counter is one higher and no other task is touched; with the
  receiver registered but destroyed it returns \<open>RECEIVER_NOT_EXIST\<close> and changes nothing; it
  blocks exactly while the receiver is not registered or its queue is full.
\<close>

theorem syncSendMsgTo_spec:
  assumes "heap_ok heap"
  shows "case chm_find hasher tm name of
      None \<Rightarrow> syncSendMsgTo hasher tm heap name m = Inr None
    | Some w \<Rightarrow>
      (case heap w of
        None \<Rightarrow> syncSendMsgTo hasher tm heap name m = Inr (Some (RECEIVER_NOT_EXIST, heap))
      | Some t \<Rightarrow>
        if length (crb_items (it_queue t)) = crb_cap (it_queue t)
        then syncSendMsgTo hasher tm heap name m = Inr None
        else \<exists>r. syncSendMsgTo hasher tm heap name m = Inr (Some (RECEIVER_RECV_OK,
            heap(w \<mapsto> t\<lparr>it_queue := r, it_counter := Suc (it_counter t)\<rparr>))) \<and>
          crb_items r = crb_items (it_queue t) @ [m])"
proof (cases "chm_find hasher tm name")
  case None
  then show ?thesis by (simp add: syncSendMsgTo_def chm_waitFind_find)
next
  case (Some w)
  show ?thesis
  proof (cases "heap w")
    case None
    with Some show ?thesis by (simp add: syncSendMsgTo_def chm_waitFind_find)
  next
    case t: (Some t)
    then have ok: "crb_inv (it_queue t)" "0 \<le> it_eventFd t"
      using assms by (auto simp: heap_ok_def)
    then have le: "length (crb_items (it_queue t)) \<le> crb_cap (it_queue t)"
      using crb.items_bound by blast
    show ?thesis
      using Some t ok le notifyMsg_full [of t m] notifyMsg_room [of t m]
      by (fastforce simp: syncSendMsgTo_def chm_waitFind_find)
  qed
qed

theorem syncSendMsgTo_spec_witness:
  "\<exists>heap'. syncSendMsgTo (\<lambda>_. 3) (snd (registerTask (\<lambda>_. 3) new_MessageCenter ''A'' 2))
      [2 \<mapsto> (new_InteractiveTask (0::int) ''A'' True)\<lparr>it_eventFd := 7\<rparr>] ''A'' 5 =
    Inr (Some (RECEIVER_RECV_OK, heap'))"
proof -
  let ?h = "\<lambda>_::string. 3 :: size_t"
  let ?t = "(new_InteractiveTask (0::int) ''A'' True)\<lparr>it_eventFd := 7\<rparr>"
  let ?heap = "[2::nat \<mapsto> ?t]"
  let ?tm = "snd (registerTask ?h new_MessageCenter ''A'' 2)"
  have n: "0 < DEFAULT_HASHLOCKS" by (simp add: DEFAULT_HASHLOCKS_def)
  have found: "chm_find ?h ?tm ''A'' = Some 2"
    using chm.insert_fresh [OF chm_new_inv [OF n] chm_new_find [OF n], of ?h "''A''" "2::nat"]
    by (simp add: registerTask_def new_MessageCenter_def)
  have t: "crb_inv (it_queue ?t)" "crb_items (it_queue ?t) = []" "crb_cap (it_queue ?t) = 49999"
    by (simp_all add: new_InteractiveTask_def MSG_QUEUE_SIZE_def)
  then have "heap_ok ?heap" by (simp add: heap_ok_def)
  from syncSendMsgTo_spec [OF this, of ?h ?tm "''A''" 5] t show ?thesis by (auto simp: found)
qed

text \<open>
  \<open>getTaskRef\<close> reports success for every name: for a name that is not registered it returns
  the enumerator \<open>RECEIVER_NOT_EXIST\<close>, whose value 1 converts to true, and writes nothing to
  the reference, so its result does not tell whether the task exists.
\<close>

theorem getTaskRef_always_true:
  "getTaskRef hasher tm name = (True, chm_find hasher tm name)"
  by (simp add: getTaskRef_def err_bool_def split: option.split)

text \<open>
  Registration by name. A name that is free is registered and then found under its task; a
  second task with the same name is refused and the first stays; after \<open>unregisterTask\<close> the
  name is free again and all other names are as before.
\<close>

theorem registration:
  assumes "chm_inv hasher tm" "chm_find hasher tm name = None" "registerTask hasher tm name w = (b, tm')"
  shows "b \<and> waitGetTaskRef hasher tm' name = Some w \<and>
    (\<forall>w' b' tm''. registerTask hasher tm' name w' = (b', tm'') \<longrightarrow>
      \<not> b' \<and> chm_find hasher tm'' = chm_find hasher tm') \<and>
    chm_find hasher (unregisterTask hasher tm' name) = chm_find hasher tm"
proof -
  have snd: "tm' = snd (chm_insert hasher tm name w)" and fst: "b = fst (chm_insert hasher tm name w)"
    using assms(3) by (simp_all add: registerTask_def)
  have inv: "chm_inv hasher tm'" unfolding snd by (rule chm.insert_inv [OF assms(1)])
  have found: "b" "chm_find hasher tm' name = Some w"
    using chm.insert_fresh [OF assms(1,2), of w] by (simp_all add: fst snd)
  have "\<not> b' \<and> chm_find hasher tm'' = chm_find hasher tm'"
    if "registerTask hasher tm' name w' = (b', tm'')" for w' b' tm''
    using chm.insert_taken [OF inv found(2), of w'] that by (simp add: registerTask_def)
  moreover have "chm_find hasher (unregisterTask hasher tm' name) = chm_find hasher tm"
    using chm.insert_erase [OF assms(1,2), of w] by (simp add: unregisterTask_def snd)
  ultimately show ?thesis using found by (auto simp: waitGetTaskRef_def chm_waitFind_find)
qed

theorem registration_witness:
  "fst (registerTask (\<lambda>_. 3) new_MessageCenter ''Service-1'' 7) \<and>
   waitGetTaskRef (\<lambda>_. 3) (snd (registerTask (\<lambda>_. 3) new_MessageCenter ''Service-1'' 7)) ''Service-1'' = Some 7"
proof -
  let ?h = "\<lambda>_::string. 3 :: size_t" and ?n = "''Service-1''"
  have n: "0 < DEFAULT_HASHLOCKS" by (simp add: DEFAULT_HASHLOCKS_def)
  have "chm_inv ?h new_MessageCenter" "chm_find ?h new_MessageCenter ?n = None"
    by (simp_all add: new_MessageCenter_def chm_new_inv [OF n] chm_new_find [OF n])
  from registration [OF this surjective_pairing, of 7] show ?thesis by simp
qed

end
