(* ===== verification/EventReactor.thy ===== *)
theory EventReactor
  imports Banana_Prelude
begin

text \<open>
  \<open>network/EventReactor.h\<close>: the interface between the event loop and the code that waits for a
  descriptor. The flags of the interface, and the contract of its virtual functions as a locale:
  a handler is registered for one event, a later registration for the same descriptor and
  direction replaces it, and delivering the event consumes it. \<open>LibeventReactor\<close> discharges the
  contract; \<open>Stream\<close> and \<open>Connector\<close> are proved against it.
\<close>

section \<open>Event flags\<close>

type_synonym event_flags = "16 word" \<comment> \<open>\<open>short\<close>\<close>

definition EVENT_ACCEPT :: event_flags where "EVENT_ACCEPT = 1"
definition EVENT_WRITE :: event_flags where "EVENT_WRITE = 2"
definition EVENT_READ :: event_flags where "EVENT_READ = 4"
definition EVENT_TIMEOUT :: event_flags where "EVENT_TIMEOUT = 8"

definition DEFAULT_MAX_CLIENTS :: int where "DEFAULT_MAX_CLIENTS = 20000"

text \<open>\<open>events & flag\<close> as a condition.\<close>

definition has_event :: "event_flags \<Rightarrow> event_flags \<Rightarrow> bool" where
  "has_event events flag \<longleftrightarrow> and events flag \<noteq> 0"

text \<open>The two directions a descriptor can be waited for, all of which can be tried out, and the flag of each.\<close>

datatype dir = Rd | Wr

instantiation dir :: enum
begin

definition "enum_dir = [Rd, Wr]"
definition "enum_all_dir P \<longleftrightarrow> P Rd \<and> P Wr"
definition "enum_ex_dir P \<longleftrightarrow> P Rd \<or> P Wr"

instance
proof
  have two: "d = Rd \<or> d = Wr" for d :: dir by (cases d) simp_all
  show "(UNIV :: dir set) = set enum_class.enum" using two by (auto simp: enum_dir_def)
  show "distinct (enum_class.enum :: dir list)" by (simp add: enum_dir_def)
  show "enum_class.enum_all P \<longleftrightarrow> Ball UNIV P" "enum_class.enum_ex P \<longleftrightarrow> Bex UNIV P" for P :: "dir \<Rightarrow> bool"
    using two by (auto simp: enum_all_dir_def enum_ex_dir_def) metis+
qed

end

text \<open>So what is said of every direction is said of two.\<close>

lemma all_dir: "(\<forall>d. P d) \<longleftrightarrow> P Rd \<and> P Wr"
  using enum_class.enum_UNIV [where 'a = dir] by (simp add: enum_dir_def set_eq_iff) metis

fun flag :: "dir \<Rightarrow> event_flags" where
  "flag Rd = EVENT_READ"
| "flag Wr = EVENT_WRITE"

lemma has_event_simps [simp]:
  "has_event (flag d) EVENT_ACCEPT = False"
  "has_event (flag d) EVENT_READ = (d = Rd)"
  "has_event (flag d) EVENT_WRITE = (d = Wr)"
  "has_event (flag d) (flag d') = (d = d')"
  "has_event EVENT_ACCEPT EVENT_ACCEPT" "\<not> has_event EVENT_ACCEPT EVENT_READ"
  "\<not> has_event EVENT_ACCEPT EVENT_WRITE"
  "has_event EVENT_READ EVENT_READ" "\<not> has_event EVENT_READ EVENT_WRITE"
  "\<not> has_event EVENT_READ EVENT_ACCEPT" "\<not> has_event EVENT_WRITE EVENT_ACCEPT"
  "has_event EVENT_WRITE EVENT_WRITE" "\<not> has_event EVENT_WRITE EVENT_READ"
  by ((cases d; cases d')?,
      simp_all add: has_event_def EVENT_ACCEPT_def EVENT_READ_def EVENT_WRITE_def)+

section \<open>The contract\<close>

text \<open>
  \<open>add\<close> registers a handler for one direction, \<open>rem\<close> removes it, \<open>fire\<close> is the delivery of
  an event: it yields the callback that is called. \<open>handler\<close> is the abstract content of a
  reactor, the callbacks that wait for an event; \<open>nfds\<close> is the number of descriptors it was
  initialised for. A registration may fail, but then it changes nothing; a removal may end the
  program, but if it returns the handler is gone.
\<close>

locale event_reactor =
  fixes add :: "'r \<Rightarrow> int \<Rightarrow> event_flags \<Rightarrow> 'cb \<Rightarrow> (bool \<times> 'r) outcome"
    and rem :: "'r \<Rightarrow> int \<Rightarrow> event_flags \<Rightarrow> (bool \<times> 'r) outcome"
    and fire :: "'r \<Rightarrow> int \<Rightarrow> dir \<Rightarrow> (('cb \<times> event_flags) option \<times> 'r) outcome"
    and handler :: "'r \<Rightarrow> int \<times> dir \<Rightarrow> 'cb option"
    and nfds :: "'r \<Rightarrow> int"
    and inv :: "'r \<Rightarrow> bool"
  assumes add_law: "inv r \<Longrightarrow> 0 \<le> fd \<Longrightarrow> fd < nfds r \<Longrightarrow>
      \<exists>b r'. add r fd (flag d) cb = Inr (b, r') \<and> inv r' \<and> nfds r' = nfds r \<and>
        handler r' = (if b then (handler r)((fd, d) \<mapsto> cb) else handler r)"
    and fire_law: "inv r \<Longrightarrow> handler r (fd, d) = Some cb \<Longrightarrow>
      \<exists>r'. fire r fd d = Inr (Some (cb, flag d), r') \<and> inv r' \<and> nfds r' = nfds r \<and>
        handler r' = (handler r)((fd, d) := None)"
    and rem_law: "inv r \<Longrightarrow> 0 \<le> fd \<Longrightarrow> fd < nfds r \<Longrightarrow> rem r fd (flag d) = Inr (b, r') \<Longrightarrow>
      b \<and> inv r' \<and> nfds r' = nfds r \<and> handler r' = (handler r)((fd, d) := None)"
begin

lemma add_cases:
  assumes "inv r" "0 \<le> fd" "fd < nfds r"
  obtains (registered) r' where "add r fd (flag d) cb = Inr (True, r')" "inv r'" "nfds r' = nfds r"
      "handler r' = (handler r)((fd, d) \<mapsto> cb)"
  | (failed) r' where "add r fd (flag d) cb = Inr (False, r')" "inv r'" "nfds r' = nfds r"
      "handler r' = handler r"
  using add_law [OF assms, of d cb] by (metis (full_types))

text \<open>A handler that was registered is the one the next event of its descriptor calls, once.\<close>

lemma add_fire:
  assumes "inv r" "0 \<le> fd" "fd < nfds r" "add r fd (flag d) cb = Inr (True, r')"
  shows "\<exists>r''. fire r' fd d = Inr (Some (cb, flag d), r'') \<and> inv r'' \<and>
    handler r'' = (handler r)((fd, d) := None)"
proof -
  from add_law [OF assms(1-3), of d cb] assms(4)
  have "inv r'" "handler r' = (handler r)((fd, d) \<mapsto> cb)" by auto
  with fire_law [of r' fd d cb] show ?thesis by auto
qed

end

end
