(* ===== verification/LibeventReactor.thy ===== *)
theory LibeventReactor
  imports EventReactor
begin

text \<open>
  \<open>network/LibeventReactor.h\<close> and \<open>LibeventReactor.cpp\<close>, the event reactor over libevent, and
  the stub \<open>network/SelectEventReactor.cpp\<close>. Libevent itself is a parameter: a function that
  tells, from the calls made so far, whether the next call succeeds. Every call is kept in a log,
  from which \<open>pending\<close> reads which events libevent waits for.
\<close>

section \<open>Libevent\<close>

text \<open>
  The calls the reactor makes, with the descriptor and the direction of the event concerned
  (there is at most one event object for each), and \<open>Fired\<close> for the delivery of an event. The
  log has the newest entry first, each with its success.
\<close>

datatype lib_call =
    EventBaseNew | EventBaseFree
  | ListenerNew "16 word option" | ListenerFree
  | EventNew int dir | EventAdd int dir | EventDel int dir | EventFree int dir
  | Fired int dir

type_synonym lib_log = "(lib_call \<times> bool) list"

type_synonym libevent = "lib_log \<Rightarrow> lib_call \<Rightarrow> bool"

text \<open>
  The events are made without \<open>EV_PERSIST\<close>: an event waits from a successful \<open>event_add\<close> until
  it is delivered, deleted or freed, or the event base is freed.
\<close>

fun pending :: "lib_log \<Rightarrow> int \<times> dir \<Rightarrow> bool" where
  "pending [] k = False"
| "pending ((EventAdd fd d, ok) # l) k = (if (fd, d) = k \<and> ok then True else pending l k)"
| "pending ((EventDel fd d, ok) # l) k = (if (fd, d) = k \<and> ok then False else pending l k)"
| "pending ((EventFree fd d, ok) # l) k = (if (fd, d) = k then False else pending l k)"
| "pending ((Fired fd d, ok) # l) k = (if (fd, d) = k then False else pending l k)"
| "pending ((EventBaseFree, ok) # l) k = False"
| "pending (c # l) k = pending l k"

section \<open>The state\<close>

text \<open>Event pointers are kept as whether they are set, callbacks as \<open>None\<close> for null.\<close>

record 'cb event_bundle =
  pWriteEvent :: bool
  pReadEvent :: bool
  writeCallback :: "'cb option"
  readCallback :: "'cb option"

definition new_EventBundle :: "'cb event_bundle" where
  "new_EventBundle =
     \<lparr>pWriteEvent = False, pReadEvent = False, writeCallback = None, readCallback = None\<rparr>"

text \<open>An owning pointer: null, to an object, or to an object that has been released.\<close>

datatype 'a owned = Null | Owns 'a | Dangling

record 'cb reactor =
  pBase :: bool
  pListener :: bool
  sin_port :: "16 word option"
  pEventBundleMap :: "'cb event_bundle list owned"
  pAcceptCallback :: "'cb option owned"
  lib_calls :: lib_log

definition new_LibeventReactor :: "'cb reactor" where
  "new_LibeventReactor = \<lparr>pBase = False, pListener = False, sin_port = None,
     pEventBundleMap = Null, pAcceptCallback = Null, lib_calls = []\<rparr>"

text \<open>A call of libevent: its success, and the reactor with the call logged.\<close>

definition lib_do :: "libevent \<Rightarrow> lib_call \<Rightarrow> 'cb reactor \<Rightarrow> bool \<times> 'cb reactor" where
  "lib_do lib c r =
     (let ok = lib (lib_calls r) c in (ok, r\<lparr>lib_calls := (c, ok) # lib_calls r\<rparr>))"

lemma lib_do_eq:
  "lib_do lib c r = (lib (lib_calls r) c,
     r\<lparr>lib_calls := (c, lib (lib_calls r) c) # lib_calls r\<rparr>)"
  by (simp add: lib_do_def Let_def)

text \<open>Reading and updating \<open>pEventBundleMap_[fd]\<close>.\<close>

definition bundle_at :: "'cb reactor \<Rightarrow> int \<Rightarrow> 'cb event_bundle outcome" where
  "bundle_at r fd = (case pEventBundleMap r of
       Null \<Rightarrow> Inl NullDereference
     | Dangling \<Rightarrow> Inl UseAfterFree
     | Owns bs \<Rightarrow> if 0 \<le> fd \<and> nat fd < length bs then Inr (bs ! nat fd) else Inl OutOfBounds)"

definition upd_bundle :: "int \<Rightarrow> ('cb event_bundle \<Rightarrow> 'cb event_bundle) \<Rightarrow> 'cb reactor \<Rightarrow> 'cb reactor" where
  "upd_bundle fd f r = (case pEventBundleMap r of
       Owns bs \<Rightarrow> r\<lparr>pEventBundleMap := Owns (bs[nat fd := f (bs ! nat fd)])\<rparr>
     | _ \<Rightarrow> r)"

text \<open>The members of a bundle by direction.\<close>

fun pEvent :: "dir \<Rightarrow> 'cb event_bundle \<Rightarrow> bool" where
  "pEvent Rd b = pReadEvent b"
| "pEvent Wr b = pWriteEvent b"

fun set_pEvent :: "dir \<Rightarrow> bool \<Rightarrow> 'cb event_bundle \<Rightarrow> 'cb event_bundle" where
  "set_pEvent Rd v b = b\<lparr>pReadEvent := v\<rparr>"
| "set_pEvent Wr v b = b\<lparr>pWriteEvent := v\<rparr>"

fun callback :: "dir \<Rightarrow> 'cb event_bundle \<Rightarrow> 'cb option" where
  "callback Rd b = readCallback b"
| "callback Wr b = writeCallback b"

fun set_callback :: "dir \<Rightarrow> 'cb option \<Rightarrow> 'cb event_bundle \<Rightarrow> 'cb event_bundle" where
  "set_callback Rd cb b = b\<lparr>readCallback := cb\<rparr>"
| "set_callback Wr cb b = b\<lparr>writeCallback := cb\<rparr>"

section \<open>The operations\<close>

text \<open>\<open>new EventBundle[maxFds]()\<close> throws instead of returning null.\<close>

definition initReactor :: "libevent \<Rightarrow> 'cb reactor \<Rightarrow> int \<Rightarrow> (bool \<times> 'cb reactor) outcome" where
  "initReactor lib r maxFds =
     and_then (assert_that (maxFds > 0)) (\<lambda>_.
       let (ok, r) = lib_do lib EventBaseNew r; r = r\<lparr>pBase := ok\<rparr> in
       if \<not> ok then Inr (False, r)
       else Inr (True, r\<lparr>pEventBundleMap := Owns (replicate (nat maxFds) new_EventBundle)\<rparr>))"

text \<open>\<open>~_EventBundle\<close>: the write event is freed before the read event.\<close>

definition delete_bundle :: "libevent \<Rightarrow> int \<Rightarrow> 'cb event_bundle \<Rightarrow> 'cb reactor \<Rightarrow> 'cb reactor" where
  "delete_bundle lib fd b r =
     (let r = (if pWriteEvent b then snd (lib_do lib (EventFree fd Wr) r) else r) in
      if pReadEvent b then snd (lib_do lib (EventFree fd Rd) r) else r)"

text \<open>\<open>delete[]\<close> of an array of bundles destroys the last element first.\<close>

fun delete_bundles :: "libevent \<Rightarrow> nat \<Rightarrow> 'cb event_bundle list \<Rightarrow> 'cb reactor \<Rightarrow> 'cb reactor" where
  "delete_bundles lib fd [] r = r"
| "delete_bundles lib fd (b # bs) r = delete_bundle lib (int fd) b (delete_bundles lib (Suc fd) bs r)"

definition destroyReactor :: "libevent \<Rightarrow> 'cb reactor \<Rightarrow> 'cb reactor outcome" where
  "destroyReactor lib r =
     (let r = (if pBase r then (snd (lib_do lib EventBaseFree r))\<lparr>pBase := False\<rparr> else r);
          r = (if pListener r then (snd (lib_do lib ListenerFree r))\<lparr>pListener := False\<rparr> else r)
      in and_then (case pAcceptCallback r of
             Null \<Rightarrow> Inr r
           | Owns cb \<Rightarrow> Inr (r\<lparr>pAcceptCallback := Dangling\<rparr>)
           | Dangling \<Rightarrow> Inl DoubleFree) (\<lambda>r.
         case pEventBundleMap r of
             Null \<Rightarrow> Inr r
           | Owns bs \<Rightarrow> Inr ((delete_bundles lib 0 bs r)\<lparr>pEventBundleMap := Dangling\<rparr>)
           | Dangling \<Rightarrow> Inl DoubleFree))"

definition delete_LibeventReactor :: "libevent \<Rightarrow> 'cb reactor \<Rightarrow> 'cb reactor outcome" where
  "delete_LibeventReactor lib r = destroyReactor lib r"

definition bindPort :: "'cb reactor \<Rightarrow> 16 word \<Rightarrow> bool \<times> 'cb reactor" where
  "bindPort r port = (True, r\<lparr>sin_port := Some port\<rparr>)"

text \<open>The three parts of \<open>addEventHandler\<close>; a part that returns false ends the function.\<close>

definition add_accept :: "libevent \<Rightarrow> 'cb reactor \<Rightarrow> event_flags \<Rightarrow> 'cb option \<Rightarrow>
    bool \<times> 'cb reactor" where
  "add_accept lib r events cb =
     (if has_event events EVENT_ACCEPT \<and> pAcceptCallback r = Null
      then let (ok, r) = lib_do lib (ListenerNew (sin_port r)) (r\<lparr>pAcceptCallback := Owns cb\<rparr>)
           in (ok, r\<lparr>pListener := ok\<rparr>)
      else (True, r))"

definition add_dir :: "libevent \<Rightarrow> 'cb reactor \<Rightarrow> int \<Rightarrow> event_flags \<Rightarrow> dir \<Rightarrow> 'cb option \<Rightarrow>
    (bool \<times> 'cb reactor) outcome" where
  "add_dir lib r fd events d cb =
     (if \<not> has_event events (flag d) then Inr (True, r)
      else and_then (bundle_at r fd) (\<lambda>b.
        let (made, r) =
              (if pEvent d b then (True, r)
               else let (ok, r) = lib_do lib (EventNew fd d) r in (ok, upd_bundle fd (set_pEvent d ok) r))
        in if \<not> made then Inr (False, r)
           else let (added, r) = lib_do lib (EventAdd fd d) r
                in if \<not> added then Inr (False, r)
                   else Inr (True, upd_bundle fd (set_callback d cb) r)))"

definition addEventHandler :: "libevent \<Rightarrow> 'cb reactor \<Rightarrow> int \<Rightarrow> event_flags \<Rightarrow> 'cb option \<Rightarrow>
    (bool \<times> 'cb reactor) outcome" where
  "addEventHandler lib r fd events cb =
     and_then (assert_that (0 \<le> fd)) (\<lambda>_.
       let (ok, r) = add_accept lib r events cb in
       if \<not> ok then Inr (False, r)
       else and_then (add_dir lib r fd events Rd cb) (\<lambda>(ok, r).
         if \<not> ok then Inr (False, r) else add_dir lib r fd events Wr cb))"

text \<open>One direction of \<open>enableEvent\<close>, \<open>disableEvent\<close> and \<open>removeEventHandler\<close>.\<close>

definition enable_dir :: "libevent \<Rightarrow> int \<Rightarrow> event_flags \<Rightarrow> dir \<Rightarrow> 'cb reactor \<Rightarrow>
    'cb reactor outcome" where
  "enable_dir lib fd events d r =
     (if \<not> has_event events (flag d) then Inr r
      else and_then (bundle_at r fd) (\<lambda>b.
        if \<not> pEvent d b then Inr r
        else let (ok, r) = lib_do lib (EventAdd fd d) r in
             and_then (assert_that ok) (\<lambda>_. Inr r)))"

definition enableEvent :: "libevent \<Rightarrow> 'cb reactor \<Rightarrow> int \<Rightarrow> event_flags \<Rightarrow>
    (bool \<times> 'cb reactor) outcome" where
  "enableEvent lib r fd events =
     and_then (assert_that (0 \<le> fd)) (\<lambda>_.
     and_then (enable_dir lib fd events Wr r) (\<lambda>r.
     and_then (enable_dir lib fd events Rd r) (\<lambda>r. Inr (True, r))))"

definition disable_dir :: "libevent \<Rightarrow> int \<Rightarrow> event_flags \<Rightarrow> dir \<Rightarrow> 'cb reactor \<Rightarrow>
    'cb reactor outcome" where
  "disable_dir lib fd events d r =
     (if \<not> has_event events (flag d) then Inr r
      else and_then (bundle_at r fd) (\<lambda>b.
        if \<not> pEvent d b then Inr r
        else let (ok, r) = lib_do lib (EventDel fd d) r in
             and_then (assert_that ok) (\<lambda>_. Inr r)))"

definition disableEvent :: "libevent \<Rightarrow> 'cb reactor \<Rightarrow> int \<Rightarrow> event_flags \<Rightarrow>
    (bool \<times> 'cb reactor) outcome" where
  "disableEvent lib r fd events =
     and_then (assert_that (0 \<le> fd)) (\<lambda>_.
     and_then (disable_dir lib fd events Rd r) (\<lambda>r.
     and_then (disable_dir lib fd events Wr r) (\<lambda>r. Inr (True, r))))"

definition remove_dir :: "libevent \<Rightarrow> int \<Rightarrow> event_flags \<Rightarrow> dir \<Rightarrow> 'cb reactor \<Rightarrow>
    'cb reactor outcome" where
  "remove_dir lib fd events d r =
     (if \<not> has_event events (flag d) then Inr r
      else and_then (bundle_at r fd) (\<lambda>b.
        if \<not> pEvent d b then Inr r
        else let (ok, r) = lib_do lib (EventDel fd d) r in
             and_then (assert_that ok) (\<lambda>_.
               Inr (upd_bundle fd (set_pEvent d False) (snd (lib_do lib (EventFree fd d) r))))))"

definition removeEventHandler :: "libevent \<Rightarrow> 'cb reactor \<Rightarrow> int \<Rightarrow> event_flags \<Rightarrow>
    (bool \<times> 'cb reactor) outcome" where
  "removeEventHandler lib r fd events =
     and_then (assert_that (0 \<le> fd)) (\<lambda>_.
     and_then (remove_dir lib fd events Rd r) (\<lambda>r.
     and_then (remove_dir lib fd events Wr r) (\<lambda>r. Inr (True, r))))"

text \<open>
  The static callbacks libevent calls. \<open>on_accept\<close> yields the callback to call with
  \<open>EVENT_ACCEPT\<close>; \<open>on_event\<close> moves the callback out of the bundle, which leaves the member empty,
  and yields it with the flag it is called with. A time-out event does nothing.
\<close>

definition on_accept :: "'cb reactor \<Rightarrow> ('cb \<times> event_flags) outcome" where
  "on_accept r = (case pAcceptCallback r of
       Null \<Rightarrow> Inl NullDereference
     | Dangling \<Rightarrow> Inl UseAfterFree
     | Owns None \<Rightarrow> Inl BadFunctionCall
     | Owns (Some cb) \<Rightarrow> Inr (cb, EVENT_ACCEPT))"

datatype ev_what = EvRead | EvWrite | EvOther

fun ev_of :: "dir \<Rightarrow> ev_what" where
  "ev_of Rd = EvRead"
| "ev_of Wr = EvWrite"

definition take_callback :: "'cb reactor \<Rightarrow> int \<Rightarrow> dir \<Rightarrow>
    (('cb \<times> event_flags) option \<times> 'cb reactor) outcome" where
  "take_callback r fd d =
     and_then (bundle_at r fd) (\<lambda>b.
       case callback d b of
         None \<Rightarrow> Inl AssertionFailed
       | Some cb \<Rightarrow> Inr (Some (cb, flag d), upd_bundle fd (set_callback d None) r))"

definition on_event :: "'cb reactor \<Rightarrow> int \<Rightarrow> ev_what \<Rightarrow>
    (('cb \<times> event_flags) option \<times> 'cb reactor) outcome" where
  "on_event r fd ev = (case ev of
       EvWrite \<Rightarrow> take_callback r fd Wr
     | EvRead \<Rightarrow> take_callback r fd Rd
     | EvOther \<Rightarrow> Inr (None, r))"

text \<open>\<open>event_base_dispatch\<close> delivering one event: it stops waiting and the static callback runs.\<close>

definition dispatch :: "'cb reactor \<Rightarrow> int \<Rightarrow> dir \<Rightarrow>
    (('cb \<times> event_flags) option \<times> 'cb reactor) outcome" where
  "dispatch r fd d = on_event (r\<lparr>lib_calls := (Fired fd d, True) # lib_calls r\<rparr>) fd (ev_of d)"

definition startEventLoop :: "'cb reactor \<Rightarrow> unit outcome" where
  "startEventLoop r = assert_that (pBase r)"

section \<open>The stub over select\<close>

definition select_initReactor :: "int \<Rightarrow> bool" where
  "select_initReactor maxFds = False"

definition select_addEventHandler :: "int \<Rightarrow> event_flags \<Rightarrow> 'cb option \<Rightarrow> bool" where
  "select_addEventHandler fd events cb = False"

definition select_enableEvent :: "int \<Rightarrow> event_flags \<Rightarrow> bool" where
  "select_enableEvent fd events = False"

definition select_disableEvent :: "int \<Rightarrow> event_flags \<Rightarrow> bool" where
  "select_disableEvent fd events = False"

definition select_removeEventHandler :: "int \<Rightarrow> event_flags \<Rightarrow> 'cb option \<Rightarrow> bool" where
  "select_removeEventHandler fd event cb = False"

section \<open>The invariant\<close>

text \<open>
  Whatever event libevent waits for, its bundle is inside the array, has its event object and has
  a callback.
\<close>

definition bundles_ok :: "lib_log \<Rightarrow> 'cb event_bundle list \<Rightarrow> bool" where
  "bundles_ok l bs \<longleftrightarrow> (\<forall>fd d. pending l (fd, d) \<longrightarrow>
     0 \<le> fd \<and> nat fd < length bs \<and> pEvent d (bs ! nat fd) \<and> callback d (bs ! nat fd) \<noteq> None)"

definition reactor_inv :: "'cb reactor \<Rightarrow> bool" where
  "reactor_inv r \<longleftrightarrow>
     (case pEventBundleMap r of Owns bs \<Rightarrow> bundles_ok (lib_calls r) bs | _ \<Rightarrow> False)"

text \<open>The abstract content: the callbacks that wait for an event; and the size of the array.\<close>

definition bundle_handler :: "lib_log \<Rightarrow> 'cb event_bundle list \<Rightarrow> int \<times> dir \<Rightarrow> 'cb option" where
  "bundle_handler l bs = (\<lambda>(fd, d). if pending l (fd, d) then callback d (bs ! nat fd) else None)"

definition reactor_handler :: "'cb reactor \<Rightarrow> int \<times> dir \<Rightarrow> 'cb option" where
  "reactor_handler r =
     (case pEventBundleMap r of Owns bs \<Rightarrow> bundle_handler (lib_calls r) bs | _ \<Rightarrow> (\<lambda>_. None))"

definition reactor_nfds :: "'cb reactor \<Rightarrow> int" where
  "reactor_nfds r = (case pEventBundleMap r of Owns bs \<Rightarrow> int (length bs) | _ \<Rightarrow> 0)"

lemma reactor_invE:
  assumes "reactor_inv r"
  obtains bs where "pEventBundleMap r = Owns bs" "bundles_ok (lib_calls r) bs"
  using assms by (auto simp: reactor_inv_def split: owned.splits)

lemma bundle_fields [simp]:
  "pEvent d (set_pEvent d' v b) = (if d = d' then v else pEvent d b)"
  "pEvent d (set_callback d' cb b) = pEvent d b"
  "callback d (set_pEvent d' v b) = callback d b"
  "callback d (set_callback d' cb b) = (if d = d' then cb else callback d b)"
  by (cases d; cases d'; simp)+

lemma dir_neq [simp]: "Rd \<noteq> d \<longleftrightarrow> d = Wr" "Wr \<noteq> d \<longleftrightarrow> d = Rd"
  by (cases d; simp)+

lemma set_pEvent_same: "pEvent d b \<Longrightarrow> set_pEvent d True b = b"
  by (cases d; cases b; simp)

lemma reactor_same:
  "pEventBundleMap r = m \<Longrightarrow> r\<lparr>pEventBundleMap := m, lib_calls := l\<rparr> = r\<lparr>lib_calls := l\<rparr>"
  by (cases r) simp

text \<open>For one direction \<open>addEventHandler\<close> is the part of that direction.\<close>

lemma addEventHandler_flag:
  "0 \<le> fd \<Longrightarrow> addEventHandler lib r fd (flag d) cb = add_dir lib r fd (flag d) d cb"
  by (cases d; cases "add_dir lib r fd EVENT_READ Rd cb")
    (auto simp: addEventHandler_def add_accept_def add_dir_def)

lemma removeEventHandler_flag:
  "0 \<le> fd \<Longrightarrow> removeEventHandler lib r fd (flag d) =
     and_then (remove_dir lib fd (flag d) d r) (\<lambda>r. Inr (True, r))"
  by (cases d; cases "remove_dir lib fd EVENT_READ Rd r")
    (auto simp: removeEventHandler_def remove_dir_def)

lemma add_dir_Owns:
  assumes "pEventBundleMap r = Owns bs" "0 \<le> fd" "nat fd < length bs"
  shows "\<exists>b l bs'. add_dir lib r fd (flag d) d cb =
      Inr (b, r\<lparr>pEventBundleMap := Owns bs', lib_calls := l\<rparr>) \<and> length bs' = length bs \<and>
    pending l = (if b then (pending (lib_calls r))((fd, d) := True) else pending (lib_calls r)) \<and>
    (\<forall>i d'. i < length bs \<longrightarrow> (pEvent d' (bs ! i) \<longrightarrow> pEvent d' (bs' ! i)) \<and>
      callback d' (bs' ! i) = (if b \<and> i = nat fd \<and> d' = d then cb else callback d' (bs ! i))) \<and>
    (b \<longrightarrow> pEvent d (bs' ! nat fd))"
proof -
  let ?b = "bs ! nat fd"
  have at: "bundle_at r fd = Inr ?b" using assms by (simp add: bundle_at_def)
  let ?l1 = "if pEvent d ?b then lib_calls r else (EventNew fd d, True) # lib_calls r"
  consider (no_event) "\<not> pEvent d ?b" "\<not> lib (lib_calls r) (EventNew fd d)"
    | (no_add) "pEvent d ?b \<or> lib (lib_calls r) (EventNew fd d)" "\<not> lib ?l1 (EventAdd fd d)"
    | (added) "pEvent d ?b \<or> lib (lib_calls r) (EventNew fd d)" "lib ?l1 (EventAdd fd d)"
    by blast
  then show ?thesis
  proof cases
    case no_event
    have "add_dir lib r fd (flag d) d cb = Inr (False, r\<lparr>
        pEventBundleMap := Owns (bs[nat fd := set_pEvent d False ?b]),
        lib_calls := (EventNew fd d, False) # lib_calls r\<rparr>)"
      using no_event assms at by (simp add: add_dir_def lib_do_eq upd_bundle_def)
    moreover have "pending ((EventNew fd d, False) # lib_calls r) = pending (lib_calls r)"
      by (simp add: fun_eq_iff)
    ultimately show ?thesis using no_event(1) assms(3)
      by (intro exI [of _ False] exI [of _ "(EventNew fd d, False) # lib_calls r"]
          exI [of _ "bs[nat fd := set_pEvent d False ?b]"]) (auto simp: nth_list_update)
  next
    case no_add
    have "add_dir lib r fd (flag d) d cb = Inr (False, r\<lparr>
        pEventBundleMap := Owns (bs[nat fd := set_pEvent d True ?b]),
        lib_calls := (EventAdd fd d, False) # ?l1\<rparr>)"
      using no_add assms at
      by (cases "pEvent d ?b")
        (simp_all add: add_dir_def lib_do_eq upd_bundle_def set_pEvent_same reactor_same)
    moreover have "pending ((EventAdd fd d, False) # ?l1) = pending (lib_calls r)"
      by (simp add: fun_eq_iff)
    ultimately show ?thesis using assms(3)
      by (intro exI [of _ False] exI [of _ "(EventAdd fd d, False) # ?l1"]
          exI [of _ "bs[nat fd := set_pEvent d True ?b]"]) (auto simp: nth_list_update)
  next
    case added
    have "add_dir lib r fd (flag d) d cb = Inr (True, r\<lparr>
        pEventBundleMap := Owns (bs[nat fd := set_callback d cb (set_pEvent d True ?b)]),
        lib_calls := (EventAdd fd d, True) # ?l1\<rparr>)"
      using added assms at
      by (cases "pEvent d ?b") (simp_all add: add_dir_def lib_do_eq upd_bundle_def set_pEvent_same)
    moreover have "pending ((EventAdd fd d, True) # ?l1) = (pending (lib_calls r))((fd, d) := True)"
      by (auto simp: fun_eq_iff)
    ultimately show ?thesis using assms(3)
      by (intro exI [of _ True] exI [of _ "(EventAdd fd d, True) # ?l1"]
          exI [of _ "bs[nat fd := set_callback d cb (set_pEvent d True ?b)]"]) (auto simp: nth_list_update)
  qed
qed

lemma bundles_ok_add:
  assumes "bundles_ok l bs" "0 \<le> fd" "nat fd < length bs" "length bs' = length bs" "cb \<noteq> None"
    and "pending l' = (if b then (pending l)((fd, d) := True) else pending l)"
    and "\<forall>i d'. i < length bs \<longrightarrow> (pEvent d' (bs ! i) \<longrightarrow> pEvent d' (bs' ! i)) \<and>
      callback d' (bs' ! i) = (if b \<and> i = nat fd \<and> d' = d then cb else callback d' (bs ! i))"
    and "b \<longrightarrow> pEvent d (bs' ! nat fd)"
  shows "bundles_ok l' bs'"
  unfolding bundles_ok_def
proof (intro allI impI)
  fix fd' d'
  assume "pending l' (fd', d')"
  then consider "b" "fd' = fd" "d' = d" | "pending l (fd', d')" "\<not> (b \<and> fd' = fd \<and> d' = d)"
    using assms(6) by (auto split: if_splits)
  then show "0 \<le> fd' \<and> nat fd' < length bs' \<and> pEvent d' (bs' ! nat fd') \<and>
    callback d' (bs' ! nat fd') \<noteq> None"
  proof cases
    case 1
    with assms show ?thesis by simp
  next
    case 2
    with assms(1) have "0 \<le> fd'" "nat fd' < length bs" "pEvent d' (bs ! nat fd')"
      "callback d' (bs ! nat fd') \<noteq> None" by (auto simp: bundles_ok_def)
    with assms(4,5,7) show ?thesis by simp
  qed
qed

lemma bundle_handler_add:
  assumes "bundles_ok l bs" "0 \<le> fd" "nat fd < length bs"
    and "pending l' = (if b then (pending l)((fd, d) := True) else pending l)"
    and "\<forall>i d'. i < length bs \<longrightarrow>
      callback d' (bs' ! i) = (if b \<and> i = nat fd \<and> d' = d then cb else callback d' (bs ! i))"
  shows "bundle_handler l' bs' = (if b then (bundle_handler l bs)((fd, d) := cb) else bundle_handler l bs)"
proof (rule ext, clarify)
  fix fd' d'
  have "0 \<le> fd' \<and> nat fd' < length bs" if "pending l (fd', d')"
    using assms(1) that by (auto simp: bundles_ok_def)
  with assms(2-) show "bundle_handler l' bs' (fd', d') =
      (if b then (bundle_handler l bs)((fd, d) := cb) else bundle_handler l bs) (fd', d')"
    by (auto simp: bundle_handler_def nat_eq_iff)
qed

lemma reactor_add:
  assumes "reactor_inv r" "0 \<le> fd" "fd < reactor_nfds r"
  shows "\<exists>b r'. addEventHandler lib r fd (flag d) (Some cb) = Inr (b, r') \<and> reactor_inv r' \<and>
    reactor_nfds r' = reactor_nfds r \<and>
    reactor_handler r' = (if b then (reactor_handler r)((fd, d) \<mapsto> cb) else reactor_handler r)"
proof -
  from assms(1) obtain bs where bs: "pEventBundleMap r = Owns bs" "bundles_ok (lib_calls r) bs"
    by (rule reactor_invE)
  have fd: "nat fd < length bs" using assms(2,3) bs(1) by (simp add: reactor_nfds_def nat_less_iff)
  from add_dir_Owns [OF bs(1) assms(2) fd, of lib d "Some cb"] obtain b l bs' where
    run: "add_dir lib r fd (flag d) d (Some cb) = Inr (b, r\<lparr>pEventBundleMap := Owns bs', lib_calls := l\<rparr>)"
    and len: "length bs' = length bs"
    and pend: "pending l = (if b then (pending (lib_calls r))((fd, d) := True) else pending (lib_calls r))"
    and keep: "\<forall>i d'. i < length bs \<longrightarrow> (pEvent d' (bs ! i) \<longrightarrow> pEvent d' (bs' ! i)) \<and>
      callback d' (bs' ! i) = (if b \<and> i = nat fd \<and> d' = d then Some cb else callback d' (bs ! i))"
    and ev: "b \<longrightarrow> pEvent d (bs' ! nat fd)" by blast
  have "bundles_ok l bs'"
    using bundles_ok_add [OF bs(2) assms(2) fd len _ pend keep ev] by simp
  moreover have "bundle_handler l bs' = (if b then (bundle_handler (lib_calls r) bs)((fd, d) \<mapsto> cb)
      else bundle_handler (lib_calls r) bs)"
    using bundle_handler_add [OF bs(2) assms(2) fd pend, of bs' "Some cb"] keep by blast
  ultimately show ?thesis using run bs(1) assms(2) len
    by (simp add: addEventHandler_flag reactor_inv_def reactor_nfds_def reactor_handler_def)
qed

text \<open>What a delivery and a removal have in common: one direction of one bundle is dropped.\<close>

lemma bundles_drop:
  assumes "bundles_ok l bs" "0 \<le> fd" "nat fd < length bs"
    and "pending l' = (pending l)((fd, d) := False)"
    and "\<And>d'. d' \<noteq> d \<Longrightarrow> pEvent d' b' = pEvent d' (bs ! nat fd) \<and>
      callback d' b' = callback d' (bs ! nat fd)"
  shows "bundles_ok l' (bs[nat fd := b']) \<and>
    bundle_handler l' (bs[nat fd := b']) = (bundle_handler l bs)((fd, d) := None)"
proof -
  let ?bs = "bs[nat fd := b']"
  have same: "0 \<le> fd' \<and> nat fd' < length bs \<and> pEvent d' (bs ! nat fd') \<and>
      callback d' (bs ! nat fd') \<noteq> None \<and> pEvent d' (?bs ! nat fd') = pEvent d' (bs ! nat fd') \<and>
      callback d' (?bs ! nat fd') = callback d' (bs ! nat fd')"
    if "pending l (fd', d')" "(fd', d') \<noteq> (fd, d)" for fd' d'
  proof -
    have in_range: "0 \<le> fd'" "nat fd' < length bs" "pEvent d' (bs ! nat fd')"
      "callback d' (bs ! nat fd') \<noteq> None"
      using assms(1) that(1) unfolding bundles_ok_def by blast+
    with that assms(2,3) assms(5) [of d'] show ?thesis
      by (cases "fd' = fd") (auto simp: nth_list_update_neq nat_eq_iff)
  qed
  have "bundles_ok l' ?bs" using same by (auto simp: bundles_ok_def assms(4))
  moreover have "bundle_handler l' ?bs = (bundle_handler l bs)((fd, d) := None)"
  proof (rule ext, clarify)
    fix fd' d'
    show "bundle_handler l' ?bs (fd', d') = ((bundle_handler l bs)((fd, d) := None)) (fd', d')"
      using same [of fd' d'] assms(4) by (auto simp: bundle_handler_def)
  qed
  ultimately show ?thesis by blast
qed

lemma reactor_fire:
  assumes "reactor_inv r" "reactor_handler r (fd, d) = Some cb"
  shows "\<exists>r'. dispatch r fd d = Inr (Some (cb, flag d), r') \<and> reactor_inv r' \<and>
    reactor_nfds r' = reactor_nfds r \<and> reactor_handler r' = (reactor_handler r)((fd, d) := None)"
proof -
  from assms(1) obtain bs where bs: "pEventBundleMap r = Owns bs" "bundles_ok (lib_calls r) bs"
    by (rule reactor_invE)
  have p: "pending (lib_calls r) (fd, d)" "callback d (bs ! nat fd) = Some cb"
    using assms(2) bs(1) by (auto simp: reactor_handler_def bundle_handler_def split: if_splits)
  with bs(2) have fd: "0 \<le> fd" "nat fd < length bs" by (auto simp: bundles_ok_def)
  let ?bs = "bs[nat fd := set_callback d None (bs ! nat fd)]"
  let ?r = "r\<lparr>pEventBundleMap := Owns ?bs, lib_calls := (Fired fd d, True) # lib_calls r\<rparr>"
  have run: "dispatch r fd d = Inr (Some (cb, flag d), ?r)"
    using bs(1) p(2) fd
    by (cases d) (simp_all add: dispatch_def on_event_def take_callback_def bundle_at_def upd_bundle_def)
  have "pending (lib_calls ?r) = (pending (lib_calls r))((fd, d) := False)"
    by (auto simp: fun_eq_iff)
  from bundles_drop [OF bs(2) fd this, of "set_callback d None (bs ! nat fd)"] show ?thesis
    using run bs(1) by (simp add: reactor_nfds_def reactor_inv_def reactor_handler_def)
qed

lemma reactor_remove:
  assumes "reactor_inv r" "0 \<le> fd" "fd < reactor_nfds r"
    and "removeEventHandler lib r fd (flag d) = Inr (b, r')"
  shows "b \<and> reactor_inv r' \<and> reactor_nfds r' = reactor_nfds r \<and>
    reactor_handler r' = (reactor_handler r)((fd, d) := None)"
proof -
  from assms(1) obtain bs where bs: "pEventBundleMap r = Owns bs" "bundles_ok (lib_calls r) bs"
    by (rule reactor_invE)
  have fd: "nat fd < length bs" using assms(2,3) bs(1) by (simp add: reactor_nfds_def nat_less_iff)
  have run: "b" "remove_dir lib fd (flag d) d r = Inr r'"
    using assms(2,4) by (auto simp: removeEventHandler_flag and_then_Inr_iff)
  show ?thesis
  proof (cases "pEvent d (bs ! nat fd)")
    case False
    with bs fd assms(2) have "\<not> pending (lib_calls r) (fd, d)" by (auto simp: bundles_ok_def)
    with False run bs fd assms(1,2) show ?thesis
      by (auto simp: remove_dir_def bundle_at_def reactor_handler_def bundle_handler_def fun_eq_iff)
  next
    case True
    let ?bs = "bs[nat fd := set_pEvent d False (bs ! nat fd)]"
    have ok: "lib (lib_calls r) (EventDel fd d)"
      using run(2) True bs fd assms(2)
      by (cases "lib (lib_calls r) (EventDel fd d)") (auto simp: remove_dir_def bundle_at_def lib_do_eq Let_def)
    define ok' where "ok' = lib ((EventDel fd d, True) # lib_calls r) (EventFree fd d)"
    from ok have r': "r' =
        r\<lparr>lib_calls := (EventFree fd d, ok') # (EventDel fd d, True) # lib_calls r,
          pEventBundleMap := Owns ?bs\<rparr>"
      using run(2) True bs fd assms(2)
      by (simp add: remove_dir_def bundle_at_def lib_do_eq upd_bundle_def ok'_def eq_commute [of r'])
    have "pending (lib_calls r') = (pending (lib_calls r))((fd, d) := False)"
      by (auto simp: fun_eq_iff r')
    from bundles_drop [OF bs(2) assms(2) fd this, of "set_pEvent d False (bs ! nat fd)"] show ?thesis
      using run(1) bs(1) by (simp add: r' reactor_nfds_def reactor_inv_def reactor_handler_def)
  qed
qed

text \<open>The reactor keeps the contract of \<open>EventReactor\<close>, whatever libevent answers.\<close>

interpretation lev: event_reactor
  "\<lambda>r fd ev cb. addEventHandler lib r fd ev (Some cb)" "removeEventHandler lib" dispatch
  reactor_handler reactor_nfds reactor_inv for lib
  by unfold_locales (rule reactor_add reactor_fire reactor_remove; assumption)+

text \<open>Libevent creates and adds events without failing.\<close>

definition lib_adds :: "libevent \<Rightarrow> bool" where
  "lib_adds lib \<longleftrightarrow> (\<forall>l fd d. lib l (EventNew fd d) \<and> lib l (EventAdd fd d))"

lemma lib_adds_add:
  assumes "lib_adds lib" "reactor_inv r" "0 \<le> fd" "fd < reactor_nfds r"
  shows "\<exists>r'. addEventHandler lib r fd (flag d) (Some cb) = Inr (True, r')"
proof -
  from assms(2) obtain bs where bs: "pEventBundleMap r = Owns bs" by (rule reactor_invE)
  with assms(3,4) have "nat fd < length bs" by (simp add: reactor_nfds_def nat_less_iff)
  with bs assms(1,3) show ?thesis
    by (simp add: addEventHandler_flag add_dir_def bundle_at_def lib_do_eq lib_adds_def)
qed

lemma lib_adds_True: "lib_adds (\<lambda>_ _. True)"
  by (simp add: lib_adds_def)

text \<open>Libevent removes events without failing.\<close>

definition lib_removes :: "libevent \<Rightarrow> bool" where
  "lib_removes lib \<longleftrightarrow> (\<forall>l fd d. lib l (EventDel fd d))"

lemma lib_removes_remove:
  assumes "lib_removes lib" "reactor_inv r" "0 \<le> fd" "fd < reactor_nfds r"
  shows "\<exists>r'. removeEventHandler lib r fd (flag d) = Inr (True, r')"
proof -
  from assms(2) obtain bs where bs: "pEventBundleMap r = Owns bs" by (rule reactor_invE)
  with assms(3,4) have "nat fd < length bs" by (simp add: reactor_nfds_def nat_less_iff)
  with bs assms(1,3) show ?thesis
    by (simp add: removeEventHandler_flag remove_dir_def bundle_at_def lib_do_eq lib_removes_def)
qed

lemma initReactor_ok:
  assumes "initReactor lib r n = Inr (True, r')" "\<forall>k. \<not> pending (lib_calls r) k"
  shows "reactor_inv r' \<and> reactor_nfds r' = n \<and> reactor_handler r' = (\<lambda>_. None)"
  using assms
  by (auto simp: initReactor_def and_then_Inr_iff lib_do_eq reactor_inv_def bundles_ok_def
      reactor_nfds_def reactor_handler_def bundle_handler_def Let_def split: if_splits)

section \<open>Runs of a reactor\<close>

text \<open>
  From a fresh reactor, initialised for \<open>n\<close> descriptors: registrations and removals of handlers
  for either direction, and deliveries of events libevent waits for, in any order.
\<close>

inductive reactor_reach :: "libevent \<Rightarrow> int \<Rightarrow> 'cb reactor \<Rightarrow> bool" for lib n where
  start: "initReactor lib new_LibeventReactor n = Inr (True, r) \<Longrightarrow> reactor_reach lib n r"
| add: "reactor_reach lib n r \<Longrightarrow> 0 \<le> fd \<Longrightarrow> fd < n \<Longrightarrow>
    addEventHandler lib r fd (flag d) (Some cb) = Inr (b, r') \<Longrightarrow> reactor_reach lib n r'"
| remove: "reactor_reach lib n r \<Longrightarrow> 0 \<le> fd \<Longrightarrow> fd < n \<Longrightarrow>
    removeEventHandler lib r fd (flag d) = Inr (b, r') \<Longrightarrow> reactor_reach lib n r'"
| fire: "reactor_reach lib n r \<Longrightarrow> pending (lib_calls r) (fd, d) \<Longrightarrow>
    dispatch r fd d = Inr (x, r') \<Longrightarrow> reactor_reach lib n r'"

lemma handler_pending:
  assumes "reactor_inv r" "pending (lib_calls r) (fd, d)"
  shows "\<exists>cb. reactor_handler r (fd, d) = Some cb"
proof -
  from assms(1) obtain bs where "pEventBundleMap r = Owns bs" "bundles_ok (lib_calls r) bs"
    by (rule reactor_invE)
  with assms(2) show ?thesis by (auto simp: bundles_ok_def reactor_handler_def bundle_handler_def)
qed

lemma reactor_reach_inv: "reactor_reach lib n r \<Longrightarrow> reactor_inv r \<and> reactor_nfds r = n"
proof (induction rule: reactor_reach.induct)
  case (start r)
  then show ?case using initReactor_ok [OF start] by (simp add: new_LibeventReactor_def)
next
  case (add r fd d cb b r')
  then show ?case using lev.add_law [of r fd lib d cb] by auto
next
  case (remove r fd d b r')
  then show ?case using lev.rem_law [of r fd lib d b r'] by auto
next
  case (fire r fd d x r')
  then show ?case using handler_pending [of r fd d] lev.fire_law [of r fd d] by fastforce
qed

text \<open>
  The same runs with their history, newest operation first: a registration with the callback and
  with what \<open>addEventHandler\<close> returned, a removal, a delivery. \<open>last_registered\<close> reads from the
  history alone which callback a descriptor and direction waits with.
\<close>

datatype 'cb reactor_op = Registered int dir 'cb bool | Removed int dir | Delivered int dir

fun last_registered :: "'cb reactor_op list \<Rightarrow> int \<times> dir \<Rightarrow> 'cb option" where
  "last_registered [] k = None"
| "last_registered (Registered fd d cb ok # ops) k =
     (if ok \<and> (fd, d) = k then Some cb else last_registered ops k)"
| "last_registered (Removed fd d # ops) k = (if (fd, d) = k then None else last_registered ops k)"
| "last_registered (Delivered fd d # ops) k = (if (fd, d) = k then None else last_registered ops k)"

inductive reactor_run :: "libevent \<Rightarrow> int \<Rightarrow> 'cb reactor_op list \<Rightarrow> 'cb reactor \<Rightarrow> bool" for lib n where
  start: "initReactor lib new_LibeventReactor n = Inr (True, r) \<Longrightarrow> reactor_run lib n [] r"
| add: "reactor_run lib n ops r \<Longrightarrow> 0 \<le> fd \<Longrightarrow> fd < n \<Longrightarrow>
    addEventHandler lib r fd (flag d) (Some cb) = Inr (b, r') \<Longrightarrow>
    reactor_run lib n (Registered fd d cb b # ops) r'"
| remove: "reactor_run lib n ops r \<Longrightarrow> 0 \<le> fd \<Longrightarrow> fd < n \<Longrightarrow>
    removeEventHandler lib r fd (flag d) = Inr (b, r') \<Longrightarrow> reactor_run lib n (Removed fd d # ops) r'"
| fire: "reactor_run lib n ops r \<Longrightarrow> pending (lib_calls r) (fd, d) \<Longrightarrow>
    dispatch r fd d = Inr (x, r') \<Longrightarrow> reactor_run lib n (Delivered fd d # ops) r'"

lemma reactor_run_inv:
  "reactor_run lib n ops r \<Longrightarrow>
     reactor_inv r \<and> reactor_nfds r = n \<and> reactor_handler r = last_registered ops"
proof (induction rule: reactor_run.induct)
  case (start r)
  then show ?case using initReactor_ok [OF start] by (simp add: new_LibeventReactor_def fun_eq_iff)
next
  case (add ops r fd d cb b r')
  then show ?case using lev.add_law [of r fd lib d cb] by (auto simp: fun_eq_iff)
next
  case (remove ops r fd d b r')
  then show ?case using lev.rem_law [of r fd lib d b r'] by (auto simp: fun_eq_iff)
next
  case (fire ops r fd d x r')
  then show ?case using handler_pending [of r fd d] lev.fire_law [of r fd d] by (fastforce simp: fun_eq_iff)
qed

lemma not_pending_handler:
  "\<not> pending (lib_calls r) k \<Longrightarrow> reactor_handler r k = None"
  by (cases k) (auto simp: reactor_handler_def bundle_handler_def split: owned.splits)

section \<open>Properties\<close>

text \<open>
  C20: Every event libevent delivers calls the callback registered last. After any sequence of
  registrations, removals and deliveries, libevent waits for an event of a descriptor exactly if
  the history has a registration of it that succeeded and that no removal and no delivery of it
  has followed. Delivering the event then neither fails the assertion in \<open>__onEvent\<close> nor leaves
  the array of bundles: the callback of the latest such registration is called, with the flag of
  its direction, and libevent waits for the event no longer.
\<close>

theorem event_finds_callback:
  assumes "reactor_run lib n ops r"
  shows "(pending (lib_calls r) (fd, d) \<longleftrightarrow> last_registered ops (fd, d) \<noteq> None) \<and>
    (\<forall>cb. last_registered ops (fd, d) = Some cb \<longrightarrow>
       (\<exists>r'. dispatch r fd d = Inr (Some (cb, flag d), r') \<and>
          reactor_run lib n (Delivered fd d # ops) r' \<and> \<not> pending (lib_calls r') (fd, d)))"
proof -
  have inv: "reactor_inv r" "reactor_handler r = last_registered ops"
    using reactor_run_inv [OF assms] by auto
  have iff: "pending (lib_calls r) (fd, d) \<longleftrightarrow> last_registered ops (fd, d) \<noteq> None"
    using handler_pending [OF inv(1), of fd d] not_pending_handler [of r "(fd, d)"] inv(2) by fastforce
  have "\<exists>r'. dispatch r fd d = Inr (Some (cb, flag d), r') \<and>
      reactor_run lib n (Delivered fd d # ops) r' \<and> \<not> pending (lib_calls r') (fd, d)"
    if cb: "last_registered ops (fd, d) = Some cb" for cb
  proof -
    obtain r' where r': "dispatch r fd d = Inr (Some (cb, flag d), r')" "reactor_inv r'"
      "reactor_handler r' = (reactor_handler r)((fd, d) := None)"
      using lev.fire_law [OF inv(1), of fd d cb] cb inv(2) by auto
    have "reactor_run lib n (Delivered fd d # ops) r'"
      using reactor_run.fire [OF assms _ r'(1)] iff cb by simp
    with r' handler_pending [OF r'(2), of fd d] show ?thesis by auto
  qed
  with iff show ?thesis by blast
qed

text \<open>A libevent whose calls all succeed; a read handler registered for descriptor 3.\<close>

definition reactor_example :: "string reactor" where
  "reactor_example = \<lparr>pBase = True, pListener = False, sin_port = None,
     pEventBundleMap = Owns ((replicate 5 new_EventBundle)[3 := new_EventBundle\<lparr>pReadEvent := True,
       readCallback := Some ''recv''\<rparr>]), pAcceptCallback = Null,
     lib_calls = [(EventAdd 3 Rd, True), (EventNew 3 Rd, True), (EventBaseNew, True)]\<rparr>"

lemma reactor_example_reach: "reactor_reach (\<lambda>_ _. True) 5 reactor_example"
proof -
  let ?r = "new_LibeventReactor\<lparr>pBase := True, pEventBundleMap := Owns (replicate 5 new_EventBundle),
    lib_calls := [(EventBaseNew, True)]\<rparr> :: string reactor"
  have "reactor_reach (\<lambda>_ _. True) 5 ?r"
    by (rule reactor_reach.start) (simp add: initReactor_def lib_do_eq new_LibeventReactor_def)
  from reactor_reach.add [OF this, of 3 Rd "''recv''" True reactor_example] show ?thesis
    by (simp add: reactor_example_def addEventHandler_def add_accept_def add_dir_def lib_do_eq
        bundle_at_def upd_bundle_def new_LibeventReactor_def
        new_EventBundle_def)
qed

text \<open>Registered for reading with one callback, then with another: the second one is called.\<close>

theorem event_finds_callback_witness:
  "\<exists>r r'. reactor_run (\<lambda>_ _. True) 5 [Registered 3 Rd ''again'' True, Registered 3 Rd ''recv'' True] r \<and>
     dispatch r 3 Rd = Inr (Some (''again'', EVENT_READ), r')"
proof -
  let ?r = "new_LibeventReactor\<lparr>pBase := True, pEventBundleMap := Owns (replicate 5 new_EventBundle),
    lib_calls := [(EventBaseNew, True)]\<rparr> :: string reactor"
  have "reactor_run (\<lambda>_ _. True) 5 [] ?r"
    by (rule reactor_run.start) (simp add: initReactor_def lib_do_eq new_LibeventReactor_def)
  from reactor_run.add [OF this, of 3 Rd "''recv''" True reactor_example]
  have run: "reactor_run (\<lambda>_ _. True) 5 [Registered 3 Rd ''recv'' True] reactor_example"
    by (simp add: reactor_example_def addEventHandler_def add_accept_def add_dir_def lib_do_eq
        bundle_at_def upd_bundle_def new_LibeventReactor_def new_EventBundle_def)
  have inv: "reactor_inv reactor_example" "reactor_nfds reactor_example = 5"
    using reactor_reach_inv [OF reactor_example_reach] by auto
  obtain r where "addEventHandler (\<lambda>_ _. True) reactor_example 3 (flag Rd) (Some ''again'') = Inr (True, r)"
    using lib_adds_add [OF lib_adds_True inv(1), of 3 Rd "''again''"] inv(2) by auto
  from reactor_run.add [OF run _ _ this]
  have "reactor_run (\<lambda>_ _. True) 5 [Registered 3 Rd ''again'' True, Registered 3 Rd ''recv'' True] r"
    by simp
  with event_finds_callback [OF this, of 3 Rd] show ?thesis by auto
qed

text \<open>
  \<open>addEventHandler\<close> on a direction of a descriptor inside the array. If it returns true, the
  next event of that descriptor and direction calls this callback, replacing an earlier one; if
  it returns false, no registration has changed. It never fails for another reason.
\<close>

theorem addEventHandler_registers:
  assumes "reactor_reach lib n r" "0 \<le> fd" "fd < n"
  shows "\<exists>b r'. addEventHandler lib r fd (flag d) (Some cb) = Inr (b, r') \<and>
    reactor_handler r' = (if b then (reactor_handler r)((fd, d) \<mapsto> cb) else reactor_handler r) \<and>
    (b \<longrightarrow> (\<exists>r''. dispatch r' fd d = Inr (Some (cb, flag d), r'')))"
proof -
  have inv: "reactor_inv r" "fd < reactor_nfds r" using reactor_reach_inv [OF assms(1)] assms(3) by auto
  obtain b r' where r': "addEventHandler lib r fd (flag d) (Some cb) = Inr (b, r')"
    "reactor_handler r' = (if b then (reactor_handler r)((fd, d) \<mapsto> cb) else reactor_handler r)"
    using lev.add_law [OF inv(1) assms(2) inv(2), of lib d cb] by blast
  moreover have "\<exists>r''. dispatch r' fd d = Inr (Some (cb, flag d), r'')" if b
    using lev.add_fire [OF inv(1) assms(2) inv(2), of lib d cb r'] r'(1) that by auto
  ultimately show ?thesis by blast
qed

theorem addEventHandler_registers_witness:
  "\<exists>b r'. addEventHandler (\<lambda>_ _. True) reactor_example 3 EVENT_WRITE (Some ''send'') = Inr (b, r')"
  using addEventHandler_registers [OF reactor_example_reach, of 3 Wr "''send''"] by auto

text \<open>
  C31: Destroying a reactor twice releases its array of bundles twice. \<open>InteractiveTask::__stop\<close>
  calls \<open>destroyReactor\<close>, and the destructor of the reactor calls it again; the pointers to the
  bundles and to the accept callback are not reset in between. This holds for every reactor that
  was initialised, whatever libevent answers.
\<close>

theorem destroy_twice_double_free:
  assumes "reactor_reach lib n r" "destroyReactor lib r = Inr r'"
  shows "delete_LibeventReactor lib r' = Inl DoubleFree"
proof -
  from reactor_reach_inv [OF assms(1)] obtain bs where "pEventBundleMap r = Owns bs"
    by (auto elim: reactor_invE)
  with assms(2) have "pEventBundleMap r' = Dangling"
    by (auto simp: destroyReactor_def Let_def and_then_Inr_iff lib_do_eq
        split: owned.splits if_splits)
  then show ?thesis
    by (auto simp: delete_LibeventReactor_def destroyReactor_def Let_def and_then_def lib_do_eq
        split: owned.splits sum.splits)
qed

theorem destroy_twice_double_free_witness:
  "\<exists>r'. destroyReactor (\<lambda>_ _. True) reactor_example = Inr r' \<and>
     delete_LibeventReactor (\<lambda>_ _. True) r' = Inl DoubleFree"
proof -
  obtain r' where "destroyReactor (\<lambda>_ _. True) reactor_example = Inr r'"
    by (simp add: destroyReactor_def reactor_example_def lib_do_eq Let_def)
  with destroy_twice_double_free [OF reactor_example_reach this] show ?thesis by blast
qed

text \<open>
  A listener that could not be created is never tried again: after \<open>addEventHandler\<close> has
  returned false for \<open>EVENT_ACCEPT\<close>, a second call returns true, although it makes no call of
  libevent and there is no listener.
\<close>

theorem accept_retry_reports_success:
  assumes "0 \<le> fd" "pAcceptCallback r = Null"
    and "addEventHandler lib r fd EVENT_ACCEPT cb = Inr (False, r')"
  shows "addEventHandler lib r' fd EVENT_ACCEPT cb' = Inr (True, r') \<and> \<not> pListener r'"
  using assms by (auto simp: addEventHandler_def add_accept_def add_dir_def lib_do_eq Let_def
      split: if_splits)

theorem accept_retry_reports_success_witness:
  "\<exists>r'. addEventHandler (\<lambda>_ c. c \<noteq> ListenerNew None) reactor_example 0 EVENT_ACCEPT (Some ''acc'')
       = Inr (False, r') \<and>
     addEventHandler (\<lambda>_ c. c \<noteq> ListenerNew None) r' 0 EVENT_ACCEPT (Some ''acc'') = Inr (True, r')"
proof -
  obtain r' where
    "addEventHandler (\<lambda>_ c. c \<noteq> ListenerNew None) reactor_example 0 EVENT_ACCEPT (Some ''acc'')
       = Inr (False, r')"
    by (simp add: addEventHandler_def add_accept_def lib_do_eq reactor_example_def)
  with accept_retry_reports_success [OF _ _ this] show ?thesis by (auto simp: reactor_example_def)
qed

end
