(* ===== verification/TaskLifecycle.thy ===== *)
theory TaskLifecycle
  imports MessageCenter LibeventReactor
begin

text \<open>
  The life of an \<open>InteractiveTask\<close> (\<open>multi-threading/InteractiveTask.cpp\<close>): \<open>start\<close>,
  \<open>__stop\<close> and the registration at the message center. The virtual functions \<open>onStart\<close> and
  \<open>onStop\<close> and the running of the loop, whose rounds are those of \<open>InteractiveTask\<close>, are
  arguments; so are the results of the system calls.
\<close>

section \<open>The environment of a task\<close>

text \<open>
  The task object, its reactor (used if the task has one), the message center, the name of the
  thread that runs the task, and the descriptors closed so far.
\<close>

record ('m, 'cb) tenv =
  te_task :: "'m itask"
  te_reactor :: "'cb reactor"
  te_map :: task_map
  te_thread :: string
  te_closed :: "int list"

type_synonym ('m, 'cb) hook = "('m, 'cb) tenv \<Rightarrow> ('m, 'cb) tenv outcome"

definition NORMAL_THREAD_NAME :: string where
  "NORMAL_THREAD_NAME = ''availible''"

definition MAX_CLIENT_NUM :: int where
  "MAX_CLIENT_NUM = 60000"

section \<open>start and stop\<close>

text \<open>\<open>assert(Utils::setThreadName(name))\<close>; \<open>prctl\<close> gives the result of the system call.\<close>

definition it_setThreadName :: "(string \<Rightarrow> int) \<Rightarrow> string \<Rightarrow> ('m, 'cb) hook" where
  "it_setThreadName prctl name env =
     and_then (assert_that (setThreadName (prctl name) name)) (\<lambda>_. Inr (env\<lparr>te_thread := name\<rparr>))"

definition registToMsgCenter :: "(string \<Rightarrow> size_t) \<Rightarrow> nat \<Rightarrow> ('m, 'cb) tenv \<Rightarrow>
    bool \<times> ('m, 'cb) tenv" where
  "registToMsgCenter hasher me env =
     (case registerTask hasher (te_map env) (it_name (te_task env)) me of
        (ok, tm) \<Rightarrow> (ok, env\<lparr>te_map := tm\<rparr>))"

definition unregistToMsgCenter :: "(string \<Rightarrow> size_t) \<Rightarrow> ('m, 'cb) tenv \<Rightarrow> ('m, 'cb) tenv" where
  "unregistToMsgCenter hasher env =
     env\<lparr>te_map := unregisterTask hasher (te_map env) (it_name (te_task env))\<rparr>"

text \<open>
  \<open>start\<close> up to the call of \<open>onStart\<close>: the thread's name, the event descriptor, the state, the
  reactor with the handler of the task's own messages (the result of \<open>addEventHandler\<close> is not
  looked at), and only then the registration.
\<close>

definition it_prepare :: "(string \<Rightarrow> int) \<Rightarrow> int \<Rightarrow> libevent \<Rightarrow> (string \<Rightarrow> size_t) \<Rightarrow> nat \<Rightarrow> 'cb \<Rightarrow>
    ('m, 'cb) hook" where
  "it_prepare prctl efd lib hasher me onMsg env =
     and_then (it_setThreadName prctl (it_name (te_task env)) env) (\<lambda>env.
     let env = env\<lparr>te_task := (te_task env)\<lparr>it_eventFd := createEventFd efd\<rparr>\<rparr> in
     and_then (assert_that (it_eventFd (te_task env) > 0)) (\<lambda>_.
     let env = env\<lparr>te_task := setStat (te_task env) RUNNING\<rparr> in
     and_then
       (if it_hasReactor (te_task env)
        then and_then (initReactor lib (te_reactor env) MAX_CLIENT_NUM) (\<lambda>(ok, r).
             and_then (assert_that ok) (\<lambda>_.
             and_then (addEventHandler lib r (it_eventFd (te_task env)) EVENT_READ (Some onMsg))
               (\<lambda>(_, r). Inr (env\<lparr>te_reactor := r\<rparr>))))
        else Inr env) (\<lambda>env.
     case registToMsgCenter hasher me env of (ok, env) \<Rightarrow>
       and_then (assert_that ok) (\<lambda>_. Inr env))))"

definition it_stop :: "(string \<Rightarrow> int) \<Rightarrow> libevent \<Rightarrow> (string \<Rightarrow> size_t) \<Rightarrow> ('m, 'cb) hook \<Rightarrow>
    ('m, 'cb) hook" where
  "it_stop prctl lib hasher onStop env =
     and_then (onStop env) (\<lambda>env.
     and_then (it_setThreadName prctl NORMAL_THREAD_NAME (unregistToMsgCenter hasher env)) (\<lambda>env.
     and_then
       (if it_hasReactor (te_task env)
        then and_then (destroyReactor lib (te_reactor env)) (\<lambda>r. Inr (env\<lparr>te_reactor := r\<rparr>))
        else Inr env) (\<lambda>env.
       if it_eventFd (te_task env) > 0
       then Inr (env\<lparr>te_task := (te_task env)\<lparr>it_eventFd := -1\<rparr>,
              te_closed := it_eventFd (te_task env) # te_closed env\<rparr>)
       else Inr env)))"

text \<open>\<open>startEventLoop\<close> asserts that there is an event base; \<open>loop\<close> is what happens until it
  returns.\<close>

definition it_start :: "(string \<Rightarrow> int) \<Rightarrow> int \<Rightarrow> libevent \<Rightarrow> (string \<Rightarrow> size_t) \<Rightarrow> nat \<Rightarrow> 'cb \<Rightarrow>
    ('m, 'cb) hook \<Rightarrow> ('m, 'cb) hook \<Rightarrow> ('m, 'cb) hook \<Rightarrow> ('m, 'cb) hook" where
  "it_start prctl efd lib hasher me onMsg onStart loop onStop env =
     and_then (it_prepare prctl efd lib hasher me onMsg env) (\<lambda>env.
     and_then (onStart env) (\<lambda>env.
     and_then (if it_hasReactor (te_task env) then startEventLoop (te_reactor env) else Inr ()) (\<lambda>_.
     and_then (loop env) (\<lambda>env.
       it_stop prctl lib hasher onStop (env\<lparr>te_task := setStat (te_task env) STOPPED\<rparr>)))))"

section \<open>Properties\<close>

text \<open>What has to hold for a task to come up.\<close>

definition can_start :: "(string \<Rightarrow> int) \<Rightarrow> int \<Rightarrow> libevent \<Rightarrow> (string \<Rightarrow> size_t) \<Rightarrow> ('m, 'cb) tenv \<Rightarrow>
    bool" where
  "can_start prctl efd lib hasher env \<longleftrightarrow>
     length (it_name (te_task env)) \<le> 15 \<and> prctl (it_name (te_task env)) = 0 \<and> 0 < efd \<and>
     (it_hasReactor (te_task env) \<longrightarrow> lib (lib_calls (te_reactor env)) EventBaseNew) \<and>
     chm_find hasher (te_map env) (it_name (te_task env)) = None"

lemma addEventHandler_keeps:
  "addEventHandler lib r fd EVENT_READ cb = Inr (b, r') \<Longrightarrow>
     pBase r' = pBase r \<and> pAcceptCallback r' = pAcceptCallback r \<and> sin_port r' = sin_port r"
  by (auto simp: addEventHandler_def add_accept_def add_dir_def lib_do_eq upd_bundle_def and_then_Inr_iff
      Let_def split: if_splits prod.splits owned.splits)

text \<open>The reactor part of \<open>start\<close>, for a descriptor inside its array.\<close>

lemma prepare_reactor:
  assumes "efd < MAX_CLIENT_NUM" "0 < efd" "\<forall>k. \<not> pending (lib_calls r) k"
    and "lib (lib_calls r) EventBaseNew"
  shows "\<exists>r1 b r2. initReactor lib r MAX_CLIENT_NUM = Inr (True, r1) \<and>
    addEventHandler lib r1 efd EVENT_READ (Some cb) = Inr (b, r2) \<and> reactor_inv r2 \<and>
    reactor_nfds r2 = MAX_CLIENT_NUM \<and> (lib_adds lib \<longrightarrow> reactor_handler r2 (efd, Rd) = Some cb) \<and>
    pBase r2 \<and> pAcceptCallback r2 = pAcceptCallback r \<and> sin_port r2 = sin_port r"
proof -
  obtain r1 where r1: "initReactor lib r MAX_CLIENT_NUM = Inr (True, r1)"
    "pBase r1" "pAcceptCallback r1 = pAcceptCallback r" "sin_port r1 = sin_port r"
    using assms(4) by (simp add: initReactor_def MAX_CLIENT_NUM_def lib_do_eq)
  from initReactor_ok [OF this(1) assms(3)] have inv: "reactor_inv r1" "reactor_nfds r1 = MAX_CLIENT_NUM"
    by auto
  from lev.add_law [OF inv(1), of efd lib Rd cb] inv(2) assms(1,2)
  obtain b r2 where "addEventHandler lib r1 efd EVENT_READ (Some cb) = Inr (b, r2)" "reactor_inv r2"
    "reactor_nfds r2 = MAX_CLIENT_NUM"
    "reactor_handler r2 = (if b then (reactor_handler r1)((efd, Rd) \<mapsto> cb) else reactor_handler r1)"
    by auto
  moreover from this(1) have "pBase r2 = pBase r1" "pAcceptCallback r2 = pAcceptCallback r1"
    "sin_port r2 = sin_port r1"
    using addEventHandler_keeps by blast+
  ultimately show ?thesis
    using r1 lib_adds_add [OF _ inv(1), of lib efd Rd cb] inv(2) assms(1,2) by auto
qed

text \<open>
  What a task relies on between its preparation and its stop: the task keeps its name, its
  descriptor and whether it has a reactor; the message center and the reactor stay well formed.
\<close>

definition task_kept :: "(string \<Rightarrow> size_t) \<Rightarrow> ('m, 'cb) tenv \<Rightarrow> ('m, 'cb) tenv \<Rightarrow> bool" where
  "task_kept hasher env env' \<longleftrightarrow> it_name (te_task env') = it_name (te_task env) \<and>
     it_eventFd (te_task env') = it_eventFd (te_task env) \<and>
     it_hasReactor (te_task env') = it_hasReactor (te_task env) \<and> chm_inv hasher (te_map env') \<and>
     (it_hasReactor (te_task env) \<longrightarrow> reactor_inv (te_reactor env') \<and> pBase (te_reactor env') \<and>
        pAcceptCallback (te_reactor env') \<noteq> Dangling)"

lemma task_kept_stopped:
  "task_kept hasher env env' \<Longrightarrow> task_kept hasher env (env'\<lparr>te_task := setStat (te_task env') st\<rparr>)"
  by (simp add: task_kept_def setStat_def)

lemma setStat_fields: "it_stat (setStat t st) = st" "it_eventFd (setStat t st) = it_eventFd t"
  by (simp_all add: setStat_def)

lemma destroyReactor_runs:
  assumes "reactor_inv r" "pAcceptCallback r \<noteq> Dangling"
  shows "\<exists>r'. destroyReactor lib r = Inr r'"
proof -
  from assms(1) obtain bs where "pEventBundleMap r = Owns bs" by (rule reactor_invE)
  with assms(2) show ?thesis
    by (cases "pListener r"; cases "pBase r"; cases "pAcceptCallback r")
      (auto simp: destroyReactor_def lib_do_eq Let_def)
qed

text \<open>
  Stopping a task undoes its start. When \<open>__stop\<close> returns, the name of the task is free at
  the message center and every other name is as before, its event descriptor has been closed,
  once, and is marked closed, and the thread has the name of an idle thread.
\<close>

lemma task_stop_spec:
  assumes "onStop env = Inr env1" "chm_inv hasher (te_map env1)" "0 < it_eventFd (te_task env1)"
    and "it_stop prctl lib hasher onStop env = Inr env'"
  shows "chm_find hasher (te_map env') =
      (chm_find hasher (te_map env1))(it_name (te_task env1) := None) \<and>
    te_task env' = (te_task env1)\<lparr>it_eventFd := -1\<rparr> \<and>
    te_closed env' = it_eventFd (te_task env1) # te_closed env1 \<and>
    te_thread env' = NORMAL_THREAD_NAME"
proof -
  have erase: "chm_find hasher (chm_erase hasher (te_map env1) n) = (chm_find hasher (te_map env1))(n := None)"
    for n using chm.erase_find [OF assms(2), of n] by (auto simp: fun_eq_iff)
  show ?thesis using assms(1,3,4)
    by (cases "setThreadName (prctl NORMAL_THREAD_NAME) NORMAL_THREAD_NAME";
        cases "it_hasReactor (te_task env1)"; cases "destroyReactor lib (te_reactor env1)")
      (auto simp: it_stop_def it_setThreadName_def unregistToMsgCenter_def unregisterTask_def erase)
qed

lemma it_stop_runs:
  assumes "onStop env = Inr env1" "task_kept hasher env0 env1" "prctl NORMAL_THREAD_NAME = 0"
  shows "\<exists>env'. it_stop prctl lib hasher onStop env = Inr env'"
proof -
  have n: "setThreadName (prctl NORMAL_THREAD_NAME) NORMAL_THREAD_NAME"
    using assms(3) by (simp add: setThreadName_def NORMAL_THREAD_NAME_def)
  show ?thesis
  proof (cases "it_hasReactor (te_task env1)")
    case True
    then obtain r' where "destroyReactor lib (te_reactor env1) = Inr r'"
      using destroyReactor_runs [of "te_reactor env1" lib] assms(2) by (auto simp: task_kept_def)
    with True n assms(1) show ?thesis
      by (simp add: it_stop_def it_setThreadName_def unregistToMsgCenter_def)
  qed (use n assms(1) in \<open>simp add: it_stop_def it_setThreadName_def unregistToMsgCenter_def\<close>)
qed

text \<open>The preparation, on every branch.\<close>

lemma task_prepare_spec:
  assumes "chm_inv hasher (te_map env)" "\<forall>k. \<not> pending (lib_calls (te_reactor env)) k"
    and "efd < MAX_CLIENT_NUM" "pAcceptCallback (te_reactor env) \<noteq> Dangling"
  shows "if can_start prctl efd lib hasher env
    then \<exists>env'. it_prepare prctl efd lib hasher me onMsg env = Inr env' \<and>
      te_thread env' = it_name (te_task env) \<and> te_closed env' = te_closed env \<and>
      te_task env' = (te_task env)\<lparr>it_eventFd := efd, it_stat := RUNNING\<rparr> \<and>
      chm_find hasher (te_map env') = (chm_find hasher (te_map env))(it_name (te_task env) \<mapsto> me) \<and>
      (it_hasReactor (te_task env) \<longrightarrow> lib_adds lib \<longrightarrow>
        reactor_handler (te_reactor env') (efd, Rd) = Some onMsg) \<and>
      (it_hasReactor (te_task env) \<longrightarrow> reactor_nfds (te_reactor env') = MAX_CLIENT_NUM \<and>
        sin_port (te_reactor env') = sin_port (te_reactor env) \<and>
        pAcceptCallback (te_reactor env') = pAcceptCallback (te_reactor env)) \<and>
      task_kept hasher env' env'
    else it_prepare prctl efd lib hasher me onMsg env = Inl AssertionFailed"
proof -
  let ?n = "it_name (te_task env)"
  obtain tm where reg: "registerTask hasher (te_map env) ?n me =
      (chm_find hasher (te_map env) ?n = None, tm)"
    using chm.insert_result [OF assms(1), of ?n me]
    by (cases "registerTask hasher (te_map env) ?n me") (simp add: registerTask_def)
  have inv: "chm_inv hasher tm"
    using chm.insert_inv [OF assms(1), of ?n me] reg by (simp add: registerTask_def)
  have found: "chm_find hasher tm = (chm_find hasher (te_map env))(?n \<mapsto> me)"
    if "chm_find hasher (te_map env) ?n = None"
    using chm.insert_find [OF assms(1), of ?n me] that reg by (auto simp: registerTask_def fun_eq_iff)
  note defs = it_prepare_def it_setThreadName_def setThreadName_def createEventFd_def setStat_def
    registToMsgCenter_def can_start_def task_kept_def
  show ?thesis
  proof (cases "length ?n \<le> 15 \<and> prctl ?n = 0 \<and> 0 < efd")
    case False
    then show ?thesis by (auto simp: defs assert_that_def)
  next
    case pre: True
    show ?thesis
    proof (cases "it_hasReactor (te_task env)")
      case False
      with pre found inv show ?thesis by (simp add: defs reg assert_that_def)
    next
      case has: True
      show ?thesis
      proof (cases "lib (lib_calls (te_reactor env)) EventBaseNew")
        case False
        with pre has show ?thesis by (simp add: defs initReactor_def MAX_CLIENT_NUM_def lib_do_eq)
      next
        case True
        with prepare_reactor [of efd "te_reactor env" lib onMsg] assms(2,3) pre
        obtain r1 b r2 where r: "initReactor lib (te_reactor env) MAX_CLIENT_NUM = Inr (True, r1)"
          "addEventHandler lib r1 efd EVENT_READ (Some onMsg) = Inr (b, r2)" "reactor_inv r2"
          "lib_adds lib \<longrightarrow> reactor_handler r2 (efd, Rd) = Some onMsg" "pBase r2" "reactor_nfds r2 = MAX_CLIENT_NUM"
          "pAcceptCallback r2 = pAcceptCallback (te_reactor env)" "sin_port r2 = sin_port (te_reactor env)" by auto
        with pre has True found inv assms(4) show ?thesis by (simp add: defs reg assert_that_def)
      qed
    qed
  qed
qed

text \<open>
  C34: The life of a task, from \<open>start\<close> to the end of \<open>__stop\<close>. If the name has at most 15
  characters and is not registered and the system calls succeed, the task comes up: when
  \<open>onStart\<close> is called, its thread has its name, its event descriptor is open, it is running, other
  tasks find it at the message center under its name, every other name is as before, and, if it
  has a reactor and libevent adds events without failing, its message handler is called when the
  descriptor is readable. What fails in \<open>onStart\<close> or in the loop ends \<open>start\<close>. When the loop
  returns, the state is \<open>STOPPED\<close>, \<open>onStop\<close> runs, and if it returns, having kept what the
  task relies on, \<open>start\<close> returns with the name free again and the other names untouched, the
  descriptor closed once more than before and marked closed, and the thread named as an idle one.
  If one of the conditions fails, \<open>start\<close> ends the program with an assertion before \<open>onStart\<close>.
\<close>

theorem task_start_spec:
  assumes "chm_inv hasher (te_map env)" "\<forall>k. \<not> pending (lib_calls (te_reactor env)) k"
    and "efd < MAX_CLIENT_NUM" "pAcceptCallback (te_reactor env) \<noteq> Dangling"
    and "prctl NORMAL_THREAD_NAME = 0"
  shows "if can_start prctl efd lib hasher env
    then \<exists>env1. te_thread env1 = it_name (te_task env) \<and> te_closed env1 = te_closed env \<and>
      te_task env1 = (te_task env)\<lparr>it_eventFd := efd, it_stat := RUNNING\<rparr> \<and>
      chm_find hasher (te_map env1) = (chm_find hasher (te_map env))(it_name (te_task env) \<mapsto> me) \<and>
      (it_hasReactor (te_task env) \<longrightarrow> lib_adds lib \<longrightarrow>
        reactor_handler (te_reactor env1) (efd, Rd) = Some onMsg) \<and>
      task_kept hasher env1 env1 \<and>
      (\<forall>e. onStart env1 = Inl e \<longrightarrow>
         it_start prctl efd lib hasher me onMsg onStart loop onStop env = Inl e) \<and>
      (\<forall>env2. onStart env1 = Inr env2 \<longrightarrow> task_kept hasher env1 env2 \<longrightarrow>
         (\<forall>e. loop env2 = Inl e \<longrightarrow>
            it_start prctl efd lib hasher me onMsg onStart loop onStop env = Inl e) \<and>
         (\<forall>env3 env4. loop env2 = Inr env3 \<longrightarrow>
            onStop (env3\<lparr>te_task := setStat (te_task env3) STOPPED\<rparr>) = Inr env4 \<longrightarrow>
            task_kept hasher env1 env4 \<longrightarrow>
            (\<exists>env'. it_start prctl efd lib hasher me onMsg onStart loop onStop env = Inr env' \<and>
               te_task env' = (te_task env4)\<lparr>it_eventFd := -1\<rparr> \<and>
               chm_find hasher (te_map env') =
                 (chm_find hasher (te_map env4))(it_name (te_task env) := None) \<and>
               te_closed env' = efd # te_closed env4 \<and> te_thread env' = NORMAL_THREAD_NAME)))
    else it_start prctl efd lib hasher me onMsg onStart loop onStop env = Inl AssertionFailed"
proof (cases "can_start prctl efd lib hasher env")
  case False
  with task_prepare_spec [OF assms(1-4), of prctl lib me onMsg] show ?thesis by (simp add: it_start_def)
next
  case True
  with task_prepare_spec [OF assms(1-4), of prctl lib me onMsg] obtain env1 where
    prep: "it_prepare prctl efd lib hasher me onMsg env = Inr env1"
    and env1: "te_thread env1 = it_name (te_task env)" "te_closed env1 = te_closed env"
      "te_task env1 = (te_task env)\<lparr>it_eventFd := efd, it_stat := RUNNING\<rparr>"
      "chm_find hasher (te_map env1) = (chm_find hasher (te_map env))(it_name (te_task env) \<mapsto> me)"
      "it_hasReactor (te_task env) \<longrightarrow> lib_adds lib \<longrightarrow>
        reactor_handler (te_reactor env1) (efd, Rd) = Some onMsg" "task_kept hasher env1 env1"
    by auto
  let ?start = "it_start prctl efd lib hasher me onMsg onStart loop onStop env"
  let ?stopped = "\<lambda>env3. env3\<lparr>te_task := setStat (te_task env3) STOPPED\<rparr>"
  have looped: "?start = and_then (loop env2) (\<lambda>env3. it_stop prctl lib hasher onStop (?stopped env3))"
    if "onStart env1 = Inr env2" "task_kept hasher env1 env2" for env2
    using that prep by (auto simp: it_start_def task_kept_def startEventLoop_def assert_that_def)
  have ends: "\<exists>env'. ?start = Inr env' \<and> te_task env' = (te_task env4)\<lparr>it_eventFd := -1\<rparr> \<and>
      chm_find hasher (te_map env') = (chm_find hasher (te_map env4))(it_name (te_task env) := None) \<and>
      te_closed env' = efd # te_closed env4 \<and> te_thread env' = NORMAL_THREAD_NAME"
    if "onStart env1 = Inr env2" "task_kept hasher env1 env2" "loop env2 = Inr env3"
      and stop: "onStop (?stopped env3) = Inr env4" "task_kept hasher env1 env4" for env2 env3 env4
  proof -
    obtain env' where run: "it_stop prctl lib hasher onStop (?stopped env3) = Inr env'"
      using it_stop_runs stop assms(5) by blast
    have "it_name (te_task env4) = it_name (te_task env)" "it_eventFd (te_task env4) = efd" "0 < efd"
      "chm_inv hasher (te_map env4)"
      using stop(2) env1(3) True by (auto simp: task_kept_def can_start_def)
    with task_stop_spec [OF stop(1) _ _ run] looped [OF that(1,2)] that(3) run show ?thesis by simp
  qed
  show ?thesis
    using True env1 prep looped ends by (intro if_P [THEN iffD2] exI [of _ env1]) (auto simp: it_start_def)
qed

text \<open>A task with a reactor, its thread not yet named, at an empty message center.\<close>

definition task_example :: "(nat, string) tenv" where
  "task_example = \<lparr>te_task = new_InteractiveTask 0 ''WorkService-0'' True,
     te_reactor = new_LibeventReactor, te_map = new_MessageCenter, te_thread = [], te_closed = []\<rparr>"

lemma task_example_facts:
  "chm_inv hasher (te_map task_example)" "\<forall>k. \<not> pending (lib_calls (te_reactor task_example)) k"
  "can_start (\<lambda>_. 0) 7 (\<lambda>_ _. True) hasher task_example"
proof -
  have n: "0 < DEFAULT_HASHLOCKS" by (simp add: DEFAULT_HASHLOCKS_def)
  show "chm_inv hasher (te_map task_example)" "\<forall>k. \<not> pending (lib_calls (te_reactor task_example)) k"
    "can_start (\<lambda>_. 0) 7 (\<lambda>_ _. True) hasher task_example"
    by (simp_all add: task_example_def can_start_def new_InteractiveTask_def new_LibeventReactor_def
        new_MessageCenter_def chm_new_inv [OF n] chm_new_find [OF n])
qed

text \<open>A task whose loop returns at once, as it does when it is told to stop: from start to end.\<close>

theorem task_start_spec_witness:
  "\<exists>env'. it_start (\<lambda>_. 0) 7 (\<lambda>_ _. True) (\<lambda>_. 3) 2 ''onMsg'' Inr Inr Inr task_example = Inr env' \<and>
     it_stat (te_task env') = STOPPED \<and> te_closed env' = [7] \<and> te_thread env' = ''availible'' \<and>
     chm_find (\<lambda>_. 3) (te_map env') ''WorkService-0'' = None"
proof -
  let ?h = "\<lambda>_. 3 :: size_t"
  have ex: "it_hasReactor (te_task task_example)" "pAcceptCallback (te_reactor task_example) \<noteq> Dangling"
    "it_name (te_task task_example) = ''WorkService-0''" "te_closed task_example = []"
    by (simp_all add: task_example_def new_InteractiveTask_def new_LibeventReactor_def)
  have can: "can_start (\<lambda>_. 0) 7 (\<lambda>_ _. True) ?h task_example" by (rule task_example_facts(3))
  have "7 < MAX_CLIENT_NUM" by (simp add: MAX_CLIENT_NUM_def)
  from task_start_spec [OF task_example_facts(1,2) this ex(2) refl, of "\<lambda>_ _. True" ?h 2 "''onMsg''"
      Inr Inr Inr] can
  show ?thesis
    by (auto simp: ex(3,4) task_kept_stopped NORMAL_THREAD_NAME_def setStat_fields)
qed

end
