(* ===== verification/Stream.thy ===== *)
theory Stream
  imports LibeventReactor
begin

text \<open>
  \<open>network/Stream.h\<close> and \<open>Stream.cpp\<close>: the buffered reading and writing of one socket. A
  stream is asked for a number of bytes or given bytes to send, registers itself with the event
  reactor, and on each event makes one \<open>recv\<close> or \<open>send\<close> until the request is complete. The
  reactor is the virtual \<open>EventReactor\<close>: its functions are arguments (\<open>add\<close>, \<open>rem\<close>), and what
  is proved in the locale \<open>event_reactor\<close> holds for \<open>LibeventReactor\<close> by its interpretation.
  What the calls \<open>recv\<close> and \<open>send\<close> return is an argument as well.
\<close>

section \<open>Data\<close>

datatype stream_stat = RECVING | RECVED | RECVERR | SENDING | SENDED | SENDERR | CLOSED

definition HEADER_LEN :: int where "HEADER_LEN = 4"
definition DEFAULT_BUFF_LEN :: int where "DEFAULT_BUFF_LEN = 1024"
definition RECV_BUFF_MAX_SIZE :: int where "RECV_BUFF_MAX_SIZE = 1024 * 1024 * 500"
definition SEND_BUFF_MAX_SIZE :: int where "SEND_BUFF_MAX_SIZE = 1024 * 1024 * 100"

text \<open>
  \<open>'cb\<close> are the callbacks a reactor holds (\<open>recvOnePackCall_\<close> and \<open>sendOnePackCall_\<close> are bound
  to this stream), \<open>'u\<close> those of the user of the stream, \<open>None\<close> for null.
\<close>

record ('cb, 'u) stream =
  st_fd :: int
  recvLen :: int
  needRecvLen :: int
  sendLen :: int
  needSendLen :: int
  recvStat :: stream_stat
  sendStat :: stream_stat
  recvBuf :: string
  sendBuf :: string
  recvOnePackCall :: 'cb
  sendOnePackCall :: 'cb
  closeCallback :: "'u option"
  recvCompleteCallback :: "'u option"
  sendCompleteCallback :: "'u option"

definition new_Stream :: "int \<Rightarrow> 'cb \<Rightarrow> 'cb \<Rightarrow> ('cb, 'u) stream" where
  "new_Stream fd rcall scall = \<lparr>st_fd = fd, recvLen = 0, needRecvLen = 0, sendLen = 0,
     needSendLen = 0, recvStat = RECVED, sendStat = SENDED,
     recvBuf = replicate (nat DEFAULT_BUFF_LEN) (CHR 0x00),
     sendBuf = replicate (nat DEFAULT_BUFF_LEN) (CHR 0x00),
     recvOnePackCall = rcall, sendOnePackCall = scall, closeCallback = None,
     recvCompleteCallback = None, sendCompleteCallback = None\<rparr>"

text \<open>The results of the system calls.\<close>

datatype errno = EINTR | EWOULDBLOCK | EAGAIN | OtherErrno int

definition try_again :: "errno \<Rightarrow> bool" where
  "try_again e \<longleftrightarrow> e = EINTR \<or> e = EWOULDBLOCK \<or> e = EAGAIN"

datatype recv_result = Received string | RecvFailed errno

datatype send_result = Sent nat | SendFailed errno

text \<open>What a call has done to the world outside: bytes handed to the socket, and calls of the
  user's callbacks, in order.\<close>

datatype 'u stream_out =
    OutBytes string
  | CallClose 'u int
  | CallRecv 'u stream_stat string
  | CallSend 'u stream_stat

section \<open>Small functions\<close>

definition getFd :: "('cb, 'u) stream \<Rightarrow> int" where
  "getFd s = st_fd s"

definition getRecvStat :: "('cb, 'u) stream \<Rightarrow> stream_stat" where
  "getRecvStat s = recvStat s"

definition getSendStat :: "('cb, 'u) stream \<Rightarrow> stream_stat" where
  "getSendStat s = sendStat s"

definition setOnCloseCallback :: "('cb, 'u) stream \<Rightarrow> 'u option \<Rightarrow> ('cb, 'u) stream" where
  "setOnCloseCallback s cb = s\<lparr>closeCallback := cb\<rparr>"

text \<open>\<open>vector<char>::resize\<close>, and the conversion of a size to \<open>int\<close>.\<close>

definition resize :: "nat \<Rightarrow> string \<Rightarrow> string" where
  "resize n xs = take n xs @ replicate (n - length xs) (CHR 0x00)"

lemma length_resize [simp]: "length (resize n xs) = n"
  by (simp add: resize_def)

definition int_of_size :: "nat \<Rightarrow> int" where
  "int_of_size n = (int n + 2 ^ 31) mod 2 ^ 32 - 2 ^ 31"

lemma int_of_size_small: "n < 2 ^ 31 \<Longrightarrow> int_of_size n = int n"
  by (simp add: int_of_size_def)

section \<open>Receiving\<close>

text \<open>What \<open>recv\<close> writes at \<open>&recvBuf_[recvLen_]\<close>.\<close>

definition write_at :: "string \<Rightarrow> int \<Rightarrow> string \<Rightarrow> string outcome" where
  "write_at buf off bs =
     (if off < 0 \<or> int (length buf) < off + int (length bs) then Inl OutOfBounds
      else Inr (take (nat off) buf @ bs @ drop (nat off + length bs) buf))"

text \<open>\<open>if (closeCallback_) closeCallback_(fd_)\<close> and the call of \<open>recvCompleteCallback_\<close>.\<close>

definition call_close :: "('cb, 'u) stream \<Rightarrow> 'u stream_out list" where
  "call_close s = (case closeCallback s of None \<Rightarrow> [] | Some cb \<Rightarrow> [CallClose cb (st_fd s)])"

definition call_recv :: "('cb, 'u) stream \<Rightarrow> 'u stream_out list outcome" where
  "call_recv s = (case recvCompleteCallback s of
       None \<Rightarrow> Inl BadFunctionCall
     | Some cb \<Rightarrow> Inr [CallRecv cb (recvStat s) (recvBuf s)])"

text \<open>The two ways a pass of \<open>_recvOnePack\<close> ends: the socket is given up, or it is waited for
  again; the result of \<open>addEventHandler\<close> is not looked at.\<close>

definition recv_fail :: "('cb, 'u) stream \<Rightarrow> 'r \<Rightarrow>
    (('cb, 'u) stream \<times> 'r \<times> 'u stream_out list) outcome" where
  "recv_fail s r =
     (let s' = s\<lparr>recvStat := RECVERR\<rparr> in
      and_then (call_recv s') (\<lambda>outs. Inr (s', r, call_close s @ outs)))"

definition recv_again :: "('r \<Rightarrow> int \<Rightarrow> event_flags \<Rightarrow> 'cb \<Rightarrow> (bool \<times> 'r) outcome) \<Rightarrow>
    ('cb, 'u) stream \<Rightarrow> 'r \<Rightarrow> (('cb, 'u) stream \<times> 'r \<times> 'u stream_out list) outcome" where
  "recv_again add s r =
     and_then (add r (st_fd s) EVENT_READ (recvOnePackCall s)) (\<lambda>(b, r').
       Inr (s\<lparr>recvStat := RECVING\<rparr>, r', []))"

definition recvOnePack :: "('r \<Rightarrow> int \<Rightarrow> event_flags \<Rightarrow> 'cb \<Rightarrow> (bool \<times> 'r) outcome) \<Rightarrow>
    ('cb, 'u) stream \<Rightarrow> 'r \<Rightarrow> int \<Rightarrow> event_flags \<Rightarrow> recv_result \<Rightarrow>
    (('cb, 'u) stream \<times> 'r \<times> 'u stream_out list) outcome" where
  "recvOnePack add s r fd event res =
     and_then (assert_that (st_fd s = fd \<and> has_event event EVENT_READ)) (\<lambda>_.
       case res of
         RecvFailed e \<Rightarrow> if try_again e then recv_again add s r else recv_fail s r
       | Received bs \<Rightarrow>
           if bs = [] then recv_fail s r
           else and_then (write_at (recvBuf s) (recvLen s) bs) (\<lambda>buf.
             let s = s\<lparr>recvBuf := buf\<rparr> in
             if int (length bs) < needRecvLen s
             then recv_again add (s\<lparr>recvLen := recvLen s + int (length bs),
                    needRecvLen := needRecvLen s - int (length bs)\<rparr>) r
             else let s = s\<lparr>recvStat := RECVED\<rparr> in
                  and_then (call_recv s) (\<lambda>outs. Inr (s, r, outs))))"

definition asyncRecvBytes :: "('r \<Rightarrow> int \<Rightarrow> event_flags \<Rightarrow> 'cb \<Rightarrow> (bool \<times> 'r) outcome) \<Rightarrow>
    ('cb, 'u) stream \<Rightarrow> 'r \<Rightarrow> int \<Rightarrow> 'u option \<Rightarrow> (bool \<times> ('cb, 'u) stream \<times> 'r) outcome" where
  "asyncRecvBytes add s r num cb =
     (if cb = None \<or> num > DEFAULT_BUFF_LEN \<or> num \<le> 0 then Inr (False, s, r)
      else let s' = s\<lparr>recvLen := 0, needRecvLen := num, recvBuf := resize (nat num) (recvBuf s),
                 recvCompleteCallback := cb\<rparr>
           in and_then (add r (st_fd s) EVENT_READ (recvOnePackCall s)) (\<lambda>(b, r'). Inr (b, s', r')))"

section \<open>Sending\<close>

definition call_send :: "('cb, 'u) stream \<Rightarrow> 'u stream_out list outcome" where
  "call_send s = (case sendCompleteCallback s of
       None \<Rightarrow> Inl BadFunctionCall
     | Some cb \<Rightarrow> Inr [CallSend cb (sendStat s)])"

definition send_done :: "stream_stat \<Rightarrow> ('cb, 'u) stream \<Rightarrow> 'r \<Rightarrow> 'u stream_out list \<Rightarrow>
    (('cb, 'u) stream \<times> 'r \<times> 'u stream_out list) outcome" where
  "send_done st s r bytes =
     (let s' = s\<lparr>sendStat := st\<rparr> in
      and_then (call_send s') (\<lambda>outs. Inr (s', r, bytes @ outs)))"

definition send_again :: "('r \<Rightarrow> int \<Rightarrow> event_flags \<Rightarrow> 'cb \<Rightarrow> (bool \<times> 'r) outcome) \<Rightarrow>
    ('cb, 'u) stream \<Rightarrow> 'r \<Rightarrow> 'u stream_out list \<Rightarrow>
    (('cb, 'u) stream \<times> 'r \<times> 'u stream_out list) outcome" where
  "send_again add s r bytes =
     and_then (add r (st_fd s) EVENT_WRITE (sendOnePackCall s)) (\<lambda>(b, r').
       Inr (s\<lparr>sendStat := SENDING\<rparr>, r', bytes))"

text \<open>The \<open>n\<close> bytes \<open>send\<close> takes from \<open>&sendBuf_[sendLen_]\<close>.\<close>

definition read_at :: "string \<Rightarrow> int \<Rightarrow> nat \<Rightarrow> string outcome" where
  "read_at buf off n =
     (if off < 0 \<or> int (length buf) < off + int n then Inl OutOfBounds
      else Inr (take n (drop (nat off) buf)))"

definition sendOnePack :: "('r \<Rightarrow> int \<Rightarrow> event_flags \<Rightarrow> 'cb \<Rightarrow> (bool \<times> 'r) outcome) \<Rightarrow>
    ('cb, 'u) stream \<Rightarrow> 'r \<Rightarrow> int \<Rightarrow> event_flags \<Rightarrow> send_result \<Rightarrow>
    (('cb, 'u) stream \<times> 'r \<times> 'u stream_out list) outcome" where
  "sendOnePack add s r fd event res =
     and_then (assert_that (st_fd s = fd \<and> has_event event EVENT_WRITE)) (\<lambda>_.
       case res of
         SendFailed e \<Rightarrow> if try_again e then send_again add s r [] else send_done SENDERR s r []
       | Sent n \<Rightarrow>
           if n = 0 then send_done SENDERR s r []
           else and_then (read_at (sendBuf s) (sendLen s) n) (\<lambda>bs.
             if int n < needSendLen s
             then send_again add (s\<lparr>sendLen := sendLen s + int n,
                    needSendLen := needSendLen s - int n\<rparr>) r [OutBytes bs]
             else send_done SENDED s r [OutBytes bs]))"

definition asyncSendBytes :: "('r \<Rightarrow> int \<Rightarrow> event_flags \<Rightarrow> 'cb \<Rightarrow> (bool \<times> 'r) outcome) \<Rightarrow>
    ('cb, 'u) stream \<Rightarrow> 'r \<Rightarrow> string \<Rightarrow> 'u option \<Rightarrow> (bool \<times> ('cb, 'u) stream \<times> 'r) outcome" where
  "asyncSendBytes add s r vecBytes cb =
     (let sendSize = int_of_size (length vecBytes) in
      if cb = None \<or> sendSize > DEFAULT_BUFF_LEN then Inr (False, s, r)
      else let s' = s\<lparr>sendLen := 0, needSendLen := sendSize, sendBuf := vecBytes,
                 sendCompleteCallback := cb\<rparr>
           in and_then (add r (st_fd s) EVENT_WRITE (sendOnePackCall s)) (\<lambda>(b, r'). Inr (b, s', r')))"

section \<open>Destruction\<close>

text \<open>The descriptor that is closed, if any.\<close>

definition delete_Stream :: "('r \<Rightarrow> int \<Rightarrow> event_flags \<Rightarrow> (bool \<times> 'r) outcome) \<Rightarrow>
    ('cb, 'u) stream \<Rightarrow> 'r \<Rightarrow> (int option \<times> ('cb, 'u) stream \<times> 'r) outcome" where
  "delete_Stream rem s r =
     (if 0 < st_fd s
      then and_then (rem r (st_fd s) EVENT_READ) (\<lambda>(_, r).
           and_then (rem r (st_fd s) EVENT_WRITE) (\<lambda>(_, r).
             Inr (Some (st_fd s), s\<lparr>st_fd := -1\<rparr>, r)))
      else Inr (None, s, r))"

section \<open>A stream at work\<close>

text \<open>
  One stream, its reactor and its user. \<open>rx\<close> are the bytes \<open>recv\<close> has taken from the socket,
  \<open>ins\<close> the buffers handed to the user with \<open>RECVED\<close>, \<open>asked\<close> the sizes the user has asked
  for; \<open>tx\<close> are the bytes \<open>send\<close> has given to the socket, \<open>outs\<close> the buffers reported as
  \<open>SENDED\<close>, \<open>posted\<close> the buffers the user has asked to send. \<open>reading\<close> and \<open>writing\<close> tell
  that a request is under way, \<open>rerr\<close> and \<open>werr\<close> that one has been answered with an error.
\<close>

record ('cb, 'u, 'r) pipe =
  pi_stream :: "('cb, 'u) stream"
  pi_reactor :: 'r
  rx :: string
  ins :: "string list"
  asked :: "nat list"
  reading :: bool
  rerr :: bool
  tx :: string
  outs :: "string list"
  posted :: "string list"
  writing :: bool
  werr :: bool

definition pipe_init :: "('cb, 'u) stream \<Rightarrow> 'r \<Rightarrow> ('cb, 'u, 'r) pipe" where
  "pipe_init s r = \<lparr>pi_stream = s, pi_reactor = r, rx = [], ins = [], asked = [], reading = False,
     rerr = False, tx = [], outs = [], posted = [], writing = False, werr = False\<rparr>"

fun result_bytes :: "recv_result \<Rightarrow> string" where
  "result_bytes (Received bs) = bs"
| "result_bytes (RecvFailed e) = []"

text \<open>\<open>recv\<close> and \<open>send\<close> handle at most as many bytes as they are given room for.\<close>

fun recv_fits :: "('cb, 'u) stream \<Rightarrow> recv_result \<Rightarrow> bool" where
  "recv_fits s (Received bs) = (int (length bs) \<le> needRecvLen s)"
| "recv_fits s (RecvFailed e) = True"

fun send_fits :: "('cb, 'u) stream \<Rightarrow> send_result \<Rightarrow> bool" where
  "send_fits s (Sent n) = (int n \<le> needSendLen s)"
| "send_fits s (SendFailed e) = True"

fun out_bytes :: "'u stream_out list \<Rightarrow> string" where
  "out_bytes [] = []"
| "out_bytes (OutBytes bs # os) = bs @ out_bytes os"
| "out_bytes (o1 # os) = out_bytes os"

fun recv_answers :: "'u stream_out list \<Rightarrow> (stream_stat \<times> string) list" where
  "recv_answers [] = []"
| "recv_answers (CallRecv cb st buf # os) = (st, buf) # recv_answers os"
| "recv_answers (o1 # os) = recv_answers os"

fun send_answers :: "'u stream_out list \<Rightarrow> stream_stat list" where
  "send_answers [] = []"
| "send_answers (CallSend cb st # os) = st # send_answers os"
| "send_answers (o1 # os) = send_answers os"

text \<open>
  The user starts a request when none of that direction is under way and none has failed; an
  event the reactor delivers runs the handler it was registered with; the calls of \<open>recv\<close> and
  \<open>send\<close> return anything that fits.
\<close>

inductive pipe_step :: "('r \<Rightarrow> int \<Rightarrow> event_flags \<Rightarrow> 'cb \<Rightarrow> (bool \<times> 'r) outcome) \<Rightarrow>
    ('r \<Rightarrow> int \<Rightarrow> dir \<Rightarrow> (('cb \<times> event_flags) option \<times> 'r) outcome) \<Rightarrow>
    ('r \<Rightarrow> int \<times> dir \<Rightarrow> 'cb option) \<Rightarrow> ('cb, 'u, 'r) pipe \<Rightarrow> ('cb, 'u, 'r) pipe \<Rightarrow> bool"
  for add fire handler where
  ask_recv: "\<not> reading p \<Longrightarrow> \<not> rerr p \<Longrightarrow>
    asyncRecvBytes add (pi_stream p) (pi_reactor p) num cb = Inr (b, s', r') \<Longrightarrow>
    pipe_step add fire handler p (p\<lparr>pi_stream := s', pi_reactor := r',
      asked := (if b then asked p @ [nat num] else asked p), reading := b\<rparr>)"
| on_readable: "handler (pi_reactor p) (st_fd (pi_stream p), Rd) = Some h \<Longrightarrow>
    fire (pi_reactor p) (st_fd (pi_stream p)) Rd = Inr (Some (cb, ev), r1) \<Longrightarrow>
    cb = recvOnePackCall (pi_stream p) \<Longrightarrow> recv_fits (pi_stream p) res \<Longrightarrow>
    recvOnePack add (pi_stream p) r1 (st_fd (pi_stream p)) ev res = Inr (s', r', os) \<Longrightarrow>
    pipe_step add fire handler p (p\<lparr>pi_stream := s', pi_reactor := r',
      rx := rx p @ result_bytes res,
      ins := ins p @ map snd (filter (\<lambda>(st, buf). st = RECVED) (recv_answers os)),
      reading := (recv_answers os = []),
      rerr := (rerr p \<or> (\<exists>(st, buf) \<in> set (recv_answers os). st = RECVERR))\<rparr>)"
| ask_send: "\<not> writing p \<Longrightarrow> \<not> werr p \<Longrightarrow> length bytes < 2 ^ 31 \<Longrightarrow>
    asyncSendBytes add (pi_stream p) (pi_reactor p) bytes cb = Inr (b, s', r') \<Longrightarrow>
    pipe_step add fire handler p (p\<lparr>pi_stream := s', pi_reactor := r',
      posted := (if b then posted p @ [bytes] else posted p), writing := b\<rparr>)"
| on_writable: "handler (pi_reactor p) (st_fd (pi_stream p), Wr) = Some h \<Longrightarrow>
    fire (pi_reactor p) (st_fd (pi_stream p)) Wr = Inr (Some (cb, ev), r1) \<Longrightarrow>
    cb = sendOnePackCall (pi_stream p) \<Longrightarrow> send_fits (pi_stream p) res \<Longrightarrow>
    sendOnePack add (pi_stream p) r1 (st_fd (pi_stream p)) ev res = Inr (s', r', os) \<Longrightarrow>
    pipe_step add fire handler p (p\<lparr>pi_stream := s', pi_reactor := r',
      tx := tx p @ out_bytes os,
      outs := (if SENDED \<in> set (send_answers os) then outs p @ [sendBuf (pi_stream p)] else outs p),
      writing := (send_answers os = []),
      werr := (werr p \<or> SENDERR \<in> set (send_answers os))\<rparr>)"

inductive pipe_reach :: "('r \<Rightarrow> int \<Rightarrow> event_flags \<Rightarrow> 'cb \<Rightarrow> (bool \<times> 'r) outcome) \<Rightarrow>
    ('r \<Rightarrow> int \<Rightarrow> dir \<Rightarrow> (('cb \<times> event_flags) option \<times> 'r) outcome) \<Rightarrow>
    ('r \<Rightarrow> int \<times> dir \<Rightarrow> 'cb option) \<Rightarrow> ('cb, 'u) stream \<Rightarrow> 'r \<Rightarrow> ('cb, 'u, 'r) pipe \<Rightarrow> bool"
  for add fire handler s0 r0 where
  start: "pipe_reach add fire handler s0 r0 (pipe_init s0 r0)"
| step: "pipe_reach add fire handler s0 r0 p \<Longrightarrow> pipe_step add fire handler p p' \<Longrightarrow>
    pipe_reach add fire handler s0 r0 p'"

section \<open>The invariant of the two directions\<close>

text \<open>Reading: what \<open>recv\<close> has taken is what the user has been given, followed by what a request
  under way has in the buffer; the buffer has exactly room for the bytes still missing.\<close>

definition read_ok :: "('cb, 'u, 'r) pipe \<Rightarrow> bool" where
  "read_ok p \<longleftrightarrow> (let s = pi_stream p in
     (\<exists>rest. rx p = concat (ins p) @ rest \<and> (reading p \<longrightarrow> rest = take (nat (recvLen s)) (recvBuf s)) \<and>
        (\<not> reading p \<and> \<not> rerr p \<longrightarrow> rest = [])) \<and>
     (reading p \<longrightarrow> recvCompleteCallback s \<noteq> None \<and> 0 \<le> recvLen s \<and> 0 < needRecvLen s \<and>
        recvLen s + needRecvLen s = int (length (recvBuf s)) \<and>
        asked p = map length (ins p) @ [length (recvBuf s)]) \<and>
     (\<not> reading p \<and> \<not> rerr p \<longrightarrow> asked p = map length (ins p)))"

text \<open>Writing: what \<open>send\<close> has been given is the buffers reported as sent, followed by the part of
  a buffer under way.\<close>

definition write_ok :: "('cb, 'u, 'r) pipe \<Rightarrow> bool" where
  "write_ok p \<longleftrightarrow> (let s = pi_stream p in
     (\<exists>rest. tx p = concat (outs p) @ rest \<and> (writing p \<longrightarrow> rest = take (nat (sendLen s)) (sendBuf s)) \<and>
        (\<not> writing p \<and> \<not> werr p \<longrightarrow> rest = [])) \<and>
     (writing p \<longrightarrow> sendCompleteCallback s \<noteq> None \<and> 0 \<le> sendLen s \<and> 0 \<le> needSendLen s \<and>
        sendLen s + needSendLen s = int (length (sendBuf s)) \<and> posted p = outs p @ [sendBuf s]) \<and>
     (\<not> writing p \<and> \<not> werr p \<longrightarrow> posted p = outs p))"

text \<open>The reactor waits for the stream only on behalf of a request under way, with the stream's own
  callback.\<close>

definition pipe_wired :: "('r \<Rightarrow> int \<times> dir \<Rightarrow> 'cb option) \<Rightarrow> ('r \<Rightarrow> int) \<Rightarrow> ('r \<Rightarrow> bool) \<Rightarrow>
    ('cb, 'u, 'r) pipe \<Rightarrow> bool" where
  "pipe_wired handler nfds rinv p \<longleftrightarrow> (let s = pi_stream p; r = pi_reactor p in
     rinv r \<and> 0 \<le> st_fd s \<and> st_fd s < nfds r \<and>
     handler r (st_fd s, Rd) \<in> {None, Some (recvOnePackCall s)} \<and>
     (handler r (st_fd s, Rd) \<noteq> None \<longrightarrow> reading p) \<and>
     handler r (st_fd s, Wr) \<in> {None, Some (sendOnePackCall s)} \<and>
     (handler r (st_fd s, Wr) \<noteq> None \<longrightarrow> writing p))"

text \<open>A stream that waits for bytes, and one that waits to send.\<close>

definition recv_ready :: "('cb, 'u) stream \<Rightarrow> bool" where
  "recv_ready s \<longleftrightarrow> recvCompleteCallback s \<noteq> None \<and> 0 \<le> recvLen s \<and> 0 < needRecvLen s \<and>
     recvLen s + needRecvLen s = int (length (recvBuf s))"

definition send_ready :: "('cb, 'u) stream \<Rightarrow> bool" where
  "send_ready s \<longleftrightarrow> sendCompleteCallback s \<noteq> None \<and> 0 \<le> sendLen s \<and> 0 \<le> needSendLen s \<and>
     sendLen s + needSendLen s = int (length (sendBuf s))"

lemma answers_append [simp]:
  "recv_answers (a @ b) = recv_answers a @ recv_answers b"
  "send_answers (a @ b) = send_answers a @ send_answers b"
  "out_bytes (a @ b) = out_bytes a @ out_bytes b"
proof -
  show "recv_answers (a @ b) = recv_answers a @ recv_answers b"
    by (induction a rule: recv_answers.induct) simp_all
  show "send_answers (a @ b) = send_answers a @ send_answers b"
    by (induction a rule: send_answers.induct) simp_all
  show "out_bytes (a @ b) = out_bytes a @ out_bytes b"
    by (induction a rule: out_bytes.induct) simp_all
qed

lemma answers_call_close [simp]:
  "recv_answers (call_close s) = []" "send_answers (call_close s) = []" "out_bytes (call_close s) = []"
  by (simp_all add: call_close_def split: option.split)

text \<open>A result of \<open>recv\<close> that is neither the end of the stream nor a fatal error.\<close>

definition recv_goes_on :: "recv_result \<Rightarrow> bool" where
  "recv_goes_on res = (case res of Received bs \<Rightarrow> bs \<noteq> [] | RecvFailed e \<Rightarrow> try_again e)"

text \<open>A result of \<open>send\<close> that is not an error, and the bytes it took.\<close>

definition send_goes_on :: "send_result \<Rightarrow> bool" where
  "send_goes_on res = (case res of Sent n \<Rightarrow> n \<noteq> 0 | SendFailed e \<Rightarrow> try_again e)"

fun result_count :: "send_result \<Rightarrow> nat" where
  "result_count (Sent n) = n"
| "result_count (SendFailed e) = 0"

lemma asyncRecvBytes_cases:
  assumes "asyncRecvBytes add s r num cb = Inr (b, s', r')"
  obtains (refused) "\<not> b" "s' = s" "r' = r"
  | (asked) "0 < num" "num \<le> 1024" "cb \<noteq> None"
      "s' = s\<lparr>recvLen := 0, needRecvLen := num, recvBuf := resize (nat num) (recvBuf s),
         recvCompleteCallback := cb\<rparr>"
      "add r (st_fd s) EVENT_READ (recvOnePackCall s) = Inr (b, r')"
  using assms
  by (auto simp: asyncRecvBytes_def DEFAULT_BUFF_LEN_def Let_def and_then_Inr_iff split: if_splits)

lemma asyncSendBytes_cases:
  assumes "asyncSendBytes add s r bytes cb = Inr (b, s', r')" "length bytes < 2 ^ 31"
  obtains (refused) "\<not> b" "s' = s" "r' = r"
  | (asked) "length bytes \<le> 1024" "cb \<noteq> None"
      "s' = s\<lparr>sendLen := 0, needSendLen := int (length bytes), sendBuf := bytes,
         sendCompleteCallback := cb\<rparr>"
      "add r (st_fd s) EVENT_WRITE (sendOnePackCall s) = Inr (b, r')"
  using assms
  by (auto simp: asyncSendBytes_def DEFAULT_BUFF_LEN_def Let_def and_then_Inr_iff int_of_size_small
      split: if_splits)

lemma read_ok_ready: "read_ok p \<Longrightarrow> reading p \<Longrightarrow> recv_ready (pi_stream p)"
  by (auto simp: read_ok_def recv_ready_def Let_def)

lemma write_ok_ready: "write_ok p \<Longrightarrow> writing p \<Longrightarrow> send_ready (pi_stream p)"
  by (auto simp: write_ok_def send_ready_def Let_def)

text \<open>What each way a pass can end does to the invariant of its direction.\<close>

lemma read_ok_again:
  assumes "read_ok p" "reading p" "int (length bs) < needRecvLen (pi_stream p)"
  shows "read_ok (p\<lparr>pi_stream := (pi_stream p)\<lparr>recvLen := recvLen (pi_stream p) + int (length bs),
      needRecvLen := needRecvLen (pi_stream p) - int (length bs), recvStat := RECVING,
      recvBuf := take (nat (recvLen (pi_stream p))) (recvBuf (pi_stream p)) @ bs @
        drop (nat (recvLen (pi_stream p)) + length bs) (recvBuf (pi_stream p))\<rparr>,
    pi_reactor := r, rx := rx p @ bs, reading := True\<rparr>)"
proof -
  let ?s = "pi_stream p"
  have rd: "rx p = concat (ins p) @ take (nat (recvLen ?s)) (recvBuf ?s)"
    "asked p = map length (ins p) @ [length (recvBuf ?s)]"
    using assms(1,2) by (auto simp: read_ok_def Let_def)
  have "nat (recvLen ?s + int (length bs)) = nat (recvLen ?s) + length bs"
    "nat (recvLen ?s) + length bs < length (recvBuf ?s)" "0 \<le> recvLen ?s"
    "recvCompleteCallback ?s \<noteq> None" "recvLen ?s + needRecvLen ?s = int (length (recvBuf ?s))"
    using read_ok_ready [OF assms(1,2)] assms(3) by (auto simp: recv_ready_def)
  with rd assms(3) show ?thesis by (simp add: read_ok_def Let_def)
qed

lemma read_ok_failed:
  assumes "read_ok p" "reading p"
  shows "read_ok (p\<lparr>pi_stream := (pi_stream p)\<lparr>recvStat := RECVERR\<rparr>, pi_reactor := r,
    reading := False, rerr := True\<rparr>)"
  using assms by (auto simp: read_ok_def Let_def)

lemma read_ok_complete:
  assumes "read_ok p" "reading p" "int (length bs) = needRecvLen (pi_stream p)"
    and "buf = take (nat (recvLen (pi_stream p))) (recvBuf (pi_stream p)) @ bs"
  shows "read_ok (p\<lparr>pi_stream := (pi_stream p)\<lparr>recvStat := RECVED, recvBuf := buf\<rparr>, pi_reactor := r,
    rx := rx p @ bs, ins := ins p @ [buf], reading := False\<rparr>)"
proof -
  let ?s = "pi_stream p"
  have "rx p = concat (ins p) @ take (nat (recvLen ?s)) (recvBuf ?s)"
    "asked p = map length (ins p) @ [length (recvBuf ?s)]"
    using assms(1,2) by (auto simp: read_ok_def Let_def)
  moreover have "length buf = length (recvBuf ?s)"
    using read_ok_ready [OF assms(1,2)] assms(3,4) by (auto simp: recv_ready_def)
  ultimately show ?thesis using assms(4) by (simp add: read_ok_def Let_def)
qed

lemma write_ok_again:
  assumes "write_ok p" "writing p" "int n \<le> needSendLen (pi_stream p)"
  shows "write_ok (p\<lparr>pi_stream := (pi_stream p)\<lparr>sendLen := sendLen (pi_stream p) + int n,
      needSendLen := needSendLen (pi_stream p) - int n, sendStat := SENDING\<rparr>, pi_reactor := r,
    tx := tx p @ take n (drop (nat (sendLen (pi_stream p))) (sendBuf (pi_stream p))),
    writing := True\<rparr>)"
proof -
  let ?s = "pi_stream p"
  have wr: "tx p = concat (outs p) @ take (nat (sendLen ?s)) (sendBuf ?s)" "0 \<le> sendLen ?s"
    "posted p = outs p @ [sendBuf ?s]"
    using assms(1,2) by (auto simp: write_ok_def Let_def)
  have "nat (sendLen ?s + int n) = nat (sendLen ?s) + n" using wr(2) by simp
  with wr assms show ?thesis by (simp add: write_ok_def Let_def take_add)
qed

lemma write_ok_failed:
  assumes "write_ok p" "writing p"
  shows "write_ok (p\<lparr>pi_stream := (pi_stream p)\<lparr>sendStat := SENDERR\<rparr>, pi_reactor := r,
    writing := False, werr := True\<rparr>)"
  using assms by (auto simp: write_ok_def Let_def)

lemma write_ok_complete:
  assumes "write_ok p" "writing p"
  shows "write_ok (p\<lparr>pi_stream := (pi_stream p)\<lparr>sendStat := SENDED\<rparr>, pi_reactor := r,
    tx := tx p @ drop (nat (sendLen (pi_stream p))) (sendBuf (pi_stream p)),
    outs := outs p @ [sendBuf (pi_stream p)], writing := False\<rparr>)"
  using assms by (auto simp: write_ok_def Let_def)

text \<open>Each direction only looks at its own part of the stream and the pipe.\<close>

lemma other_direction [simp]:
  "write_ok (p\<lparr>pi_stream := s\<lparr>recvLen := a, needRecvLen := b, recvStat := c, recvBuf := d\<rparr>,
     pi_reactor := r, rx := e, reading := f\<rparr>) = write_ok (p\<lparr>pi_stream := s\<rparr>)"
  "write_ok (p\<lparr>pi_stream := s\<lparr>recvStat := c\<rparr>, pi_reactor := r, reading := f, rerr := g\<rparr>) =
     write_ok (p\<lparr>pi_stream := s\<rparr>)"
  "write_ok (p\<lparr>pi_stream := s\<lparr>recvStat := c, recvBuf := d\<rparr>, pi_reactor := r, rx := e, ins := h,
     reading := f\<rparr>) = write_ok (p\<lparr>pi_stream := s\<rparr>)"
  "read_ok (p\<lparr>pi_stream := s\<lparr>sendLen := a, needSendLen := b, sendStat := c\<rparr>, pi_reactor := r,
     tx := e, writing := f\<rparr>) = read_ok (p\<lparr>pi_stream := s\<rparr>)"
  "read_ok (p\<lparr>pi_stream := s\<lparr>sendStat := c\<rparr>, pi_reactor := r, writing := f, werr := g\<rparr>) =
     read_ok (p\<lparr>pi_stream := s\<rparr>)"
  "read_ok (p\<lparr>pi_stream := s\<lparr>sendStat := c\<rparr>, pi_reactor := r, tx := e, outs := h, writing := f\<rparr>) =
     read_ok (p\<lparr>pi_stream := s\<rparr>)"
  by (simp_all add: read_ok_def write_ok_def Let_def)

lemma pipe_stream_same [simp]: "p\<lparr>pi_stream := pi_stream p\<rparr> = p"
  by (cases p) simp

text \<open>
  What a pass of \<open>_recvOnePack\<close> with a request under way does: it waits again with the bytes added
  to the buffer, it reports the error, or it reports the complete buffer.
\<close>

lemma recv_empty:
  "s\<lparr>recvStat := RECVING\<rparr> = s\<lparr>recvLen := recvLen s + int (length []), needRecvLen := needRecvLen s - int (length []),
     recvStat := RECVING, recvBuf := take (nat (recvLen s)) (recvBuf s) @ [] @ drop (nat (recvLen s) + length []) (recvBuf s)\<rparr>"
  by (cases s) simp

lemma recv_write:
  assumes "recv_ready s" "int (length bs) \<le> needRecvLen s"
  shows "write_at (recvBuf s) (recvLen s) bs = Inr (take (nat (recvLen s)) (recvBuf s) @ bs @
    drop (nat (recvLen s) + length bs) (recvBuf s))"
  using assms by (auto simp: recv_ready_def write_at_def)

lemma recvOnePack_again:
  assumes "recv_ready s" "recv_goes_on res" "int (length (result_bytes res)) < needRecvLen s"
    and "add r (st_fd s) EVENT_READ (recvOnePackCall s) = Inr (b, r')"
  shows "recvOnePack add s r (st_fd s) EVENT_READ res = Inr (s\<lparr>recvLen := recvLen s + int (length (result_bytes res)),
     needRecvLen := needRecvLen s - int (length (result_bytes res)), recvStat := RECVING,
     recvBuf := take (nat (recvLen s)) (recvBuf s) @ result_bytes res @
       drop (nat (recvLen s) + length (result_bytes res)) (recvBuf s)\<rparr>, r', [])"
  using assms recv_write [OF assms(1), of "result_bytes res"] recv_empty [of s]
  by (cases res) (auto simp: recvOnePack_def recv_again_def recv_goes_on_def)

lemma recvOnePack_failed:
  assumes "recv_ready s" "\<not> recv_goes_on res"
  shows "recvOnePack add s r (st_fd s) EVENT_READ res = Inr (s\<lparr>recvStat := RECVERR\<rparr>, r,
      call_close s @ [CallRecv (the (recvCompleteCallback s)) RECVERR (recvBuf s)])"
    "result_bytes res = []"
  using assms by (cases res; auto simp: recvOnePack_def recv_fail_def call_recv_def recv_ready_def recv_goes_on_def)+

lemma recvOnePack_complete:
  assumes "recv_ready s" "recv_goes_on res" "int (length (result_bytes res)) = needRecvLen s"
  shows "recvOnePack add s r (st_fd s) EVENT_READ res = Inr (s\<lparr>recvStat := RECVED,
     recvBuf := take (nat (recvLen s)) (recvBuf s) @ result_bytes res\<rparr>, r,
     [CallRecv (the (recvCompleteCallback s)) RECVED (take (nat (recvLen s)) (recvBuf s) @ result_bytes res)])"
proof -
  have "nat (recvLen s) + length (result_bytes res) = length (recvBuf s)" "0 < needRecvLen s"
    using assms(1,3) by (auto simp: recv_ready_def)
  then show ?thesis
    using assms recv_write [OF assms(1), of "result_bytes res"]
    by (cases res) (auto simp: recvOnePack_def call_recv_def recv_ready_def recv_goes_on_def)
qed

text \<open>The same for \<open>_sendOnePack\<close>.\<close>

lemma send_read:
  assumes "send_ready s" "int n \<le> needSendLen s"
  shows "read_at (sendBuf s) (sendLen s) n = Inr (take n (drop (nat (sendLen s)) (sendBuf s)))"
  using assms by (auto simp: send_ready_def read_at_def)

lemma send_nothing:
  "s\<lparr>sendStat := SENDING\<rparr> =
    s\<lparr>sendLen := sendLen s + int 0, needSendLen := needSendLen s - int 0, sendStat := SENDING\<rparr>"
  by (cases s) simp

lemma sendOnePack_again:
  assumes "send_ready s" "send_goes_on res" "result_count res = 0 \<or> int (result_count res) < needSendLen s"
    and "add r (st_fd s) EVENT_WRITE (sendOnePackCall s) = Inr (b, r')"
  shows "sendOnePack add s r (st_fd s) EVENT_WRITE res = Inr (s\<lparr>sendLen := sendLen s + int (result_count res),
     needSendLen := needSendLen s - int (result_count res), sendStat := SENDING\<rparr>, r',
     let bs = take (result_count res) (drop (nat (sendLen s)) (sendBuf s)) in if bs = [] then [] else [OutBytes bs])"
  using assms send_read [OF assms(1), of "result_count res"] send_nothing [of s]
  by (cases res) (auto simp: sendOnePack_def send_again_def send_goes_on_def send_ready_def)

lemma sendOnePack_failed:
  assumes "send_ready s" "\<not> send_goes_on res"
  shows "sendOnePack add s r (st_fd s) EVENT_WRITE res = Inr (s\<lparr>sendStat := SENDERR\<rparr>, r,
    [CallSend (the (sendCompleteCallback s)) SENDERR])"
  using assms by (cases res) (auto simp: sendOnePack_def send_done_def call_send_def send_ready_def send_goes_on_def)

lemma sendOnePack_complete:
  assumes "send_ready s" "send_goes_on res" "0 < result_count res" "int (result_count res) = needSendLen s"
  shows "sendOnePack add s r (st_fd s) EVENT_WRITE res = Inr (s\<lparr>sendStat := SENDED\<rparr>, r,
    [OutBytes (drop (nat (sendLen s)) (sendBuf s)), CallSend (the (sendCompleteCallback s)) SENDED])"
proof -
  have "take (result_count res) (drop (nat (sendLen s)) (sendBuf s)) = drop (nat (sendLen s)) (sendBuf s)"
    using assms(1,4) by (auto simp: send_ready_def)
  then show ?thesis
    using assms send_read [OF assms(1), of "result_count res"]
    by (cases res) (auto simp: sendOnePack_def send_done_def call_send_def send_ready_def send_goes_on_def)
qed

context event_reactor
begin

text \<open>
  A pass of \<open>_recvOnePack\<close> with a request under way never traps. It waits again with the bytes
  added to the buffer, it reports the error, or it reports the complete buffer.
\<close>

lemma recvOnePack_run:
  assumes "inv r" "0 \<le> st_fd s" "st_fd s < nfds r" "recv_ready s" "recv_fits s res"
  obtains (again) b r' bs where
      "recvOnePack add s r (st_fd s) EVENT_READ res = Inr (s\<lparr>recvLen := recvLen s + int (length bs),
         needRecvLen := needRecvLen s - int (length bs), recvStat := RECVING,
         recvBuf := take (nat (recvLen s)) (recvBuf s) @ bs @
           drop (nat (recvLen s) + length bs) (recvBuf s)\<rparr>, r', [])"
      "result_bytes res = bs" "int (length bs) < needRecvLen s"
      "add r (st_fd s) EVENT_READ (recvOnePackCall s) = Inr (b, r')"
  | (failed) os where
      "recvOnePack add s r (st_fd s) EVENT_READ res = Inr (s\<lparr>recvStat := RECVERR\<rparr>, r, os)"
      "recv_answers os = [(RECVERR, recvBuf s)]" "result_bytes res = []"
  | (complete) cb bs where
      "recvOnePack add s r (st_fd s) EVENT_READ res = Inr (s\<lparr>recvStat := RECVED,
         recvBuf := take (nat (recvLen s)) (recvBuf s) @ bs\<rparr>, r,
         [CallRecv cb RECVED (take (nat (recvLen s)) (recvBuf s) @ bs)])"
      "result_bytes res = bs" "int (length bs) = needRecvLen s" "recvCompleteCallback s = Some cb"
proof -
  obtain cb where cb: "recvCompleteCallback s = Some cb" using assms(4) by (auto simp: recv_ready_def)
  obtain b r' where add: "add r (st_fd s) EVENT_READ (recvOnePackCall s) = Inr (b, r')"
    using add_law [OF assms(1-3), of Rd "recvOnePackCall s"] by auto
  have fits: "int (length (result_bytes res)) \<le> needRecvLen s"
    using assms(4,5) by (cases res) (auto simp: recv_ready_def)
  consider "\<not> recv_goes_on res"
    | "recv_goes_on res" "int (length (result_bytes res)) < needRecvLen s"
    | "recv_goes_on res" "int (length (result_bytes res)) = needRecvLen s"
    using fits by linarith
  then show thesis
  proof cases
    case 1
    from failed [OF recvOnePack_failed(1) [OF assms(4) this]] recvOnePack_failed(2) [OF assms(4) this] cb
    show thesis by simp
  next
    case 2
    from again [OF recvOnePack_again [where add = add, OF assms(4) this add]] 2(2) add show thesis by simp
  next
    case 3
    from complete [OF recvOnePack_complete [OF assms(4) this]] 3(2) cb show thesis by simp
  qed
qed

lemma sendOnePack_run:
  assumes "inv r" "0 \<le> st_fd s" "st_fd s < nfds r" "send_ready s" "send_fits s res"
  obtains (again) b r' n os where
      "sendOnePack add s r (st_fd s) EVENT_WRITE res = Inr (s\<lparr>sendLen := sendLen s + int n,
         needSendLen := needSendLen s - int n, sendStat := SENDING\<rparr>, r', os)"
      "send_answers os = []" "out_bytes os = take n (drop (nat (sendLen s)) (sendBuf s))"
      "int n \<le> needSendLen s"
      "add r (st_fd s) EVENT_WRITE (sendOnePackCall s) = Inr (b, r')"
  | (failed) os where
      "sendOnePack add s r (st_fd s) EVENT_WRITE res = Inr (s\<lparr>sendStat := SENDERR\<rparr>, r, os)"
      "send_answers os = [SENDERR]" "out_bytes os = []"
  | (complete) os where
      "sendOnePack add s r (st_fd s) EVENT_WRITE res = Inr (s\<lparr>sendStat := SENDED\<rparr>, r, os)"
      "send_answers os = [SENDED]" "out_bytes os = drop (nat (sendLen s)) (sendBuf s)"
proof -
  obtain cb where cb: "sendCompleteCallback s = Some cb" using assms(4) by (auto simp: send_ready_def)
  obtain b r' where add: "add r (st_fd s) EVENT_WRITE (sendOnePackCall s) = Inr (b, r')"
    using add_law [OF assms(1-3), of Wr "sendOnePackCall s"] by auto
  have fits: "int (result_count res) \<le> needSendLen s"
    using assms(4,5) by (cases res) (auto simp: send_ready_def)
  consider "\<not> send_goes_on res"
    | "send_goes_on res" "result_count res = 0 \<or> int (result_count res) < needSendLen s"
    | "send_goes_on res" "0 < result_count res" "int (result_count res) = needSendLen s"
    using fits by linarith
  then show thesis
  proof cases
    case 1
    from failed [OF sendOnePack_failed [OF assms(4) this]] show thesis by simp
  next
    case 2
    from again [OF sendOnePack_again [where add = add, OF assms(4) this add]] fits add show thesis by (simp add: Let_def)
  next
    case 3
    from complete [OF sendOnePack_complete [OF assms(4) this]] show thesis by simp
  qed
qed

text \<open>A registration the stream makes for itself keeps the wiring.\<close>

lemma wired_add:
  assumes "inv r" "0 \<le> fd" "fd < nfds r" "add r fd (flag d) cb = Inr (b, r')"
  shows "inv r' \<and> nfds r' = nfds r \<and> handler r' = (if b then (handler r)((fd, d) \<mapsto> cb) else handler r)"
  using add_law [OF assms(1-3), of d cb] assms(4) by auto

lemma wired_fire:
  assumes "inv r" "handler r (fd, d) = Some h" "fire r fd d = Inr (Some (cb, ev), r1)"
  shows "cb = h \<and> ev = flag d \<and> inv r1 \<and> nfds r1 = nfds r \<and> handler r1 = (handler r)((fd, d) := None)"
  using fire_law [OF assms(1,2)] assms(3) by auto

lemma pipe_ask_recv:
  assumes "\<not> reading p" "\<not> rerr p"
    and "asyncRecvBytes add (pi_stream p) (pi_reactor p) num cb = Inr (b, s', r')"
    and "pipe_wired handler nfds inv p" "read_ok p" "write_ok p"
    and "p' = p\<lparr>pi_stream := s', pi_reactor := r',
      asked := (if b then asked p @ [nat num] else asked p), reading := b\<rparr>"
  shows "pipe_wired handler nfds inv p' \<and> read_ok p' \<and> write_ok p'"
  using assms(3)
proof (cases rule: asyncRecvBytes_cases)
  case refused
  then have "p' = p" using assms(1,7) by (cases p) simp
  with assms(4-6) show ?thesis by simp
next
  case asked
  have r': "inv r' \<and> nfds r' = nfds (pi_reactor p) \<and> handler r' = (if b
      then (handler (pi_reactor p))((st_fd (pi_stream p), Rd) \<mapsto> recvOnePackCall (pi_stream p))
      else handler (pi_reactor p))"
    using wired_add [of "pi_reactor p" "st_fd (pi_stream p)" Rd] asked(5) assms(4)
    by (simp add: pipe_wired_def Let_def)
  have "read_ok p'" using assms(1,2,5,7) asked by (auto simp: read_ok_def Let_def)
  moreover have "write_ok p'" using assms(6,7) asked(4) by (simp add: write_ok_def Let_def)
  moreover have "pipe_wired handler nfds inv p'"
    using r' assms(1,4,7) asked(4) by (auto simp: pipe_wired_def Let_def)
  ultimately show ?thesis by simp
qed

lemma pipe_ask_send:
  assumes "\<not> writing p" "\<not> werr p" "length bytes < 2 ^ 31"
    and "asyncSendBytes add (pi_stream p) (pi_reactor p) bytes cb = Inr (b, s', r')"
    and "pipe_wired handler nfds inv p" "read_ok p" "write_ok p"
    and "p' = p\<lparr>pi_stream := s', pi_reactor := r',
      posted := (if b then posted p @ [bytes] else posted p), writing := b\<rparr>"
  shows "pipe_wired handler nfds inv p' \<and> read_ok p' \<and> write_ok p'"
  using assms(4,3)
proof (cases rule: asyncSendBytes_cases)
  case refused
  then have "p' = p" using assms(1,8) by (cases p) simp
  with assms(5-7) show ?thesis by simp
next
  case asked
  have r': "inv r' \<and> nfds r' = nfds (pi_reactor p) \<and> handler r' = (if b
      then (handler (pi_reactor p))((st_fd (pi_stream p), Wr) \<mapsto> sendOnePackCall (pi_stream p))
      else handler (pi_reactor p))"
    using wired_add [of "pi_reactor p" "st_fd (pi_stream p)" Wr] asked(4) assms(5)
    by (simp add: pipe_wired_def Let_def)
  have "write_ok p'" using assms(1,2,7,8) asked by (auto simp: write_ok_def Let_def)
  moreover have "read_ok p'" using assms(6,8) asked(3) by (simp add: read_ok_def Let_def)
  moreover have "pipe_wired handler nfds inv p'"
    using r' assms(1,5,8) asked(3) by (auto simp: pipe_wired_def Let_def)
  ultimately show ?thesis by simp
qed

text \<open>Delivering a readable event with a request under way.\<close>

lemma wired_readable:
  assumes "handler (pi_reactor p) (st_fd (pi_stream p), d) = Some h"
    and "fire (pi_reactor p) (st_fd (pi_stream p)) d = Inr (Some (cb, ev), r1)"
    and "pipe_wired handler nfds inv p"
  shows "(if d = Rd then reading p else writing p) \<and> ev = flag d \<and> inv r1 \<and>
    nfds r1 = nfds (pi_reactor p) \<and> 0 \<le> st_fd (pi_stream p) \<and> st_fd (pi_stream p) < nfds r1 \<and>
    handler r1 = (handler (pi_reactor p))((st_fd (pi_stream p), d) := None)"
proof -
  have "inv (pi_reactor p)" using assms(3) by (simp add: pipe_wired_def Let_def)
  from wired_fire [OF this assms(1,2)] assms(1,3) show ?thesis
    by (cases d) (auto simp: pipe_wired_def Let_def)
qed

lemma pipe_on_readable:
  assumes "handler (pi_reactor p) (st_fd (pi_stream p), Rd) = Some h"
    and "fire (pi_reactor p) (st_fd (pi_stream p)) Rd = Inr (Some (cb, ev), r1)"
    and "recv_fits (pi_stream p) res"
    and "recvOnePack add (pi_stream p) r1 (st_fd (pi_stream p)) ev res = Inr (s', r', os)"
    and "pipe_wired handler nfds inv p" "read_ok p" "write_ok p"
    and "p' = p\<lparr>pi_stream := s', pi_reactor := r', rx := rx p @ result_bytes res,
      ins := ins p @ map snd (filter (\<lambda>(st, buf). st = RECVED) (recv_answers os)),
      reading := (recv_answers os = []),
      rerr := (rerr p \<or> (\<exists>(st, buf) \<in> set (recv_answers os). st = RECVERR))\<rparr>"
  shows "pipe_wired handler nfds inv p' \<and> read_ok p' \<and> write_ok p'"
proof -
  let ?s = "pi_stream p"
  note w = wired_readable [OF assms(1,2,5), simplified]
  have rd: "reading p" using w by simp
  have "inv r1" "0 \<le> st_fd ?s" "st_fd ?s < nfds r1" "recv_ready ?s"
    using w read_ok_ready [OF assms(6) rd] by simp_all
  then show ?thesis using assms(3)
  proof (cases rule: recvOnePack_run)
    case (again b r'' bs)
    have r'': "inv r'' \<and> nfds r'' = nfds r1 \<and>
        handler r'' = (if b then (handler r1)((st_fd ?s, Rd) \<mapsto> recvOnePackCall ?s) else handler r1)"
      using wired_add [of r1 "st_fd ?s" Rd] again(4) w by simp
    have p': "p' = p\<lparr>pi_stream := s', pi_reactor := r', rx := rx p @ bs, reading := True\<rparr>"
      using assms(4,8) again(1,2) w by (cases p) simp
    show ?thesis using again(1,3) assms(4-7) w r''
      by (auto simp: p' pipe_wired_def Let_def intro: read_ok_again)
  next
    case (failed os')
    have p': "p' = p\<lparr>pi_stream := s', pi_reactor := r', reading := False, rerr := True\<rparr>"
      using assms(4,8) failed w by (cases p) simp
    show ?thesis using failed(1) assms(4-7) w
      by (auto simp: p' pipe_wired_def Let_def intro: read_ok_failed)
  next
    case (complete cb' bs)
    let ?buf = "take (nat (recvLen ?s)) (recvBuf ?s) @ bs"
    have p': "p' = p\<lparr>pi_stream := s', pi_reactor := r', rx := rx p @ bs, ins := ins p @ [?buf],
        reading := False\<rparr>"
      using assms(4,8) complete(1,2) w by (cases p) simp
    show ?thesis using complete(1,3) assms(4-7) w
      by (auto simp: p' pipe_wired_def Let_def intro: read_ok_complete)
  qed
qed

lemma pipe_on_writable:
  assumes "handler (pi_reactor p) (st_fd (pi_stream p), Wr) = Some h"
    and "fire (pi_reactor p) (st_fd (pi_stream p)) Wr = Inr (Some (cb, ev), r1)"
    and "send_fits (pi_stream p) res"
    and "sendOnePack add (pi_stream p) r1 (st_fd (pi_stream p)) ev res = Inr (s', r', os)"
    and "pipe_wired handler nfds inv p" "read_ok p" "write_ok p"
    and "p' = p\<lparr>pi_stream := s', pi_reactor := r', tx := tx p @ out_bytes os,
      outs := (if SENDED \<in> set (send_answers os) then outs p @ [sendBuf (pi_stream p)] else outs p),
      writing := (send_answers os = []),
      werr := (werr p \<or> SENDERR \<in> set (send_answers os))\<rparr>"
  shows "pipe_wired handler nfds inv p' \<and> read_ok p' \<and> write_ok p'"
proof -
  let ?s = "pi_stream p"
  note w = wired_readable [OF assms(1,2,5), simplified]
  have wr: "writing p" using w by simp
  have "inv r1" "0 \<le> st_fd ?s" "st_fd ?s < nfds r1" "send_ready ?s"
    using w write_ok_ready [OF assms(7) wr] by simp_all
  then show ?thesis using assms(3)
  proof (cases rule: sendOnePack_run)
    case (again b r'' n os')
    have r'': "inv r'' \<and> nfds r'' = nfds r1 \<and>
        handler r'' = (if b then (handler r1)((st_fd ?s, Wr) \<mapsto> sendOnePackCall ?s) else handler r1)"
      using wired_add [of r1 "st_fd ?s" Wr] again(5) w by simp
    have p': "p' = p\<lparr>pi_stream := s', pi_reactor := r',
        tx := tx p @ take n (drop (nat (sendLen ?s)) (sendBuf ?s)), writing := True\<rparr>"
      using assms(4,8) again(1-3) w by (cases p) simp
    show ?thesis using again(1,4) assms(4-7) w r''
      by (auto simp: p' pipe_wired_def Let_def intro: write_ok_again)
  next
    case (failed os')
    have p': "p' = p\<lparr>pi_stream := s', pi_reactor := r', writing := False, werr := True\<rparr>"
      using assms(4,8) failed w by (cases p) simp
    show ?thesis using failed(1) assms(4-7) w
      by (auto simp: p' pipe_wired_def Let_def intro: write_ok_failed)
  next
    case (complete os')
    have p': "p' = p\<lparr>pi_stream := s', pi_reactor := r',
        tx := tx p @ drop (nat (sendLen ?s)) (sendBuf ?s), outs := outs p @ [sendBuf ?s],
        writing := False\<rparr>"
      using assms(4,8) complete w by (cases p) simp
    show ?thesis using complete(1) assms(4-7) w
      by (auto simp: p' pipe_wired_def Let_def intro: write_ok_complete)
  qed
qed

lemma pipe_step_inv:
  assumes "pipe_step add fire handler p p'" "pipe_wired handler nfds inv p" "read_ok p" "write_ok p"
  shows "pipe_wired handler nfds inv p' \<and> read_ok p' \<and> write_ok p'"
  using assms(1)
proof cases
  case (ask_recv num cb b s' r')
  from pipe_ask_recv [OF ask_recv(2-4) assms(2-4) ask_recv(1)] show ?thesis .
next
  case (on_readable h cb ev r1 res s' r' os)
  from pipe_on_readable [OF on_readable(2,3,5,6) assms(2-4) on_readable(1)] show ?thesis .
next
  case (ask_send bytes cb b s' r')
  from pipe_ask_send [OF ask_send(2-5) assms(2-4) ask_send(1)] show ?thesis .
next
  case (on_writable h cb ev r1 res s' r' os)
  from pipe_on_writable [OF on_writable(2,3,5,6) assms(2-4) on_writable(1)] show ?thesis .
qed

lemma pipe_reach_inv:
  assumes "pipe_reach add fire handler s r p" "inv r" "0 \<le> st_fd s" "st_fd s < nfds r"
    and "handler r (st_fd s, Rd) = None" "handler r (st_fd s, Wr) = None"
  shows "pipe_wired handler nfds inv p \<and> read_ok p \<and> write_ok p"
  using assms(1)
proof (induction rule: pipe_reach.induct)
  case start
  then show ?case using assms(2-)
    by (simp add: pipe_init_def pipe_wired_def read_ok_def write_ok_def Let_def)
next
  case (step p p')
  then show ?case using pipe_step_inv by blast
qed

text \<open>No event a request is waiting for can trap.\<close>

lemma pipe_event_safe:
  assumes "pipe_wired handler nfds inv p" "read_ok p" "write_ok p"
    and "handler (pi_reactor p) (st_fd (pi_stream p), d) = Some h"
  shows "\<exists>r1. fire (pi_reactor p) (st_fd (pi_stream p)) d = Inr (Some (h, flag d), r1) \<and>
    (d = Rd \<longrightarrow> h = recvOnePackCall (pi_stream p) \<and> (\<forall>res. recv_fits (pi_stream p) res \<longrightarrow>
      (\<exists>x. recvOnePack add (pi_stream p) r1 (st_fd (pi_stream p)) (flag d) res = Inr x))) \<and>
    (d = Wr \<longrightarrow> h = sendOnePackCall (pi_stream p) \<and> (\<forall>res. send_fits (pi_stream p) res \<longrightarrow>
      (\<exists>x. sendOnePack add (pi_stream p) r1 (st_fd (pi_stream p)) (flag d) res = Inr x)))"
proof -
  let ?s = "pi_stream p"
  have inv: "inv (pi_reactor p)" using assms(1) by (simp add: pipe_wired_def Let_def)
  obtain r1 where r1: "fire (pi_reactor p) (st_fd ?s) d = Inr (Some (h, flag d), r1)"
    using fire_law [OF inv assms(4)] by blast
  note w = wired_readable [OF assms(4) r1 assms(1)]
  have h: "h = (if d = Rd then recvOnePackCall ?s else sendOnePackCall ?s)"
    using assms(1,4) by (cases d) (auto simp: pipe_wired_def Let_def)
  have "\<exists>x. recvOnePack add ?s r1 (st_fd ?s) EVENT_READ res = Inr x" if "d = Rd" "recv_fits ?s res" for res
    using w read_ok_ready [OF assms(2)] that by (auto elim: recvOnePack_run [of r1 ?s res])
  moreover have "\<exists>x. sendOnePack add ?s r1 (st_fd ?s) EVENT_WRITE res = Inr x"
    if "d = Wr" "send_fits ?s res" for res
    using w write_ok_ready [OF assms(3)] that by (auto elim: sendOnePack_run [of r1 ?s res])
  ultimately show ?thesis using r1 h by auto
qed

end

section \<open>A stream over libevent\<close>

text \<open>The registration of \<open>LibeventReactor\<close> with a callback that is not null.\<close>

abbreviation lev_add :: "libevent \<Rightarrow> 'cb reactor \<Rightarrow> int \<Rightarrow> event_flags \<Rightarrow> 'cb \<Rightarrow>
    (bool \<times> 'cb reactor) outcome" where
  "lev_add lib r fd ev cb \<equiv> addEventHandler lib r fd ev (Some cb)"

text \<open>A stream on descriptor \<open>fd\<close> of a reactor that does not wait for this descriptor yet.\<close>

definition stream_start :: "libevent \<Rightarrow> int \<Rightarrow> 'cb reactor \<Rightarrow> int \<Rightarrow> bool" where
  "stream_start lib n r fd \<longleftrightarrow> reactor_inv r \<and> reactor_nfds r = n \<and> 0 < fd \<and> fd < n \<and>
     reactor_handler r (fd, Rd) = None \<and> reactor_handler r (fd, Wr) = None"

lemma stream_reach_inv:
  assumes "stream_start lib n r fd"
    and "pipe_reach (lev_add lib) dispatch reactor_handler (new_Stream fd rc sc) r p"
  shows "pipe_wired reactor_handler reactor_nfds reactor_inv p \<and> read_ok p \<and> write_ok p"
  using lev.pipe_reach_inv [OF assms(2)] assms(1) by (simp add: stream_start_def new_Stream_def)

text \<open>A reactor for five descriptors, and a stream on descriptor 3 that has been asked for two
  bytes, received them, and has then been asked to send three.\<close>

definition reactor5 :: "string reactor" where
  "reactor5 = new_LibeventReactor\<lparr>pBase := True,
     pEventBundleMap := Owns (replicate 5 new_EventBundle), lib_calls := [(EventBaseNew, True)]\<rparr>"

lemma reactor5_start: "stream_start (\<lambda>_ _. True) 5 reactor5 3"
  by (simp add: stream_start_def reactor5_def reactor_inv_def bundles_ok_def reactor_nfds_def
      reactor_handler_def bundle_handler_def)

lemma stream_example:
  "\<exists>p :: (string, nat, string reactor) pipe. pipe_reach (lev_add (\<lambda>_ _. True)) dispatch reactor_handler
      (new_Stream 3 ''recv'' ''send'') reactor5 p \<and>
    rx p = ''ab'' \<and> ins p = [''ab''] \<and> posted p = [''xyz''] \<and> writing p \<and> outs p = [] \<and>
    reactor_handler (pi_reactor p) (3, Wr) = Some ''send'' \<and> st_fd (pi_stream p) = 3"
proof -
  let ?lib = "\<lambda>_ _. True" and ?s0 = "new_Stream 3 ''recv'' ''send'' :: (string, nat) stream"
  let ?reach = "pipe_reach (lev_add ?lib) dispatch reactor_handler ?s0 reactor5"
  have inv: "reactor_inv reactor5" "3 < reactor_nfds reactor5"
    using reactor5_start by (auto simp: stream_start_def)
  obtain r1 where r1: "lev_add ?lib reactor5 3 EVENT_READ ''recv'' = Inr (True, r1)"
    using lib_adds_add [OF lib_adds_True inv(1) _ inv(2), of Rd "''recv''"] by auto
  have r1': "reactor_inv r1" "reactor_nfds r1 = reactor_nfds reactor5"
    "reactor_handler r1 (3, Rd) = Some ''recv''"
    using lev.add_law [OF inv(1) _ inv(2), of ?lib Rd "''recv''"] r1 by auto
  let ?s1 = "?s0\<lparr>recvLen := 0, needRecvLen := 2, recvBuf := resize 2 (recvBuf ?s0),
    recvCompleteCallback := Some 5\<rparr>"
  let ?p0 = "pipe_init ?s0 reactor5"
  let ?p1 = "?p0\<lparr>pi_stream := ?s1, pi_reactor := r1, asked := [2], reading := True\<rparr>"
  have "?reach ?p1"
    using pipe_reach.step [OF pipe_reach.start pipe_step.ask_recv [of ?p0 _ 2 "Some 5" True ?s1 r1]] r1
    by (simp add: asyncRecvBytes_def DEFAULT_BUFF_LEN_def pipe_init_def new_Stream_def)
  obtain r2 where r2: "dispatch r1 3 Rd = Inr (Some (''recv'', EVENT_READ), r2)" "reactor_inv r2"
    "reactor_nfds r2 = reactor_nfds r1"
    using lev.fire_law [OF r1'(1,3)] by auto
  let ?s2 = "?s1\<lparr>recvBuf := ''ab'', recvStat := RECVED\<rparr>"
  let ?p2 = "?p1\<lparr>pi_stream := ?s2, pi_reactor := r2, rx := ''ab'', ins := [''ab''], reading := False,
    rerr := False\<rparr>"
  have "?reach ?p2"
    using pipe_reach.step [OF \<open>?reach ?p1\<close> pipe_step.on_readable
        [of _ ?p1 "''recv''" _ _ EVENT_READ r2 "Received ''ab''" _ ?s2 r2 "[CallRecv 5 RECVED ''ab'']"]]
      r1'(3) r2(1)
    by (simp add: recvOnePack_def write_at_def call_recv_def pipe_init_def new_Stream_def)
  obtain r3 where r3: "lev_add ?lib r2 3 EVENT_WRITE ''send'' = Inr (True, r3)"
    "reactor_handler r3 (3, Wr) = Some ''send''"
    using lib_adds_add [OF lib_adds_True r2(2), of 3 Wr "''send''"] r2(3) r1'(2) inv(2)
      lev.add_law [OF r2(2), of 3 ?lib Wr "''send''"] by auto
  let ?s3 = "?s2\<lparr>sendLen := 0, needSendLen := 3, sendBuf := ''xyz'', sendCompleteCallback := Some 6\<rparr>"
  let ?p3 = "?p2\<lparr>pi_stream := ?s3, pi_reactor := r3, posted := [''xyz''], writing := True\<rparr>"
  have "?reach ?p3"
    using pipe_reach.step [OF \<open>?reach ?p2\<close> pipe_step.ask_send [of ?p2 "''xyz''" _ "Some 6" True ?s3 r3]]
      r3(1)
    by (simp add: asyncSendBytes_def DEFAULT_BUFF_LEN_def int_of_size_def pipe_init_def new_Stream_def)
  with r3(2) show ?thesis by (intro exI [of _ ?p3]) (simp add: pipe_init_def new_Stream_def)
qed

section \<open>Properties\<close>

text \<open>
  C1: A stream delivers what it receives, in order and without loss. In every reachable state,
  however the bytes arrive and the calls are interrupted, the bytes taken from the socket are the
  buffers handed to the user, in order, followed by the bytes of the request under way; each
  buffer has exactly the size that was asked for; and when no request is under way and none has
  failed, nothing has been taken that was not handed over.
\<close>

theorem stream_receives_in_order:
  assumes "stream_start lib n r fd"
    and "pipe_reach (lev_add lib) dispatch reactor_handler (new_Stream fd rc sc) r p"
  shows "\<exists>rest. rx p = concat (ins p) @ rest \<and>
    (\<not> reading p \<and> \<not> rerr p \<longrightarrow> rest = [] \<and> asked p = map length (ins p)) \<and>
    (reading p \<longrightarrow> asked p = map length (ins p) @ [length (recvBuf (pi_stream p))] \<and>
      rest = take (nat (recvLen (pi_stream p))) (recvBuf (pi_stream p)) \<and>
      int (length rest) + needRecvLen (pi_stream p) = int (length (recvBuf (pi_stream p))))"
proof -
  have "read_ok p" using stream_reach_inv [OF assms] by blast
  then show ?thesis by (auto simp: read_ok_def Let_def)
qed

theorem stream_receives_in_order_witness:
  "\<exists>p :: (string, nat, string reactor) pipe. pipe_reach (lev_add (\<lambda>_ _. True)) dispatch reactor_handler
      (new_Stream 3 ''recv'' ''send'') reactor5 p \<and> rx p = ''ab'' \<and> (\<exists>rest. rx p = concat (ins p) @ rest)"
proof -
  obtain p :: "(string, nat, string reactor) pipe" where p:
    "pipe_reach (lev_add (\<lambda>_ _. True)) dispatch reactor_handler (new_Stream 3 ''recv'' ''send'') reactor5 p"
    "rx p = ''ab''"
    using stream_example by blast
  from stream_receives_in_order [OF reactor5_start p(1)] p show ?thesis by blast
qed

text \<open>
  C15: A stream sends what it is given, in order and once. In every reachable state the bytes given
  to the socket are the buffers reported as sent, in order, followed by the first \<open>sendLen_\<close>
  bytes of the buffer under way, and the buffers the user has asked to send are those reported,
  followed by the one under way; a buffer is reported as sent only when all of it has been given
  to the socket.
\<close>

theorem stream_sends_in_order:
  assumes "stream_start lib n r fd"
    and "pipe_reach (lev_add lib) dispatch reactor_handler (new_Stream fd rc sc) r p"
  shows "\<exists>rest. tx p = concat (outs p) @ rest \<and>
    (\<not> writing p \<and> \<not> werr p \<longrightarrow> rest = [] \<and> posted p = outs p) \<and>
    (writing p \<longrightarrow> posted p = outs p @ [sendBuf (pi_stream p)] \<and>
      rest = take (nat (sendLen (pi_stream p))) (sendBuf (pi_stream p)) \<and>
      int (length rest) + needSendLen (pi_stream p) = int (length (sendBuf (pi_stream p))))"
proof -
  have "write_ok p" using stream_reach_inv [OF assms] by blast
  then show ?thesis by (auto simp: write_ok_def Let_def)
qed

theorem stream_sends_in_order_witness:
  "\<exists>p :: (string, nat, string reactor) pipe. pipe_reach (lev_add (\<lambda>_ _. True)) dispatch reactor_handler
      (new_Stream 3 ''recv'' ''send'') reactor5 p \<and> writing p \<and> sendBuf (pi_stream p) = ''xyz''"
proof -
  obtain p :: "(string, nat, string reactor) pipe" where p:
    "pipe_reach (lev_add (\<lambda>_ _. True)) dispatch reactor_handler (new_Stream 3 ''recv'' ''send'') reactor5 p"
    "writing p" "posted p = [''xyz'']" "outs p = []"
    using stream_example by blast
  from stream_sends_in_order [OF reactor5_start p(1)] p show ?thesis by auto
qed

text \<open>
  C32: No event traps. In every reachable state, an event the reactor waits for on behalf of the
  stream calls the stream's own handler of that direction, and the handler returns whatever
  \<open>recv\<close> or \<open>send\<close> answers: its assertion holds, it writes and reads inside its buffers and
  the callback it calls is not null.
\<close>

theorem stream_events_safe:
  assumes "stream_start lib n r fd"
    and "pipe_reach (lev_add lib) dispatch reactor_handler (new_Stream fd rc sc) r p"
    and "reactor_handler (pi_reactor p) (st_fd (pi_stream p), d) = Some h"
  shows "\<exists>r1. dispatch (pi_reactor p) (st_fd (pi_stream p)) d = Inr (Some (h, flag d), r1) \<and>
    (d = Rd \<longrightarrow> h = recvOnePackCall (pi_stream p) \<and> (\<forall>res. recv_fits (pi_stream p) res \<longrightarrow>
      (\<exists>x. recvOnePack (lev_add lib) (pi_stream p) r1 (st_fd (pi_stream p)) (flag d) res = Inr x))) \<and>
    (d = Wr \<longrightarrow> h = sendOnePackCall (pi_stream p) \<and> (\<forall>res. send_fits (pi_stream p) res \<longrightarrow>
      (\<exists>x. sendOnePack (lev_add lib) (pi_stream p) r1 (st_fd (pi_stream p)) (flag d) res = Inr x)))"
  using lev.pipe_event_safe [of p d h lib] stream_reach_inv [OF assms(1,2)] assms(3) by blast

theorem stream_events_safe_witness:
  "\<exists>p :: (string, nat, string reactor) pipe. reactor_handler (pi_reactor p) (3, Wr) = Some ''send'' \<and>
     sendOnePackCall (pi_stream p) = ''send''"
proof -
  obtain p :: "(string, nat, string reactor) pipe" where p:
    "pipe_reach (lev_add (\<lambda>_ _. True)) dispatch reactor_handler (new_Stream 3 ''recv'' ''send'') reactor5 p"
    "reactor_handler (pi_reactor p) (3, Wr) = Some ''send''" "st_fd (pi_stream p) = 3"
    using stream_example by blast
  from stream_events_safe [OF reactor5_start p(1), of Wr "''send''"] p(2,3) show ?thesis by auto
qed

end
