(* ===== verification/WaitFreeConcurrentRingBuffer.thy ===== *)
theory WaitFreeConcurrentRingBuffer
  imports ConcurrentRingBuffer
begin

text \<open>
  The template \<open>WaitFreeConcurrentRingBuffer<T>\<close> of
  \<open>multi-threading/WaitFreeConcurrentRingBuffer.h\<close>, twice. First each operation as one call
  that nothing interrupts, which is a bounded queue. Then the queue as one producer thread and
  one consumer thread use it: a step is one access to shared memory, the steps of the two threads
  interleave freely, and a load of the other thread's index may return an older value of it, as
  the release and acquire orderings of the code allow.
\<close>

section \<open>The operations, uninterrupted\<close>

record 'a wfring =
  wf_buff :: "'a list"
  wf_size :: size_t
  wf_head :: size_t
  wf_tail :: size_t

definition wf_new :: "'a \<Rightarrow> size_t \<Rightarrow> 'a wfring" where
  "wf_new d sz = \<lparr>wf_buff = replicate (unat sz) d, wf_size = sz, wf_head = 0, wf_tail = 0\<rparr>"

definition wf_next :: "size_t \<Rightarrow> size_t \<Rightarrow> size_t outcome" where
  "wf_next sz index = (if sz = 0 then Inl DivisionByZero else Inr ((index + 1) mod sz))"

definition wf_asyncPut :: "'a wfring \<Rightarrow> 'a \<Rightarrow> (bool \<times> 'a wfring) outcome" where
  "wf_asyncPut r obj =
     (let head = wf_head r; tail = wf_tail r in
      and_then (wf_next (wf_size r) head) (\<lambda>nextIdx.
        if nextIdx = tail then Inr (False, r)
        else if unat head < length (wf_buff r)
        then Inr (True, r\<lparr>wf_buff := (wf_buff r)[unat head := obj], wf_head := nextIdx\<rparr>)
        else Inl OutOfBounds))"

definition wf_asyncGet :: "'a wfring \<Rightarrow> (bool \<times> 'a option \<times> 'a wfring) outcome" where
  "wf_asyncGet r =
     (let tail = wf_tail r; head = wf_head r in
      if tail = head then Inr (False, None, r)
      else if unat tail < length (wf_buff r)
      then and_then (wf_next (wf_size r) tail) (\<lambda>nextIdx.
        Inr (True, Some (wf_buff r ! unat tail), r\<lparr>wf_tail := nextIdx\<rparr>))
      else Inl OutOfBounds)"

text \<open>
  Uninterrupted, the operations are those of \<open>ConcurrentRingBuffer\<close> without the waiting: both
  classes keep the same data, so the abstraction to a queue is shared.
\<close>

definition wf_ring :: "'a wfring \<Rightarrow> 'a ring" where
  "wf_ring r = \<lparr>rb_buff = wf_buff r, rb_size = wf_size r, rb_head = wf_head r, rb_tail = wf_tail r\<rparr>"

definition wf_inv :: "'a wfring \<Rightarrow> bool" where
  "wf_inv r \<longleftrightarrow> crb_inv (wf_ring r)"

definition wf_items :: "'a wfring \<Rightarrow> 'a list" where
  "wf_items r = crb_items (wf_ring r)"

definition wf_cap :: "'a wfring \<Rightarrow> nat" where
  "wf_cap r = crb_cap (wf_ring r)"

lemma wf_asyncPut_sim:
  "wf_inv r \<Longrightarrow> \<exists>b r'. wf_asyncPut r x = Inr (b, r') \<and>
     crb_syncPut (wf_ring r) x = Inr (if b then Some (wf_ring r') else None)"
  by (auto simp: wf_asyncPut_def wf_next_def crb_ops wf_ring_def Let_def wf_inv_def crb_inv_def
      word_less_nat_alt)

lemma wf_asyncGet_sim:
  "wf_inv r \<Longrightarrow> \<exists>b y r'. wf_asyncGet r = Inr (b, y, r') \<and> b = (y \<noteq> None) \<and>
     crb_syncGet (wf_ring r) = Inr (map_option (\<lambda>x. (True, x, wf_ring r')) y)"
  by (auto simp: wf_asyncGet_def wf_next_def crb_ops wf_ring_def Let_def wf_inv_def crb_inv_def
      word_less_nat_alt)

definition wf_put :: "'a wfring \<Rightarrow> 'a \<Rightarrow> 'a wfring option" where
  "wf_put r x = (case wf_asyncPut r x of Inr (True, r') \<Rightarrow> Some r' | _ \<Rightarrow> None)"

definition wf_get :: "'a wfring \<Rightarrow> ('a \<times> 'a wfring) option" where
  "wf_get r = (case wf_asyncGet r of Inr (_, Some x, r') \<Rightarrow> Some (x, r') | _ \<Rightarrow> None)"

lemma wf_put_sim: "wf_inv r \<Longrightarrow> crb_put (wf_ring r) x = map_option wf_ring (wf_put r x)"
  using wf_asyncPut_sim [of r x] by (auto simp: wf_put_def crb_put_def)

lemma wf_get_sim: "wf_inv r \<Longrightarrow> crb_get (wf_ring r) = map_option (map_prod id wf_ring) (wf_get r)"
  using wf_asyncGet_sim [of r] by (auto simp: wf_get_def crb_get_def split: option.splits)

interpretation wfq: bounded_queue wf_put wf_get wf_items wf_cap wf_inv
proof (unfold_locales, goal_cases)
  case (1 q x)
  then show ?case
    using crb.put_full [of "wf_ring q" x] wf_put_sim [of q x]
    by (simp add: wf_inv_def wf_items_def wf_cap_def)
next
  case (2 q x q')
  then show ?case
    using crb.put_items [of "wf_ring q" x "wf_ring q'"] wf_put_sim [of q x]
    by (simp add: wf_inv_def wf_items_def)
next
  case (3 q x q')
  then show ?case
    using crb.put_inv [of "wf_ring q" x "wf_ring q'"] wf_put_sim [of q x] by (simp add: wf_inv_def)
next
  case (4 q x q')
  then show ?case
    using crb.put_cap [of "wf_ring q" x "wf_ring q'"] wf_put_sim [of q x]
    by (simp add: wf_inv_def wf_cap_def)
next
  case (5 q)
  then show ?case
    using crb.get_empty [of "wf_ring q"] wf_get_sim [of q] by (simp add: wf_inv_def wf_items_def)
next
  case (6 q x q')
  then show ?case
    using crb.get_items [of "wf_ring q" x "wf_ring q'"] wf_get_sim [of q]
    by (simp add: wf_inv_def wf_items_def)
next
  case (7 q x q')
  then show ?case
    using crb.get_inv [of "wf_ring q" x "wf_ring q'"] wf_get_sim [of q] by (simp add: wf_inv_def)
next
  case (8 q x q')
  then show ?case
    using crb.get_cap [of "wf_ring q" x "wf_ring q'"] wf_get_sim [of q]
    by (simp add: wf_inv_def wf_cap_def)
next
  case (9 q)
  then show ?case
    using crb.items_bound [of "wf_ring q"] by (simp add: wf_inv_def wf_items_def wf_cap_def)
qed

lemma wf_new_inv [simp]: "0 < n \<Longrightarrow> wf_inv (wf_new d n)"
  and wf_new_items [simp]: "wf_items (wf_new d n) = []"
  using crb_new_inv [of n d] crb_new_items [of d n]
  by (simp_all add: wf_inv_def wf_items_def wf_ring_def wf_new_def crb_new_def)

section \<open>One producer, one consumer, interleaved\<close>

text \<open>
  Where the producer is inside \<open>asyncPut\<close>: it has loaded \<open>head_\<close>; it has also loaded
  \<open>tail_\<close>; it has written the element and \<open>nextIdx\<close> is still to be stored. The consumer in
  \<open>asyncGet\<close> likewise: it has loaded \<open>tail_\<close>; it has also loaded \<open>head_\<close>; it has read the
  element and the next \<open>tail_\<close> is still to be stored.
\<close>

datatype 'a producer =
    PIdle
  | PHead 'a size_t
  | PTail 'a size_t size_t
  | PWritten 'a size_t

datatype 'a consumer =
    CIdle
  | CTail size_t
  | CHead size_t size_t
  | CRead 'a size_t

text \<open>
  The atomic indices are kept with their modification order, oldest value first. A thread that
  is not the writer of an index may load any value that is not older than the one it loaded
  before (\<open>pview\<close>, \<open>cview\<close> are the positions it has seen); the writer itself loads the latest
  value. \<open>sent\<close> and \<open>received\<close> record the elements whose operation has returned true.
\<close>

record 'a spsc =
  sp_buff :: "'a list"
  sp_size :: size_t
  head_hist :: "size_t list"
  tail_hist :: "size_t list"
  pview :: nat
  cview :: nat
  p_at :: "'a producer"
  c_at :: "'a consumer"
  sent :: "'a list"
  received :: "'a list"

definition spsc_init :: "'a \<Rightarrow> size_t \<Rightarrow> 'a spsc" where
  "spsc_init d sz = \<lparr>sp_buff = replicate (unat sz) d, sp_size = sz, head_hist = [0],
     tail_hist = [0], pview = 0, cview = 0, p_at = PIdle, c_at = CIdle, sent = [], received = []\<rparr>"

inductive spsc_step :: "'a spsc \<Rightarrow> 'a spsc \<Rightarrow> bool" where
  p_load_head: "p_at s = PIdle \<Longrightarrow>
     spsc_step s (s\<lparr>p_at := PHead x (last (head_hist s))\<rparr>)"
| p_load_tail: "p_at s = PHead x h \<Longrightarrow> pview s \<le> v \<Longrightarrow> v < length (tail_hist s) \<Longrightarrow>
     spsc_step s (s\<lparr>p_at := PTail x h (tail_hist s ! v), pview := v\<rparr>)"
| p_full: "p_at s = PTail x h t \<Longrightarrow> wf_next (sp_size s) h = Inr t \<Longrightarrow>
     spsc_step s (s\<lparr>p_at := PIdle\<rparr>)"
| p_write: "p_at s = PTail x h t \<Longrightarrow> wf_next (sp_size s) h = Inr n \<Longrightarrow> n \<noteq> t \<Longrightarrow>
     unat h < length (sp_buff s) \<Longrightarrow>
     spsc_step s (s\<lparr>p_at := PWritten x n, sp_buff := (sp_buff s)[unat h := x]\<rparr>)"
| p_store_head: "p_at s = PWritten x n \<Longrightarrow>
     spsc_step s (s\<lparr>p_at := PIdle, head_hist := head_hist s @ [n], sent := sent s @ [x]\<rparr>)"
| c_load_tail: "c_at s = CIdle \<Longrightarrow>
     spsc_step s (s\<lparr>c_at := CTail (last (tail_hist s))\<rparr>)"
| c_load_head: "c_at s = CTail t \<Longrightarrow> cview s \<le> v \<Longrightarrow> v < length (head_hist s) \<Longrightarrow>
     spsc_step s (s\<lparr>c_at := CHead t (head_hist s ! v), cview := v\<rparr>)"
| c_empty: "c_at s = CHead t t \<Longrightarrow>
     spsc_step s (s\<lparr>c_at := CIdle\<rparr>)"
| c_read: "c_at s = CHead t h \<Longrightarrow> t \<noteq> h \<Longrightarrow> unat t < length (sp_buff s) \<Longrightarrow>
     spsc_step s (s\<lparr>c_at := CRead (sp_buff s ! unat t) t\<rparr>)"
| c_store_tail: "c_at s = CRead x t \<Longrightarrow> wf_next (sp_size s) t = Inr n \<Longrightarrow>
     spsc_step s (s\<lparr>c_at := CIdle, tail_hist := tail_hist s @ [n], received := received s @ [x]\<rparr>)"

inductive spsc_reach :: "'a \<Rightarrow> size_t \<Rightarrow> 'a spsc \<Rightarrow> bool" for d sz where
  start: "spsc_reach d sz (spsc_init d sz)"
| step: "spsc_reach d sz s \<Longrightarrow> spsc_step s s' \<Longrightarrow> spsc_reach d sz s'"

section \<open>The invariant\<close>

text \<open>
  The \<open>k\<close>-th value of an index is \<open>k mod size\<close>, where \<open>k\<close> is the number of operations that
  have returned true. With \<open>H\<close> elements sent and \<open>T\<close> received, the slots \<open>T \<dots> H - 1\<close>
  hold the elements in transit; what a thread has loaded of the other's index may be old, but
  never so old that it misleads.
\<close>

definition sp_index :: "size_t \<Rightarrow> nat \<Rightarrow> size_t" where
  "sp_index sz k = of_nat (k mod unat sz)"

definition spsc_shape :: "'a spsc \<Rightarrow> bool" where
  "spsc_shape s \<longleftrightarrow> 0 < sp_size s \<and> length (sp_buff s) = unat (sp_size s) \<and>
     head_hist s = map (sp_index (sp_size s)) [0..<Suc (length (sent s))] \<and>
     tail_hist s = map (sp_index (sp_size s)) [0..<Suc (length (received s))]"

definition spsc_views :: "'a spsc \<Rightarrow> bool" where
  "spsc_views s \<longleftrightarrow> pview s \<le> length (received s) \<and> length (received s) \<le> cview s \<and>
     cview s \<le> length (sent s) \<and> length (sent s) < pview s + unat (sp_size s)"

definition spsc_content :: "'a spsc \<Rightarrow> bool" where
  "spsc_content s \<longleftrightarrow> received s = take (length (received s)) (sent s) \<and>
     (\<forall>k. length (received s) \<le> k \<longrightarrow> k < length (sent s) \<longrightarrow>
        sp_buff s ! (k mod unat (sp_size s)) = sent s ! k)"

text \<open>What the local variables of the two threads say, with \<open>H\<close> elements sent, \<open>T\<close> received.\<close>

fun prod_ok :: "size_t \<Rightarrow> nat \<Rightarrow> nat \<Rightarrow> 'a list \<Rightarrow> 'a producer \<Rightarrow> bool" where
  "prod_ok sz H pv buf PIdle = True"
| "prod_ok sz H pv buf (PHead x h) = (h = sp_index sz H)"
| "prod_ok sz H pv buf (PTail x h t) = (h = sp_index sz H \<and> t = sp_index sz pv)"
| "prod_ok sz H pv buf (PWritten x n) =
     (n = sp_index sz (Suc H) \<and> Suc H < pv + unat sz \<and> buf ! (H mod unat sz) = x)"

fun cons_ok :: "size_t \<Rightarrow> nat \<Rightarrow> nat \<Rightarrow> 'a list \<Rightarrow> 'a consumer \<Rightarrow> bool" where
  "cons_ok sz T cv snt CIdle = True"
| "cons_ok sz T cv snt (CTail t) = (t = sp_index sz T)"
| "cons_ok sz T cv snt (CHead t h) = (t = sp_index sz T \<and> h = sp_index sz cv)"
| "cons_ok sz T cv snt (CRead x t) = (t = sp_index sz T \<and> T < cv \<and> x = snt ! T)"

lemma cons_ok_append:
  "cons_ok sz T cv snt c \<Longrightarrow> cv \<le> length snt \<Longrightarrow> cons_ok sz T cv (snt @ xs) c"
  by (cases c) (auto simp: nth_append)

definition spsc_prod :: "'a spsc \<Rightarrow> bool" where
  "spsc_prod s \<longleftrightarrow> prod_ok (sp_size s) (length (sent s)) (pview s) (sp_buff s) (p_at s)"

definition spsc_cons :: "'a spsc \<Rightarrow> bool" where
  "spsc_cons s \<longleftrightarrow> cons_ok (sp_size s) (length (received s)) (cview s) (sent s) (c_at s)"

definition spsc_inv :: "'a spsc \<Rightarrow> bool" where
  "spsc_inv s \<longleftrightarrow> spsc_shape s \<and> spsc_views s \<and> spsc_content s \<and> spsc_prod s \<and> spsc_cons s"

lemmas spsc_defs = spsc_inv_def spsc_shape_def spsc_views_def spsc_content_def spsc_prod_def
  spsc_cons_def

subsection \<open>Index arithmetic\<close>

lemma unat_sp_index: "0 < sz \<Longrightarrow> unat (sp_index sz k) = k mod unat sz"
proof -
  assume "0 < sz"
  then have "k mod unat sz < unat sz" by (simp add: word_gt_0 unat_gt_0)
  then have "k mod unat sz < 2 ^ 64" using unat_size_t_less [of sz] by (rule less_trans)
  then show ?thesis by (simp add: sp_index_def unat_of_nat)
qed

lemma sp_index_less: "0 < sz \<Longrightarrow> sp_index sz k < sz"
  by (simp add: word_less_nat_alt unat_sp_index)

lemma wf_next_sp_index:
  assumes "0 < sz"
  shows "wf_next sz (sp_index sz k) = Inr (sp_index sz (Suc k))"
proof -
  have "unat ((sp_index sz k + 1) mod sz) = unat (sp_index sz (Suc k))"
    by (simp add: unat_ring_next [OF sp_index_less [OF assms]] unat_sp_index [OF assms] Suc_mod_ring)
  then have "(sp_index sz k + 1) mod sz = sp_index sz (Suc k)" by (simp only: word_unat_eq_iff)
  then show ?thesis using assms by (auto simp: wf_next_def)
qed

lemma sp_index_eq_iff:
  assumes "0 < sz" "b \<le> x" "x < b + unat sz" "b \<le> y" "y < b + unat sz"
  shows "sp_index sz x = sp_index sz y \<longleftrightarrow> x = y"
  using mod_eq_in_window [OF assms(2-5)] by (simp add: word_unat_eq_iff unat_sp_index [OF assms(1)])

lemma sp_index_full_iff:
  assumes "0 < sz" "v \<le> h" "h < v + unat sz"
  shows "sp_index sz (Suc h) = sp_index sz v \<longleftrightarrow> Suc h = v + unat sz"
proof -
  have "sp_index sz v = sp_index sz (v + unat sz)" by (simp add: sp_index_def)
  moreover have "sp_index sz (Suc h) = sp_index sz (v + unat sz) \<longleftrightarrow> Suc h = v + unat sz"
    by (rule sp_index_eq_iff [OF assms(1), of "Suc v"]) (use assms in auto)
  ultimately show ?thesis by simp
qed

subsection \<open>Every step keeps the invariant\<close>

lemma spsc_init_inv: "0 < sz \<Longrightarrow> spsc_inv (spsc_init d sz)"
  by (simp add: spsc_defs spsc_init_def sp_index_def word_gt_0 unat_gt_0)

lemma nth_index_hist: "v \<le> n \<Longrightarrow> map f [0..<Suc n] ! v = f v"
  by (simp del: upt_Suc)

lemma last_index_hist: "last (map f [0..<Suc n]) = f n"
  by simp

text \<open>The producer's write goes to a slot that holds no element in transit.\<close>

lemma spsc_write_content:
  assumes "spsc_inv s" "h = length (sent s) mod unat (sp_size s)"
    "length (received s) \<le> k" "k < length (sent s)"
  shows "(sp_buff s)[h := x] ! (k mod unat (sp_size s)) = sent s ! k"
proof -
  have "h \<noteq> k mod unat (sp_size s)"
    using mod_eq_in_window [of "length (received s)" "length (sent s)" "unat (sp_size s)" k] assms
    by (auto simp: spsc_inv_def spsc_views_def)
  then show ?thesis using assms by (simp add: spsc_inv_def spsc_content_def)
qed

lemma spsc_invD:
  assumes "spsc_inv s"
  shows "0 < sp_size s" "pview s \<le> length (received s)" "length (received s) \<le> cview s"
    "cview s \<le> length (sent s)" "length (sent s) < pview s + unat (sp_size s)"
  using assms by (auto simp: spsc_inv_def spsc_shape_def spsc_views_def)

text \<open>The producer writes with room for one more, and publishes what it wrote.\<close>

lemma spsc_write_inv:
  assumes "spsc_inv s" "p_at s = PTail x h t" "wf_next (sp_size s) h = Inr n" "n \<noteq> t"
  shows "spsc_inv (s\<lparr>p_at := PWritten x n, sp_buff := (sp_buff s)[unat h := x]\<rparr>)" (is "spsc_inv ?s")
proof -
  note inv = spsc_invD [OF assms(1)]
  have idx: "h = sp_index (sp_size s) (length (sent s))" "t = sp_index (sp_size s) (pview s)"
    using assms(1,2) by (auto simp: spsc_inv_def spsc_prod_def)
  have h: "unat h = length (sent s) mod unat (sp_size s)" by (simp add: idx(1) unat_sp_index [OF inv(1)])
  have n: "n = sp_index (sp_size s) (Suc (length (sent s)))"
    using assms(3) idx(1) wf_next_sp_index [OF inv(1)] by simp
  then have room: "Suc (length (sent s)) < pview s + unat (sp_size s)"
    using assms(4) idx inv sp_index_full_iff [OF inv(1), of "pview s" "length (sent s)"] by auto
  have slot: "unat h < length (sp_buff s)"
    using assms(1) inv(1) by (simp add: h spsc_inv_def spsc_shape_def word_gt_0 unat_gt_0)
  have "spsc_content ?s"
    using assms(1) spsc_write_content [OF assms(1) h] by (auto simp: spsc_inv_def spsc_content_def)
  with assms(1) n room h slot show ?thesis
    by (simp add: spsc_inv_def spsc_shape_def spsc_views_def spsc_prod_def spsc_cons_def)
qed

lemma spsc_store_head_inv:
  assumes "spsc_inv s" "p_at s = PWritten x n"
  shows "spsc_inv (s\<lparr>p_at := PIdle, head_hist := head_hist s @ [n], sent := sent s @ [x]\<rparr>)"
    (is "spsc_inv ?s")
proof -
  note inv = spsc_invD [OF assms(1)]
  have "spsc_content ?s"
    using assms inv(2-5) by (auto simp: spsc_inv_def spsc_content_def spsc_prod_def nth_append less_Suc_eq)
  moreover have "spsc_cons ?s"
    using assms inv(4) by (simp add: spsc_inv_def spsc_cons_def cons_ok_append)
  ultimately show ?thesis
    using assms by (simp add: spsc_inv_def spsc_shape_def spsc_views_def spsc_prod_def)
qed

text \<open>The consumer reads the oldest element in transit, and frees its slot.\<close>

lemma spsc_read_inv:
  assumes "spsc_inv s" "c_at s = CHead t h" "t \<noteq> h"
  shows "spsc_inv (s\<lparr>c_at := CRead (sp_buff s ! unat t) t\<rparr>)" (is "spsc_inv ?s")
proof -
  note inv = spsc_invD [OF assms(1)]
  have idx: "t = sp_index (sp_size s) (length (received s))" "h = sp_index (sp_size s) (cview s)"
    using assms(1,2) by (auto simp: spsc_inv_def spsc_cons_def)
  then have T: "length (received s) < cview s"
    using assms(3) inv(3) by (cases "length (received s) = cview s") auto
  have "sp_buff s ! unat t = sent s ! length (received s)"
    using assms(1) T inv(4) by (auto simp: spsc_inv_def spsc_content_def idx unat_sp_index [OF inv(1)])
  with T have "spsc_cons ?s" using idx by (simp add: spsc_cons_def)
  with assms(1) show ?thesis
    by (simp add: spsc_inv_def spsc_shape_def spsc_views_def spsc_prod_def spsc_content_def)
qed

lemma spsc_store_tail_inv:
  assumes "spsc_inv s" "c_at s = CRead x t" "wf_next (sp_size s) t = Inr n"
  shows "spsc_inv (s\<lparr>c_at := CIdle, tail_hist := tail_hist s @ [n], received := received s @ [x]\<rparr>)"
    (is "spsc_inv ?s")
proof -
  note inv = spsc_invD [OF assms(1)]
  have x: "t = sp_index (sp_size s) (length (received s))" "length (received s) < cview s"
    "x = sent s ! length (received s)"
    using assms(1,2) by (auto simp: spsc_inv_def spsc_cons_def)
  have "n = sp_index (sp_size s) (Suc (length (received s)))"
    using assms(3) x(1) wf_next_sp_index [OF inv(1)] by simp
  moreover have "spsc_content ?s"
    using assms(1) x inv(4) by (auto simp: spsc_inv_def spsc_content_def take_Suc_conv_app_nth)
  ultimately show ?thesis
    using assms(1) x inv by (simp add: spsc_inv_def spsc_shape_def spsc_views_def spsc_prod_def spsc_cons_def)
qed

lemma spsc_step_inv:
  assumes "spsc_step s s'" "spsc_inv s"
  shows "spsc_inv s'"
  using assms(1)
proof cases
  case p_write
  with assms(2) show ?thesis by (blast intro: spsc_write_inv)
next
  case p_store_head
  with assms(2) show ?thesis by (blast intro: spsc_store_head_inv)
next
  case c_read
  with assms(2) show ?thesis by (blast intro: spsc_read_inv)
next
  case c_store_tail
  with assms(2) show ?thesis by (blast intro: spsc_store_tail_inv)
qed (use assms(2) in \<open>auto simp: spsc_defs nth_index_hist last_index_hist simp del: upt_Suc\<close>)

lemma spsc_reach_inv: "spsc_reach d sz s \<Longrightarrow> 0 < sz \<Longrightarrow> spsc_inv s"
  by (induction rule: spsc_reach.induct) (auto intro: spsc_init_inv spsc_step_inv)

lemma spsc_reach_size: "spsc_reach d sz s \<Longrightarrow> sp_size s = sz"
proof (induction rule: spsc_reach.induct)
  case (step s s')
  from step.hyps(2) show ?case by cases (simp_all add: step.IH)
qed (simp add: spsc_init_def)

section \<open>Properties\<close>

text \<open>
  A reachable state of a queue of size three with both threads inside an operation: one element
  has been sent, the consumer has seen it and is about to read it, the producer is about to
  write the next one.
\<close>

definition spsc_example :: "int spsc" where
  "spsc_example = \<lparr>sp_buff = [5, 0, 0], sp_size = 3, head_hist = [0, 1], tail_hist = [0],
     pview = 0, cview = 1, p_at = PTail 6 1 0, c_at = CHead 0 1, sent = [5], received = []\<rparr>"

lemma spsc_example_reach: "spsc_reach 0 3 spsc_example"
proof -
  let ?m = "\<lambda>p c b hh cv snt. \<lparr>sp_buff = b, sp_size = 3, head_hist = hh, tail_hist = [0], pview = 0,
    cview = cv, p_at = p, c_at = c, sent = snt, received = []\<rparr> :: int spsc"
  have "spsc_reach 0 3 (?m PIdle CIdle [0, 0, 0] [0] 0 [])"
    using spsc_reach.start [of "0::int" 3] by (simp add: spsc_init_def replicate_numeral_Cons)
  from spsc_reach.step [OF this spsc_step.p_load_head [of _ 5]]
  have "spsc_reach 0 3 (?m (PHead 5 0) CIdle [0, 0, 0] [0] 0 [])" by simp
  from spsc_reach.step [OF this spsc_step.p_load_tail [of _ 5 0 0]]
  have "spsc_reach 0 3 (?m (PTail 5 0 0) CIdle [0, 0, 0] [0] 0 [])" by simp
  from spsc_reach.step [OF this spsc_step.p_write [of _ 5 0 0 1]]
  have "spsc_reach 0 3 (?m (PWritten 5 1) CIdle [5, 0, 0] [0] 0 [])" by (simp add: wf_next_def)
  from spsc_reach.step [OF this spsc_step.p_store_head [of _ 5 1]]
  have "spsc_reach 0 3 (?m PIdle CIdle [5, 0, 0] [0, 1] 0 [5])" by simp
  from spsc_reach.step [OF this spsc_step.p_load_head [of _ 6]]
  have "spsc_reach 0 3 (?m (PHead 6 1) CIdle [5, 0, 0] [0, 1] 0 [5])" by simp
  from spsc_reach.step [OF this spsc_step.p_load_tail [of _ 6 1 0]]
  have "spsc_reach 0 3 (?m (PTail 6 1 0) CIdle [5, 0, 0] [0, 1] 0 [5])" by simp
  from spsc_reach.step [OF this spsc_step.c_load_tail]
  have "spsc_reach 0 3 (?m (PTail 6 1 0) (CTail 0) [5, 0, 0] [0, 1] 0 [5])" by simp
  from spsc_reach.step [OF this spsc_step.c_load_head [of _ 0 1]]
  show ?thesis by (simp add: spsc_example_def)
qed

text \<open>
  C11: With one producer and one consumer the wait-free queue delivers exactly what was put, in
  order. In every reachable interleaving, stale loads included, the elements received are an
  initial segment of those sent, the rest are stored in the ring at the consecutive slots from
  the consumer's index on, and at most \<open>size - 1\<close> are in transit.
\<close>

theorem spsc_fifo:
  assumes "spsc_reach d sz s" "0 < sz"
  shows "sent s = received s @
      map (\<lambda>k. sp_buff s ! (k mod unat sz)) [length (received s)..<length (sent s)] \<and>
    length (sent s) \<le> length (received s) + (unat sz - 1)"
proof -
  have inv: "spsc_inv s" and sz: "sp_size s = sz"
    using spsc_reach_inv [OF assms] spsc_reach_size [OF assms(1)] by auto
  let ?T = "length (received s)"
  have pre: "received s = take ?T (sent s)" and T: "?T \<le> length (sent s)"
    using inv by (auto simp: spsc_inv_def spsc_content_def spsc_views_def)
  have "map (\<lambda>k. sp_buff s ! (k mod unat sz)) [?T..<length (sent s)] =
      map ((!) (sent s)) [?T..<length (sent s)]"
    using inv by (auto simp: spsc_inv_def spsc_content_def sz)
  also have "\<dots> = drop ?T (sent s)"
    by (rule nth_equalityI) auto
  finally have "sent s = received s @
      map (\<lambda>k. sp_buff s ! (k mod unat sz)) [?T..<length (sent s)]"
    using pre by (metis append_take_drop_id)
  moreover have "length (sent s) \<le> ?T + (unat sz - 1)"
    using inv by (auto simp: spsc_inv_def spsc_views_def sz)
  ultimately show ?thesis by simp
qed

theorem spsc_fifo_witness:
  "spsc_reach 0 3 spsc_example \<and> sent spsc_example = received spsc_example @ [5] \<and>
   length (sent spsc_example) \<le> length (received spsc_example) + 2"
  using spsc_fifo [OF spsc_example_reach] spsc_example_reach by (simp add: spsc_example_def)

text \<open>
  C27: The two threads never touch the same slot. Whenever the producer is about to write a slot
  and the consumer is about to read one, the slots differ; and what the consumer is about to read
  was published to it: the element's index is below the number of head values it has acquired.
\<close>

theorem spsc_race_free:
  assumes "spsc_reach d sz s" "0 < sz"
    and "p_at s = PTail x h t" "wf_next sz h \<noteq> Inr t"
    and "c_at s = CHead t' h'" "t' \<noteq> h'"
  shows "unat h \<noteq> unat t' \<and> length (received s) < cview s \<and>
    sp_buff s ! unat t' = sent s ! length (received s)"
proof -
  have inv: "spsc_inv s" and sz: "sp_size s = sz"
    using spsc_reach_inv [OF assms(1,2)] spsc_reach_size [OF assms(1)] by auto
  have idx: "h = sp_index sz (length (sent s))" "t' = sp_index sz (length (received s))"
    "h' = sp_index sz (cview s)"
    using inv assms(3,5) by (auto simp: spsc_inv_def spsc_prod_def spsc_cons_def sz)
  have views: "length (received s) \<le> cview s" "cview s \<le> length (sent s)"
    "length (sent s) < length (received s) + unat sz"
    using inv by (auto simp: spsc_inv_def spsc_views_def sz)
  have lt: "length (received s) < cview s"
    using assms(6) idx views(1) by (cases "length (received s) = cview s") auto
  moreover have "h \<noteq> t'"
    using sp_index_eq_iff [OF assms(2), of "length (received s)" "length (sent s)"
        "length (received s)"] lt views idx by auto
  moreover have "sp_buff s ! unat t' = sent s ! length (received s)"
    using inv lt views by (simp add: spsc_inv_def spsc_content_def idx unat_sp_index [OF assms(2)] sz)
  ultimately show ?thesis by (simp add: word_unat_eq_iff)
qed

theorem spsc_race_free_witness:
  "p_at spsc_example = PTail 6 1 0 \<and> c_at spsc_example = CHead 0 1 \<and>
   sp_buff spsc_example ! 0 = sent spsc_example ! 0"
  using spsc_race_free [OF spsc_example_reach, of 6 1 0 0 1]
  by (simp add: spsc_example_def wf_next_def)

text \<open>How many steps of its own a thread is away from returning.\<close>

fun p_rank :: "'a producer \<Rightarrow> nat" where
  "p_rank PIdle = 0"
| "p_rank (PHead x h) = 3"
| "p_rank (PTail x h t) = 2"
| "p_rank (PWritten x n) = 1"

fun c_rank :: "'a consumer \<Rightarrow> nat" where
  "c_rank CIdle = 0"
| "c_rank (CTail t) = 3"
| "c_rank (CHead t h) = 2"
| "c_rank (CRead x t) = 1"

lemma spsc_prod_progress:
  assumes "spsc_inv s" "p_at s \<noteq> PIdle"
  shows "\<exists>s'. spsc_step s s' \<and> p_rank (p_at s') < p_rank (p_at s) \<and> c_at s' = c_at s"
proof (cases "p_at s")
  case (PHead x h)
  have "pview s < length (tail_hist s)"
    using assms(1) by (simp add: spsc_inv_def spsc_shape_def spsc_views_def)
  from spsc_step.p_load_tail [OF PHead order_refl this] PHead show ?thesis
    by (auto intro!: exI)
next
  case (PTail x h t)
  have pos: "0 < sp_size s" and h: "h = sp_index (sp_size s) (length (sent s))"
    using assms(1) PTail by (auto simp: spsc_inv_def spsc_shape_def spsc_prod_def)
  have nxt: "wf_next (sp_size s) h = Inr (sp_index (sp_size s) (Suc (length (sent s))))"
    (is "_ = Inr ?n") unfolding h by (rule wf_next_sp_index [OF pos])
  have "unat h < length (sp_buff s)"
    using assms(1) pos by (simp add: h unat_sp_index spsc_inv_def spsc_shape_def word_gt_0 unat_gt_0)
  then show ?thesis
    using spsc_step.p_full [OF PTail] spsc_step.p_write [OF PTail nxt] PTail nxt
    by (cases "?n = t") (fastforce intro!: exI)+
next
  case (PWritten x n)
  from spsc_step.p_store_head [OF this] PWritten show ?thesis by (auto intro!: exI)
qed (use assms in simp)

lemma spsc_cons_progress:
  assumes "spsc_inv s" "c_at s \<noteq> CIdle"
  shows "\<exists>s'. spsc_step s s' \<and> c_rank (c_at s') < c_rank (c_at s) \<and> p_at s' = p_at s"
proof (cases "c_at s")
  case (CTail t)
  have "cview s < length (head_hist s)"
    using assms(1) by (simp add: spsc_inv_def spsc_shape_def spsc_views_def)
  from spsc_step.c_load_head [OF CTail order_refl this] CTail show ?thesis
    by (auto intro!: exI)
next
  case (CHead t h)
  have "unat t < length (sp_buff s)"
    using assms(1) CHead
    by (auto simp: spsc_inv_def spsc_shape_def spsc_cons_def unat_sp_index word_gt_0 unat_gt_0)
  then show ?thesis
    using spsc_step.c_empty [of s t] spsc_step.c_read [OF CHead] CHead
    by (cases "t = h") (fastforce intro!: exI)+
next
  case (CRead x t)
  have "wf_next (sp_size s) t = Inr (sp_index (sp_size s) (Suc (length (received s))))"
    using assms(1) CRead
    by (auto simp: spsc_inv_def spsc_shape_def spsc_cons_def wf_next_sp_index)
  from spsc_step.c_store_tail [OF CRead this] CRead show ?thesis by (auto intro!: exI)
qed (use assms in simp)

text \<open>
  A run is the list of states the two threads pass through, in any interleaving. The moves of a
  thread in it are the steps at which its own position changes.
\<close>

fun spsc_run :: "'a spsc \<Rightarrow> 'a spsc list \<Rightarrow> bool" where
  "spsc_run s [] = True"
| "spsc_run s (t # ts) = (spsc_step s t \<and> spsc_run t ts)"

fun p_moves :: "'a spsc \<Rightarrow> 'a spsc list \<Rightarrow> nat" where
  "p_moves s [] = 0"
| "p_moves s (t # ts) = (if p_at t = p_at s then 0 else 1) + p_moves t ts"

fun c_moves :: "'a spsc \<Rightarrow> 'a spsc list \<Rightarrow> nat" where
  "c_moves s [] = 0"
| "c_moves s (t # ts) = (if c_at t = c_at s then 0 else 1) + c_moves t ts"

lemma spsc_step_moves:
  "spsc_step s t \<Longrightarrow>
     c_at t = c_at s \<and> p_at t \<noteq> p_at s \<and> (p_at s = PIdle \<or> p_rank (p_at t) < p_rank (p_at s)) \<or>
     p_at t = p_at s \<and> c_at t \<noteq> c_at s \<and> (c_at s = CIdle \<or> c_rank (c_at t) < c_rank (c_at s))"
  by (induction rule: spsc_step.induct) auto

lemma spsc_run_moves: "spsc_run s ts \<Longrightarrow> length ts = p_moves s ts + c_moves s ts"
proof (induction ts arbitrary: s)
  case (Cons t ts)
  then show ?case using spsc_step_moves [of s t] by auto
qed simp

lemma p_rank_pos: "p \<noteq> PIdle \<Longrightarrow> 0 < p_rank p \<and> p_rank p \<le> 3"
  and c_rank_pos: "c \<noteq> CIdle \<Longrightarrow> 0 < c_rank c \<and> c_rank c \<le> 3"
  by (cases p; simp) (cases c; simp)

lemma p_moves_rank:
  "spsc_run s ts \<Longrightarrow> \<forall>t\<in>set (s # ts). p_at t \<noteq> PIdle \<Longrightarrow> p_moves s ts < p_rank (p_at s)"
proof (induction ts arbitrary: s)
  case (Cons t ts)
  then have "p_moves t ts < p_rank (p_at t)" by simp
  moreover have "p_at t = p_at s \<or> p_rank (p_at t) < p_rank (p_at s)"
    using Cons.prems spsc_step_moves [of s t] by auto
  ultimately show ?case by auto
qed (simp add: p_rank_pos)

lemma c_moves_rank:
  "spsc_run s ts \<Longrightarrow> \<forall>t\<in>set (s # ts). c_at t \<noteq> CIdle \<Longrightarrow> c_moves s ts < c_rank (c_at s)"
proof (induction ts arbitrary: s)
  case (Cons t ts)
  then have "c_moves t ts < c_rank (c_at t)" by simp
  moreover have "c_at t = c_at s \<or> c_rank (c_at t) < c_rank (c_at s)"
    using Cons.prems spsc_step_moves [of s t] by auto
  ultimately show ?case by auto
qed (simp add: c_rank_pos)

text \<open>
  C28: The operations are wait-free. In every reachable state a thread inside an operation has a
  step of its own, whatever the other thread does. In every run from there, in any interleaving,
  each step is a move of exactly one of the threads, and a thread that stays inside its operation
  makes at most two moves in the whole run: with its third move at the latest the operation has
  returned. So no operation retries, and none waits for the other thread.
\<close>

theorem spsc_wait_free:
  assumes "spsc_reach d sz s" "0 < sz" "spsc_run s ts"
  shows "(p_at s \<noteq> PIdle \<longrightarrow> (\<exists>s'. spsc_step s s' \<and> p_at s' \<noteq> p_at s)) \<and>
    (c_at s \<noteq> CIdle \<longrightarrow> (\<exists>s'. spsc_step s s' \<and> c_at s' \<noteq> c_at s)) \<and>
    length ts = p_moves s ts + c_moves s ts \<and>
    ((\<forall>t\<in>set (s # ts). p_at t \<noteq> PIdle) \<longrightarrow> p_moves s ts \<le> 2) \<and>
    ((\<forall>t\<in>set (s # ts). c_at t \<noteq> CIdle) \<longrightarrow> c_moves s ts \<le> 2)"
proof (intro conjI impI)
  note inv = spsc_reach_inv [OF assms(1,2)]
  show "\<exists>s'. spsc_step s s' \<and> p_at s' \<noteq> p_at s" if "p_at s \<noteq> PIdle"
    using spsc_prod_progress [OF inv that] by force
  show "\<exists>s'. spsc_step s s' \<and> c_at s' \<noteq> c_at s" if "c_at s \<noteq> CIdle"
    using spsc_cons_progress [OF inv that] by force
  show "p_moves s ts \<le> 2" if "\<forall>t\<in>set (s # ts). p_at t \<noteq> PIdle"
    using p_moves_rank [OF assms(3) that] p_rank_pos [of "p_at s"] that by simp
  show "c_moves s ts \<le> 2" if "\<forall>t\<in>set (s # ts). c_at t \<noteq> CIdle"
    using c_moves_rank [OF assms(3) that] c_rank_pos [of "c_at s"] that by simp
qed (rule spsc_run_moves [OF assms(3)])

definition spsc_next :: "int spsc" where
  "spsc_next = spsc_example\<lparr>p_at := PWritten 6 2, sp_buff := [5, 6, 0]\<rparr>"

theorem spsc_wait_free_witness:
  "spsc_run spsc_example [spsc_next] \<and> p_at spsc_next \<noteq> PIdle \<and> p_moves spsc_example [spsc_next] \<le> 2"
proof -
  have run: "spsc_run spsc_example [spsc_next]"
    using spsc_step.p_write [of spsc_example 6 1 0 2]
    by (simp add: spsc_next_def spsc_example_def wf_next_def)
  with spsc_wait_free [OF spsc_example_reach _ run] show ?thesis
    by (simp add: spsc_next_def spsc_example_def)
qed

end
