(* ===== verification/NetWorkService.thy ===== *)
theory NetWorkService
  imports TaskLifecycle Stream WaitFreeConcurrentRingBuffer
begin

text \<open>
  \<open>network/Connection.cpp\<close> and \<open>network/NetWorkService.cpp\<close>: a service owns the connections of
  its clients by handle, hands messages to them, and takes new clients from two sources, its
  message queue and a wait-free ring with an event descriptor of its own.
\<close>

section \<open>Connections\<close>

text \<open>The members of \<open>Connection\<close>; classes derived from it extend the record.\<close>

record ('cb, 'u) connection =
  cn_stream :: "('cb, 'u) stream"
  cn_handle :: int

definition new_Connection :: "('cb, 'u) stream \<Rightarrow> ('cb, 'u) connection outcome" where
  "new_Connection spStream =
     (let handle = getFd spStream in
      and_then (assert_that (handle > 0)) (\<lambda>_. Inr \<lparr>cn_stream = spStream, cn_handle = handle\<rparr>))"

definition Connection_getHandle :: "('cb, 'u, 'z) connection_scheme \<Rightarrow> int" where
  "Connection_getHandle c = cn_handle c"

section \<open>The service\<close>

text \<open>\<open>sv_acceptCounter\<close> is the kernel's counter behind \<open>acceptEventFd_\<close>; \<open>'k\<close> are the callbacks
  for new connections.\<close>

record ('c, 'k, 'd) service =
  sv_connections :: "int \<rightharpoonup> 'c"
  sv_newConMsgBuf :: "'d message wfring"
  sv_acceptEventFd :: int
  sv_acceptCounter :: nat
  sv_newConnectionCb :: "'k option"

definition new_NetWorkService :: "('c, 'k, 'd) service" where
  "new_NetWorkService = \<lparr>sv_connections = Map.empty,
     sv_newConMsgBuf = wf_new default_NewConnectMessage 50000, sv_acceptEventFd = -1,
     sv_acceptCounter = 0, sv_newConnectionCb = None\<rparr>"

definition setNewConnectionCallback :: "('c, 'k, 'd) service \<Rightarrow> 'k option \<Rightarrow> ('c, 'k, 'd) service" where
  "setNewConnectionCallback sv cb = sv\<lparr>sv_newConnectionCb := cb\<rparr>"

definition addNewConnection :: "(('cb, 'u, 'z) connection_scheme, 'k, 'd) service \<Rightarrow>
    ('cb, 'u, 'z) connection_scheme \<Rightarrow> bool \<times> (('cb, 'u, 'z) connection_scheme, 'k, 'd) service" where
  "addNewConnection sv c =
     (case sv_connections sv (Connection_getHandle c) of
        Some _ \<Rightarrow> (False, sv)
      | None \<Rightarrow> (True, sv\<lparr>sv_connections := (sv_connections sv)(Connection_getHandle c \<mapsto> c)\<rparr>))"

definition removeConnection :: "('c, 'k, 'd) service \<Rightarrow> int \<Rightarrow> ('c, 'k, 'd) service" where
  "removeConnection sv handle = sv\<lparr>sv_connections := (sv_connections sv)(handle := None)\<rparr>"

text \<open>\<open>Connection::destroy\<close>: the service is reached through a weak pointer, which is not checked.\<close>

definition Connection_destroy :: "('cb, 'u, 'z) connection_scheme \<Rightarrow> ('c, 'k, 'd) service option \<Rightarrow>
    ('c, 'k, 'd) service outcome" where
  "Connection_destroy c wp = (case wp of
       None \<Rightarrow> Inl NullDereference
     | Some sv \<Rightarrow> Inr (removeConnection sv (cn_handle c)))"

text \<open>
  What a message leads to: the callback for new connections is called with a stream on the
  descriptor; the stream is dropped, and with it the descriptor closed, when there is no callback;
  the message is handed to a connection; or its handle is not known.
\<close>

datatype ('c, 'k, 'd) reaction =
    CallNewConnection 'k int
  | DropStream int
  | Deliver 'c "'d message"
  | UnknownHandle int

definition newStream :: "('c, 'k, 'd) service \<Rightarrow> int \<Rightarrow> ('c, 'k, 'd) reaction" where
  "newStream sv fd = (case sv_newConnectionCb sv of
       None \<Rightarrow> DropStream fd
     | Some cb \<Rightarrow> CallNewConnection cb fd)"

definition nws_onMessage :: "('c, 'k, 'd) service \<Rightarrow> 'd message \<Rightarrow> ('c, 'k, 'd) reaction outcome" where
  "nws_onMessage sv m =
     (if getWhat m = ''NEW_CONNECT''
      then and_then (getClientFd (msg_class m)) (\<lambda>fd. Inr (newStream sv fd))
      else if getWhat m = ''CONNECTION''
      then and_then (getHandle (msg_class m)) (\<lambda>h.
        case sv_connections sv h of
          Some c \<Rightarrow> Inr (Deliver c m)
        | None \<Rightarrow> Inr (UnknownHandle h))
      else Inl AssertionFailed)"

text \<open>\<open>onStart\<close>: \<open>assert(acceptEventFd_)\<close> only excludes zero.\<close>

definition nws_onStart :: "int \<Rightarrow> libevent \<Rightarrow> 'cb \<Rightarrow> ('c, 'k, 'd) service \<Rightarrow> 'cb reactor \<Rightarrow>
    (('c, 'k, 'd) service \<times> 'cb reactor) outcome" where
  "nws_onStart efd lib onNewConMsgCall sv r =
     (let sv = sv\<lparr>sv_acceptEventFd := createEventFd efd\<rparr> in
      and_then (assert_that (sv_acceptEventFd sv \<noteq> 0)) (\<lambda>_.
      and_then (addEventHandler lib r (sv_acceptEventFd sv) EVENT_READ (Some onNewConMsgCall)) (\<lambda>(_, r).
        Inr (sv, r))))"

definition notifyNewConnnectMsg :: "('c, 'k, 'd) service \<Rightarrow> 'd message \<Rightarrow>
    (bool \<times> ('c, 'k, 'd) service) outcome" where
  "notifyNewConnnectMsg sv newConMsg =
     and_then (wf_asyncPut (sv_newConMsgBuf sv) newConMsg) (\<lambda>(ok, buf).
       let sv = sv\<lparr>sv_newConMsgBuf := buf\<rparr> in
       if \<not> ok then Inr (False, sv)
       else if sv_acceptEventFd sv < 0 then Inr (True, sv)
       else Inr (True, sv\<lparr>sv_acceptCounter := Suc (sv_acceptCounter sv)\<rparr>))"

text \<open>\<open>None\<close> while \<open>read\<close> blocks.\<close>

definition onNewConMsg :: "libevent \<Rightarrow> 'cb \<Rightarrow> ('c, 'k, 'd) service \<Rightarrow> 'cb reactor \<Rightarrow> int \<Rightarrow>
    (('c, 'k, 'd) reaction \<times> ('c, 'k, 'd) service \<times> 'cb reactor) option outcome" where
  "onNewConMsg lib onNewConMsgCall sv r fd =
     and_then (assert_that (sv_acceptEventFd sv = fd)) (\<lambda>_.
     if fd < 0 then Inl Uninitialised
     else if sv_acceptCounter sv = 0 then Inr None
     else let sv = sv\<lparr>sv_acceptCounter := sv_acceptCounter sv - 1\<rparr> in
       and_then (wf_asyncGet (sv_newConMsgBuf sv)) (\<lambda>(ok, msg, buf).
       and_then (assert_that ok) (\<lambda>_.
       let sv = sv\<lparr>sv_newConMsgBuf := buf\<rparr>;
           newConMsg = (case msg of None \<Rightarrow> default_NewConnectMessage | Some m \<Rightarrow> m) in
       and_then (getClientFd (msg_class newConMsg)) (\<lambda>clientFd.
       and_then (addEventHandler lib r (sv_acceptEventFd sv) EVENT_READ (Some onNewConMsgCall)) (\<lambda>(_, r).
         Inr (Some (newStream sv clientFd, sv, r)))))))"

section \<open>The invariants\<close>

text \<open>A connection is kept under its own handle, a descriptor above zero.\<close>

definition connections_ok :: "(('cb, 'u, 'z) connection_scheme, 'k, 'd) service \<Rightarrow> bool" where
  "connections_ok sv \<longleftrightarrow> (\<forall>h c. sv_connections sv h = Some c \<longrightarrow> cn_handle c = h \<and> 0 < h)"

lemma connections_ok_new: "connections_ok new_NetWorkService"
  by (simp add: connections_ok_def new_NetWorkService_def)

lemma connections_ok_add:
  "connections_ok sv \<Longrightarrow> 0 < cn_handle c \<Longrightarrow> connections_ok (snd (addNewConnection sv c))"
  by (auto simp: connections_ok_def addNewConnection_def Connection_getHandle_def split: option.splits)

lemma connections_ok_remove: "connections_ok sv \<Longrightarrow> connections_ok (removeConnection sv h)"
  by (auto simp: connections_ok_def removeConnection_def)

text \<open>The counter of the accept event says how many new clients are in the ring.\<close>

definition newcon_ok :: "('c, 'k, 'd) service \<Rightarrow> bool" where
  "newcon_ok sv \<longleftrightarrow> wf_inv (sv_newConMsgBuf sv) \<and> 0 < sv_acceptEventFd sv \<and>
     sv_acceptCounter sv = length (wf_items (sv_newConMsgBuf sv)) \<and>
     (\<forall>m \<in> set (wf_items (sv_newConMsgBuf sv)). \<exists>fd. msg_class m = NewConnectMessage fd)"

lemma wf_asyncPut_cases:
  assumes "wf_inv q"
  obtains (full) "wf_asyncPut q x = Inr (False, q)" "length (wf_items q) = wf_cap q"
  | (put) q' where "wf_asyncPut q x = Inr (True, q')" "wf_inv q'" "wf_items q' = wf_items q @ [x]"
proof (cases "wf_put q x")
  case None
  then have "wf_asyncPut q x = Inr (False, q)"
    using wf_asyncPut_sim [OF assms, of x] by (auto simp: wf_put_def wf_asyncPut_def and_then_def Let_def
        split: sum.splits if_splits bool.splits prod.splits)
  with None full wfq.put_full [OF assms, of x] show ?thesis by blast
next
  case (Some q')
  then have "wf_asyncPut q x = Inr (True, q')"
    by (auto simp: wf_put_def split: sum.splits prod.splits bool.splits)
  with Some put wfq.put_laws [OF assms, of x q'] show ?thesis by blast
qed

lemma wf_asyncGet_cons:
  assumes "wf_inv q" "wf_items q = x # xs"
  obtains q' where "wf_asyncGet q = Inr (True, Some x, q')" "wf_inv q'" "wf_items q' = xs"
proof -
  obtain q' where q': "wf_get q = Some (x, q')" "wf_items q' = xs" "wf_inv q'"
    using wfq.get_delivers [OF assms] .
  then have "wf_asyncGet q = Inr (True, Some x, q')"
    using wf_asyncGet_sim [OF assms(1)] by (auto simp: wf_get_def split: sum.splits option.splits prod.splits)
  with that q' show ?thesis by blast
qed

lemma newStream_buf [simp]:
  "newStream (sv\<lparr>sv_newConMsgBuf := buf\<rparr>) fd = newStream sv fd"
  "newStream (sv\<lparr>sv_acceptCounter := n\<rparr>) fd = newStream sv fd"
  by (simp_all add: newStream_def)

lemma onNewConMsg_run:
  assumes "newcon_ok sv" "wf_items (sv_newConMsgBuf sv) = m # ms" "msg_class m = NewConnectMessage fd"
    and "reactor_inv r" "sv_acceptEventFd sv < reactor_nfds r"
  shows "\<exists>sv' r'. onNewConMsg lib call sv r (sv_acceptEventFd sv) = Inr (Some (newStream sv fd, sv', r')) \<and>
    newcon_ok sv' \<and> wf_items (sv_newConMsgBuf sv') = ms \<and> reactor_inv r' \<and>
    (lib_adds lib \<longrightarrow> reactor_handler r' (sv_acceptEventFd sv, Rd) = Some call)"
proof -
  have ok: "wf_inv (sv_newConMsgBuf sv)" "0 < sv_acceptEventFd sv" "sv_acceptCounter sv = Suc (length ms)"
    "\<forall>m \<in> set ms. \<exists>fd. msg_class m = NewConnectMessage fd"
    using assms(1,2) by (auto simp: newcon_ok_def)
  obtain q where q: "wf_asyncGet (sv_newConMsgBuf sv) = Inr (True, Some m, q)" "wf_inv q" "wf_items q = ms"
    using wf_asyncGet_cons [OF ok(1) assms(2)] .
  obtain b r' where r': "addEventHandler lib r (sv_acceptEventFd sv) EVENT_READ (Some call) = Inr (b, r')"
    "reactor_inv r'"
    "reactor_handler r' = (if b then (reactor_handler r)((sv_acceptEventFd sv, Rd) \<mapsto> call)
      else reactor_handler r)"
    using lev.add_law [OF assms(4) _ assms(5), of lib Rd call] ok(2) by auto
  have "b" if "lib_adds lib"
    using lib_adds_add [OF that assms(4) _ assms(5), of Rd call] ok(2) r'(1) by simp
  with ok q r' assms(3) show ?thesis
    by (simp add: onNewConMsg_def newcon_ok_def Let_def)
qed

section \<open>Properties\<close>

text \<open>
  What a service does with a message, on every branch. A message for a new client leads to the
  callback for new connections with the client's descriptor, a message for a connection is handed
  to the connection registered under its handle, if there is one, and to no other; for every
  message whose \<open>what_\<close> agrees with its class no cast fails. Any other message ends the program
  in an assertion.
\<close>

theorem service_dispatch:
  assumes "connections_ok sv" "msg_ok m"
  shows "if getWhat m = ''NEW_CONNECT''
    then \<exists>fd. msg_class m = NewConnectMessage fd \<and> nws_onMessage sv m = Inr (newStream sv fd)
    else if getWhat m = ''CONNECTION''
    then \<exists>h. getHandle (msg_class m) = Inr h \<and>
      (case sv_connections sv h of
         Some c \<Rightarrow> cn_handle c = h \<and> nws_onMessage sv m = Inr (Deliver c m)
       | None \<Rightarrow> nws_onMessage sv m = Inr (UnknownHandle h))
    else nws_onMessage sv m = Inl AssertionFailed"
  using assms by (auto simp: nws_onMessage_def getWhat_def msg_ok_def connections_ok_def
      split: option.splits)

theorem service_dispatch_witness:
  "nws_onMessage (new_NetWorkService :: ((nat, nat) connection, nat, nat) service)
     (new_ConnectionMessage 7) = Inr (UnknownHandle 7)"
proof -
  let ?sv = "new_NetWorkService :: ((nat, nat) connection, nat, nat) service"
  from service_dispatch [OF connections_ok_new msg_ok_constructors(2) [of 7]] show ?thesis
    by (simp add: new_ConnectionMessage_def getWhat_def new_NetWorkService_def)
qed

text \<open>
  The life of a connection at its service. A connection whose handle is free is taken, then
  receives every message for its handle; after its \<open>destroy\<close> the service knows exactly the
  connections it knew before, and messages for the handle are dropped. Connections stay filed
  under their own handle throughout.
\<close>

theorem connection_lifetime:
  assumes "connections_ok sv" "0 < cn_handle c" "sv_connections sv (cn_handle c) = None"
    and "addNewConnection sv c = (b, sv1)" "Connection_destroy c (Some sv1) = Inr sv2"
    and "getWhat m = ''CONNECTION''" "getHandle (msg_class m) = Inr (cn_handle c)"
  shows "b \<and> connections_ok sv1 \<and> nws_onMessage sv1 m = Inr (Deliver c m) \<and>
    connections_ok sv2 \<and> sv_connections sv2 = sv_connections sv \<and>
    nws_onMessage sv2 m = Inr (UnknownHandle (cn_handle c))"
proof -
  have "connections_ok sv1" using connections_ok_add [OF assms(1,2)] assms(4) by simp
  moreover have "connections_ok sv2"
    using connections_ok_remove [OF calculation, of "cn_handle c"] assms(5)
    by (simp add: Connection_destroy_def)
  ultimately show ?thesis using assms
    by (auto simp: addNewConnection_def Connection_getHandle_def Connection_destroy_def
        removeConnection_def nws_onMessage_def fun_eq_iff)
qed

theorem connection_lifetime_witness:
  "let c = \<lparr>cn_stream = new_Stream 7 ''r'' ''s'', cn_handle = 7\<rparr> :: (string, nat) connection;
       sv = new_NetWorkService :: ((string, nat) connection, nat, nat) service
   in fst (addNewConnection sv c) \<and>
     nws_onMessage (snd (addNewConnection sv c)) (new_ConnectionMessage 7) =
       Inr (Deliver c (new_ConnectionMessage 7))"
proof -
  let ?c = "\<lparr>cn_stream = new_Stream 7 ''r'' ''s'', cn_handle = 7\<rparr> :: (string, nat) connection"
  let ?sv = "new_NetWorkService :: ((string, nat) connection, nat, nat) service"
  have free: "sv_connections ?sv (cn_handle ?c) = None" by (simp add: new_NetWorkService_def)
  obtain b sv1 where add: "addNewConnection ?sv ?c = (b, sv1)" by fastforce
  from connection_lifetime [OF connections_ok_new _ free add, of _ "new_ConnectionMessage 7"] add
  show ?thesis by (simp add: Connection_destroy_def getWhat_def new_ConnectionMessage_def)
qed

text \<open>
  New clients that come through the ring. \<open>notifyNewConnnectMsg\<close> returns false exactly when
  the ring is full, and then changes nothing; otherwise the client is the last in the ring and the
  event counter is one higher. Whenever the counter is above zero, \<open>onNewConMsg\<close> returns: none of
  its assertions fails, the stream it makes is that of the client that has waited longest, and it
  registers itself for the next event.
\<close>

theorem newcon_queue:
  assumes "newcon_ok sv" "reactor_inv r" "sv_acceptEventFd sv < reactor_nfds r"
  shows "(\<exists>b sv'. notifyNewConnnectMsg sv (new_NewConnectMessage fd) = Inr (b, sv') \<and> newcon_ok sv' \<and>
      b = (length (wf_items (sv_newConMsgBuf sv)) < wf_cap (sv_newConMsgBuf sv)) \<and>
      wf_items (sv_newConMsgBuf sv') = wf_items (sv_newConMsgBuf sv) @
        (if b then [new_NewConnectMessage fd] else [])) \<and>
    (0 < sv_acceptCounter sv \<longrightarrow> (\<exists>m ms cfd sv' r'. wf_items (sv_newConMsgBuf sv) = m # ms \<and>
      getClientFd (msg_class m) = Inr cfd \<and>
      onNewConMsg lib call sv r (sv_acceptEventFd sv) = Inr (Some (newStream sv cfd, sv', r')) \<and>
      newcon_ok sv' \<and> wf_items (sv_newConMsgBuf sv') = ms \<and>
      (lib_adds lib \<longrightarrow> reactor_handler r' (sv_acceptEventFd sv, Rd) = Some call)))"
proof (intro conjI impI)
  let ?q = "sv_newConMsgBuf sv" and ?m = "new_NewConnectMessage fd :: 'c message"
  have q: "wf_inv ?q" using assms(1) by (simp add: newcon_ok_def)
  from q show "\<exists>b sv'. notifyNewConnnectMsg sv ?m = Inr (b, sv') \<and> newcon_ok sv' \<and>
      b = (length (wf_items ?q) < wf_cap ?q) \<and>
      wf_items (sv_newConMsgBuf sv') = wf_items ?q @ (if b then [?m] else [])"
  proof (cases rule: wf_asyncPut_cases [where x = ?m])
    case full
    with assms(1) show ?thesis by (cases sv) (auto simp: notifyNewConnnectMsg_def)
  next
    case (put q')
    moreover have "length (wf_items ?q) < wf_cap ?q"
    proof -
      have "wf_put ?q ?m \<noteq> None" using put(1) by (simp add: wf_put_def)
      then show ?thesis using wfq.put_full [OF q, of ?m] wfq.items_bound [OF q] by auto
    qed
    ultimately show ?thesis using assms(1)
      by (auto simp: notifyNewConnnectMsg_def newcon_ok_def new_NewConnectMessage_def)
  qed
next
  assume "0 < sv_acceptCounter sv"
  then obtain m ms where ms: "wf_items (sv_newConMsgBuf sv) = m # ms"
    using assms(1) by (cases "wf_items (sv_newConMsgBuf sv)") (auto simp: newcon_ok_def)
  with assms(1) obtain cfd where "msg_class m = NewConnectMessage cfd" by (auto simp: newcon_ok_def)
  with onNewConMsg_run [OF assms(1) ms this assms(2,3), of lib call] ms
  show "\<exists>m ms cfd sv' r'. wf_items (sv_newConMsgBuf sv) = m # ms \<and> getClientFd (msg_class m) = Inr cfd \<and>
      onNewConMsg lib call sv r (sv_acceptEventFd sv) = Inr (Some (newStream sv cfd, sv', r')) \<and>
      newcon_ok sv' \<and> wf_items (sv_newConMsgBuf sv') = ms \<and>
      (lib_adds lib \<longrightarrow> reactor_handler r' (sv_acceptEventFd sv, Rd) = Some call)" by auto
qed

theorem newcon_queue_witness:
  "\<exists>sv'. notifyNewConnnectMsg
      ((new_NetWorkService :: (nat, nat, nat) service)\<lparr>sv_acceptEventFd := 4\<rparr>) (new_NewConnectMessage 9) =
    Inr (True, sv')"
proof -
  let ?sv = "(new_NetWorkService :: (nat, nat, nat) service)\<lparr>sv_acceptEventFd := 4\<rparr>"
  have "newcon_ok ?sv" by (simp add: newcon_ok_def new_NetWorkService_def)
  moreover have "wf_items (sv_newConMsgBuf ?sv) = []" by (simp add: new_NetWorkService_def)
  moreover have "wf_cap (sv_newConMsgBuf ?sv) = 49999"
    by (simp add: new_NetWorkService_def wf_cap_def wf_ring_def wf_new_def crb_cap_def)
  moreover have "reactor_inv reactor5" "sv_acceptEventFd ?sv < reactor_nfds reactor5"
    using reactor5_start by (auto simp: stream_start_def)
  ultimately show ?thesis using newcon_queue [of ?sv reactor5 9] by auto
qed

end
