(* ===== verification/StreamRequests.thy ===== *)
theory StreamRequests
  imports Stream
begin

text \<open>
  Requests of a stream that are served to their end, for \<open>network/Stream.cpp\<close> over any reactor of
  the interface whose registrations succeed: what one event does to a request, and that a request is
  answered once, with exactly the bytes, however \<open>recv\<close> and \<open>send\<close> cut them into pieces.
\<close>

text \<open>The readable events of one stream in a row, each with what \<open>recv\<close> returns for it.\<close>

fun feed :: "('r \<Rightarrow> int \<Rightarrow> event_flags \<Rightarrow> 'cb \<Rightarrow> (bool \<times> 'r) outcome) \<Rightarrow>
    ('r \<Rightarrow> int \<Rightarrow> dir \<Rightarrow> (('cb \<times> event_flags) option \<times> 'r) outcome) \<Rightarrow>
    ('cb, 'u) stream \<Rightarrow> 'r \<Rightarrow> recv_result list \<Rightarrow>
    (('cb, 'u) stream \<times> 'r \<times> 'u stream_out list) outcome" where
  "feed add fire s r [] = Inr (s, r, [])"
| "feed add fire s r (res # rs) =
     and_then (fire r (st_fd s) Rd) (\<lambda>(x, r1).
       case x of
         None \<Rightarrow> Inr (s, r1, [])
       | Some (cb, ev) \<Rightarrow>
           and_then (recvOnePack add s r1 (st_fd s) ev res) (\<lambda>(s', r', os).
           and_then (feed add fire s' r' rs) (\<lambda>(s'', r'', os'). Inr (s'', r'', os @ os'))))"

section \<open>Complete receptions and transmissions\<close>

text \<open>Streams that differ only in the receiving, or only in the sending, side.\<close>

definition recv_side :: "('cb, 'u) stream \<Rightarrow> ('cb, 'u) stream \<Rightarrow> bool" where
  "recv_side s s' \<longleftrightarrow> s' = s\<lparr>recvLen := recvLen s', needRecvLen := needRecvLen s',
     recvStat := recvStat s', recvBuf := recvBuf s', recvCompleteCallback := recvCompleteCallback s'\<rparr>"

definition send_side :: "('cb, 'u) stream \<Rightarrow> ('cb, 'u) stream \<Rightarrow> bool" where
  "send_side s s' \<longleftrightarrow> s' = s\<lparr>sendLen := sendLen s', needSendLen := needSendLen s',
     sendStat := sendStat s', sendBuf := sendBuf s', sendCompleteCallback := sendCompleteCallback s'\<rparr>"

lemma recv_sideI: "recv_side s (s\<lparr>recvLen := a, needRecvLen := b, recvStat := c, recvBuf := d,
    recvCompleteCallback := e\<rparr>)"
  by (simp add: recv_side_def)

lemma send_sideI: "send_side s (s\<lparr>sendLen := a, needSendLen := b, sendStat := c, sendBuf := d,
    sendCompleteCallback := e\<rparr>)"
  by (simp add: send_side_def)

lemma recv_side_iff: "recv_side s s' \<longleftrightarrow> st_fd s' = st_fd s \<and> sendLen s' = sendLen s \<and>
    needSendLen s' = needSendLen s \<and> sendStat s' = sendStat s \<and> sendBuf s' = sendBuf s \<and>
    recvOnePackCall s' = recvOnePackCall s \<and> sendOnePackCall s' = sendOnePackCall s \<and>
    closeCallback s' = closeCallback s \<and> sendCompleteCallback s' = sendCompleteCallback s"
  by (cases s, cases s') (auto simp: recv_side_def)

lemma send_side_iff: "send_side s s' \<longleftrightarrow> st_fd s' = st_fd s \<and> recvLen s' = recvLen s \<and>
    needRecvLen s' = needRecvLen s \<and> recvStat s' = recvStat s \<and> recvBuf s' = recvBuf s \<and>
    recvOnePackCall s' = recvOnePackCall s \<and> sendOnePackCall s' = sendOnePackCall s \<and>
    closeCallback s' = closeCallback s \<and> recvCompleteCallback s' = recvCompleteCallback s"
  by (cases s, cases s') (auto simp: send_side_def)

lemma recv_side_trans: "recv_side s s' \<Longrightarrow> recv_side s' s'' \<Longrightarrow> recv_side s s''"
  and send_side_trans: "send_side s s' \<Longrightarrow> send_side s' s'' \<Longrightarrow> send_side s s''"
  by (simp_all add: recv_side_iff send_side_iff)

lemma recv_side_refl [simp]: "recv_side s s" and send_side_refl [simp]: "send_side s s"
  by (simp_all add: recv_side_iff send_side_iff)

text \<open>
  Results of \<open>recv\<close> that together bring exactly the bytes \<open>bs\<close>, and of \<open>send\<close> that together
  take exactly \<open>n\<close> bytes: in pieces of any size, with interruptions between them.
\<close>

definition brings :: "recv_result list \<Rightarrow> string \<Rightarrow> bool" where
  "brings rs bs \<longleftrightarrow> (\<forall>res \<in> set rs. recv_goes_on res) \<and> concat (map result_bytes rs) = bs \<and>
     rs \<noteq> [] \<and> result_bytes (last rs) \<noteq> []"

definition takes :: "send_result list \<Rightarrow> nat \<Rightarrow> bool" where
  "takes rs n \<longleftrightarrow> (\<forall>res \<in> set rs. send_goes_on res) \<and> sum_list (map result_count rs) = n \<and>
     rs \<noteq> [] \<and> result_count (last rs) \<noteq> 0"

lemma brings_Cons:
  "brings (res # rs) bs \<longleftrightarrow> recv_goes_on res \<and>
     (if rs = [] then result_bytes res = bs \<and> bs \<noteq> []
      else \<exists>bs'. bs = result_bytes res @ bs' \<and> brings rs bs')"
  by (auto simp: brings_def)

lemma takes_Cons:
  "takes (res # rs) n \<longleftrightarrow> send_goes_on res \<and>
     (if rs = [] then result_count res = n \<and> n \<noteq> 0
      else \<exists>n'. n = result_count res + n' \<and> takes rs n')"
  by (auto simp: takes_def)

lemma brings_nonempty: "brings rs bs \<Longrightarrow> bs \<noteq> []"
  by (induction rs arbitrary: bs) (auto simp: brings_Cons split: if_splits, simp add: brings_def)

lemma takes_pos: "takes rs n \<Longrightarrow> 0 < n"
  by (induction rs arbitrary: n) (auto simp: takes_Cons split: if_splits, simp add: takes_def)

text \<open>Registrations succeed.\<close>

definition adds_ok :: "('r \<Rightarrow> int \<Rightarrow> event_flags \<Rightarrow> 'cb \<Rightarrow> (bool \<times> 'r) outcome) \<Rightarrow> ('r \<Rightarrow> int) \<Rightarrow>
    ('r \<Rightarrow> bool) \<Rightarrow> bool" where
  "adds_ok add nfds rinv \<longleftrightarrow> (\<forall>r fd d cb. rinv r \<longrightarrow> 0 \<le> fd \<longrightarrow> fd < nfds r \<longrightarrow>
     (\<exists>r'. add r fd (flag d) cb = Inr (True, r')))"

context event_reactor
begin

lemma adds_okE:
  assumes "adds_ok add nfds inv" "inv r" "0 \<le> fd" "fd < nfds r"
  obtains r' where "add r fd (flag d) cb = Inr (True, r')" "inv r'" "nfds r' = nfds r"
    "handler r' = (handler r)((fd, d) \<mapsto> cb)"
proof -
  have "\<exists>r'. add r fd (flag d) cb = Inr (True, r')" using assms by (simp add: adds_ok_def)
  then obtain r' where "add r fd (flag d) cb = Inr (True, r')" by (rule exE)
  with wired_add [OF assms(2-4) this] that show ?thesis by auto
qed

text \<open>The stream \<open>s\<close> waits for \<open>n\<close> more bytes, or waits to send what is left of its buffer.\<close>

definition reads :: "'r \<Rightarrow> ('cb, 'u) stream \<Rightarrow> bool" where
  "reads r s \<longleftrightarrow> inv r \<and> 0 \<le> st_fd s \<and> st_fd s < nfds r \<and> recv_ready s \<and>
     handler r (st_fd s, Rd) = Some (recvOnePackCall s)"

definition writes :: "'r \<Rightarrow> ('cb, 'u) stream \<Rightarrow> bool" where
  "writes r s \<longleftrightarrow> inv r \<and> 0 \<le> st_fd s \<and> st_fd s < nfds r \<and> send_ready s \<and>
     handler r (st_fd s, Wr) = Some (sendOnePackCall s)"

text \<open>One readable event: the request goes on, or it is complete.\<close>

lemma recv_event:
  assumes "adds_ok add nfds inv" "reads r s" "recv_goes_on res" "recv_fits s res" "recvCompleteCallback s = Some cb"
  obtains (more) s' r1 r' where "fire r (st_fd s) Rd = Inr (Some (recvOnePackCall s, EVENT_READ), r1)"
      "recvOnePack add s r1 (st_fd s) EVENT_READ res = Inr (s', r', [])"
      "int (length (result_bytes res)) < needRecvLen s" "reads r' s'" "recv_side s s'"
      "needRecvLen s' = needRecvLen s - int (length (result_bytes res))"
      "take (nat (recvLen s')) (recvBuf s') = take (nat (recvLen s)) (recvBuf s) @ result_bytes res"
      "recvCompleteCallback s' = Some cb" "nfds r' = nfds r" "handler r' = handler r"
  | (complete) s' r1 where "fire r (st_fd s) Rd = Inr (Some (recvOnePackCall s, EVENT_READ), r1)"
      "recvOnePack add s r1 (st_fd s) EVENT_READ res =
        Inr (s', r1, [CallRecv cb RECVED (take (nat (recvLen s)) (recvBuf s) @ result_bytes res)])"
      "int (length (result_bytes res)) = needRecvLen s" "recv_side s s'" "recvStat s' = RECVED"
      "inv r1" "nfds r1 = nfds r" "handler r1 = (handler r)((st_fd s, Rd) := None)"
proof -
  have r: "inv r" "0 \<le> st_fd s" "st_fd s < nfds r" "recv_ready s"
    "handler r (st_fd s, Rd) = Some (recvOnePackCall s)" using assms(2) by (auto simp: reads_def)
  obtain r1 where r1: "fire r (st_fd s) Rd = Inr (Some (recvOnePackCall s, EVENT_READ), r1)" "inv r1"
    "nfds r1 = nfds r" "handler r1 = (handler r)((st_fd s, Rd) := None)"
    using fire_law [OF r(1,5)] by auto
  have fd: "st_fd s < nfds r1" using r(3) r1(3) by simp
  obtain r2 where r2: "add r1 (st_fd s) EVENT_READ (recvOnePackCall s) = Inr (True, r2)" "inv r2"
    "nfds r2 = nfds r1" "handler r2 = (handler r1)((st_fd s, Rd) \<mapsto> recvOnePackCall s)"
    using adds_okE [OF assms(1) r1(2) r(2) fd, of Rd "recvOnePackCall s"] by auto
  have h: "handler r2 = handler r" using r2(4) r1(4) r(5) by (auto simp: fun_eq_iff)
  consider "int (length (result_bytes res)) < needRecvLen s" | "int (length (result_bytes res)) = needRecvLen s"
    using r(4) assms(4) by (cases res) (force simp: recv_ready_def)+
  then show thesis
  proof cases
    case 1
    then have "nat (recvLen s + int (length (result_bytes res))) = nat (recvLen s) + length (result_bytes res)"
      "nat (recvLen s) + length (result_bytes res) < length (recvBuf s)" "0 \<le> recvLen s"
      using r(4) by (auto simp: recv_ready_def)
    with 1 show thesis
      by (intro more [OF r1(1) recvOnePack_again [where add = add, OF r(4) assms(3) 1 r2(1)]])
        (use r2 r1 h r assms(5) in \<open>simp_all add: reads_def recv_side_iff recv_ready_def\<close>)
  next
    case 2
    from that(2) [OF r1(1) recvOnePack_complete [OF r(4) assms(3) 2, unfolded assms(5) option.sel]] 2 r1
    show thesis by (simp add: recv_side_iff)
  qed
qed

text \<open>One writable event: the bytes \<open>bs\<close> are given to the socket, and the request goes on or is
  complete.\<close>

lemma send_event:
  assumes "adds_ok add nfds inv" "writes r s" "send_goes_on res" "send_fits s res" "sendCompleteCallback s = Some cb"
    and "bs = take (result_count res) (drop (nat (sendLen s)) (sendBuf s))" "0 < needSendLen s"
  obtains (more) s' r1 r' os where "fire r (st_fd s) Wr = Inr (Some (sendOnePackCall s, EVENT_WRITE), r1)"
      "sendOnePack add s r1 (st_fd s) EVENT_WRITE res = Inr (s', r', os)"
      "os = (if bs = [] then [] else [OutBytes bs])"
      "int (result_count res) < needSendLen s" "writes r' s'" "send_side s s'"
      "sendLen s' = sendLen s + int (result_count res)" "sendBuf s' = sendBuf s"
      "needSendLen s' = needSendLen s - int (result_count res)"
      "sendCompleteCallback s' = Some cb" "nfds r' = nfds r" "handler r' = handler r"
  | (complete) s' r1 where "fire r (st_fd s) Wr = Inr (Some (sendOnePackCall s, EVENT_WRITE), r1)"
      "sendOnePack add s r1 (st_fd s) EVENT_WRITE res = Inr (s', r1, [OutBytes bs, CallSend cb SENDED])"
      "int (result_count res) = needSendLen s" "send_side s s'" "inv r1" "nfds r1 = nfds r"
      "handler r1 = (handler r)((st_fd s, Wr) := None)"
proof -
  have r: "inv r" "0 \<le> st_fd s" "st_fd s < nfds r" "send_ready s"
    "handler r (st_fd s, Wr) = Some (sendOnePackCall s)" using assms(2) by (auto simp: writes_def)
  obtain r1 where r1: "fire r (st_fd s) Wr = Inr (Some (sendOnePackCall s, EVENT_WRITE), r1)" "inv r1"
    "nfds r1 = nfds r" "handler r1 = (handler r)((st_fd s, Wr) := None)"
    using fire_law [OF r(1,5)] by auto
  have fd: "st_fd s < nfds r1" using r(3) r1(3) by simp
  obtain r2 where r2: "add r1 (st_fd s) EVENT_WRITE (sendOnePackCall s) = Inr (True, r2)" "inv r2"
    "nfds r2 = nfds r1" "handler r2 = (handler r1)((st_fd s, Wr) \<mapsto> sendOnePackCall s)"
    using adds_okE [OF assms(1) r1(2) r(2) fd, of Wr "sendOnePackCall s"] by auto
  have h: "handler r2 = handler r" using r2(4) r1(4) r(5) by (auto simp: fun_eq_iff)
  have len: "0 \<le> sendLen s" "sendLen s + needSendLen s = int (length (sendBuf s))"
    "int (result_count res) \<le> needSendLen s"
    using r(4) assms(4) by (cases res, auto simp: send_ready_def)+
  consider "int (result_count res) < needSendLen s"
    | "0 < result_count res" "int (result_count res) = needSendLen s"
    using len(3) assms(7) by linarith
  then show thesis
  proof cases
    case 1
    note again = sendOnePack_again [where add = add, OF r(4) assms(3) disjI2 [OF 1] r2(1), folded assms(6), unfolded Let_def]
    show thesis
      by (rule more [OF r1(1) again refl])
        (use 1 r2 r1 h r len assms(5) in \<open>simp_all add: writes_def send_side_iff send_ready_def\<close>)
  next
    case 2
    have "bs = drop (nat (sendLen s)) (sendBuf s)" using len 2(2) assms(6) by simp
    note sent = sendOnePack_complete [OF r(4) assms(3) 2, unfolded assms(5) option.sel, folded this]
    show thesis by (rule complete [OF r1(1) sent]) (use 2 r1 in \<open>simp_all add: send_side_iff\<close>)
  qed
qed

text \<open>A request that was accepted and for which nothing has come yet.\<close>

definition awaits :: "'r \<Rightarrow> ('cb, 'u) stream \<Rightarrow> int \<Rightarrow> 'u \<Rightarrow> bool" where
  "awaits r s n cb \<longleftrightarrow> reads r s \<and> recvLen s = 0 \<and> needRecvLen s = n \<and> recvCompleteCallback s = Some cb"

lemma ask_recv:
  assumes "adds_ok add nfds inv" "inv r" "0 \<le> st_fd s" "st_fd s < nfds r" "0 < n" "n \<le> 1024"
  obtains s' r' where "asyncRecvBytes add s r n (Some cb) = Inr (True, s', r')" "awaits r' s' n cb"
    "recv_side s s'" "inv r'" "nfds r' = nfds r"
    "handler r' = (handler r)((st_fd s, Rd) \<mapsto> recvOnePackCall s)"
proof -
  obtain r' where r': "add r (st_fd s) EVENT_READ (recvOnePackCall s) = Inr (True, r')" "inv r'"
    "nfds r' = nfds r" "handler r' = (handler r)((st_fd s, Rd) \<mapsto> recvOnePackCall s)"
    using adds_okE [OF assms(1-4), of Rd "recvOnePackCall s"] by auto
  show ?thesis
    by (rule that [of "s\<lparr>recvLen := 0, needRecvLen := n, recvBuf := resize (nat n) (recvBuf s),
        recvCompleteCallback := Some cb\<rparr>" r'])
      (use assms r' in \<open>simp_all add: asyncRecvBytes_def DEFAULT_BUFF_LEN_def awaits_def reads_def
        recv_ready_def recv_side_iff\<close>)
qed

lemma ask_send:
  assumes "adds_ok add nfds inv" "inv r" "0 \<le> st_fd s" "st_fd s < nfds r" "length bytes \<le> 1024"
  obtains s' r' where "asyncSendBytes add s r bytes (Some cb) = Inr (True, s', r')" "writes r' s'"
    "sendLen s' = 0" "needSendLen s' = int (length bytes)" "sendBuf s' = bytes"
    "sendCompleteCallback s' = Some cb" "send_side s s'" "inv r'" "nfds r' = nfds r"
    "handler r' = (handler r)((st_fd s, Wr) \<mapsto> sendOnePackCall s)"
proof -
  obtain r' where r': "add r (st_fd s) EVENT_WRITE (sendOnePackCall s) = Inr (True, r')" "inv r'"
    "nfds r' = nfds r" "handler r' = (handler r)((st_fd s, Wr) \<mapsto> sendOnePackCall s)"
    using adds_okE [OF assms(1-4), of Wr "sendOnePackCall s"] by auto
  have "int_of_size (length bytes) = int (length bytes)" using assms(5) by (simp add: int_of_size_small)
  then show ?thesis
    by (intro that [of "s\<lparr>sendLen := 0, needSendLen := int (length bytes), sendBuf := bytes,
        sendCompleteCallback := Some cb\<rparr>" r'])
      (use assms r' in \<open>simp_all add: asyncSendBytes_def DEFAULT_BUFF_LEN_def writes_def
        send_ready_def send_side_iff\<close>)
qed

text \<open>Sending does not disturb a request.\<close>

lemma awaits_send_side:
  assumes "awaits r s n cb" "send_side s s'" "inv r'" "nfds r' = nfds r"
    and "handler r' (st_fd s, Rd) = handler r (st_fd s, Rd)"
  shows "awaits r' s' n cb"
  using assms by (auto simp: awaits_def reads_def recv_ready_def send_side_iff)

lemma writes_recv_side:
  assumes "writes r s" "recv_side s s'" "inv r'" "nfds r' = nfds r"
    and "handler r' (st_fd s, Wr) = handler r (st_fd s, Wr)"
  shows "writes r' s'"
  using assms by (auto simp: writes_def send_ready_def recv_side_iff)

text \<open>
  With registrations that succeed, a request for \<open>n\<close> bytes is answered once, with exactly the
  \<open>n\<close> bytes, however they are cut into pieces and whatever interruptions come between.
\<close>

lemma feed_complete:
  assumes "adds_ok add nfds inv" "reads r s" "recvCompleteCallback s = Some cb" "brings rs bs"
    and "int (length bs) = needRecvLen s"
  shows "\<exists>s' r'. feed add fire s r rs =
      Inr (s', r', [CallRecv cb RECVED (take (nat (recvLen s)) (recvBuf s) @ bs)]) \<and>
    recvStat s' = RECVED \<and> handler r' (st_fd s, Rd) = None \<and> recv_side s s' \<and> inv r' \<and>
    nfds r' = nfds r"
  using assms(2-)
proof (induction rs arbitrary: s r bs)
  case (Cons res rs)
  have on: "recv_goes_on res" using Cons.prems(3) by (simp add: brings_Cons)
  have "length (result_bytes res) \<le> length bs"
    using Cons.prems(3) by (auto simp: brings_Cons split: if_splits)
  with Cons.prems(4) have fits: "recv_fits s res" by (cases res) auto
  from assms(1) Cons.prems(1) on fits Cons.prems(2) show ?case
  proof (cases rule: recv_event)
    case (more s' r1 r')
    with Cons.prems(3,4) obtain bs' where bs': "bs = result_bytes res @ bs'" "brings rs bs'"
      by (auto simp: brings_Cons split: if_splits)
    have "int (length bs') = needRecvLen s'" "st_fd s' = st_fd s"
      using more bs' Cons.prems(4) by (simp_all add: recv_side_iff)
    with Cons.IH [OF more(4,8) bs'(2)] obtain s2 r2 where
      "feed add fire s' r' rs =
         Inr (s2, r2, [CallRecv cb RECVED (take (nat (recvLen s')) (recvBuf s') @ bs')])"
      "recvStat s2 = RECVED" "handler r2 (st_fd s', Rd) = None" "recv_side s' s2" "inv r2"
      "nfds r2 = nfds r'" by blast
    with more bs'(1) recv_side_trans [OF more(5)] \<open>st_fd s' = st_fd s\<close> show ?thesis by auto
  next
    case (complete s' r1)
    have "rs = []" "bs = result_bytes res"
      using Cons.prems(3,4) complete(3) brings_nonempty by (auto simp: brings_Cons split: if_splits)
    with complete show ?thesis by simp
  qed
qed (simp add: brings_def)

end

section \<open>Over libevent\<close>

lemma lib_adds_ok: "lib_adds lib \<Longrightarrow> adds_ok (lev_add lib) reactor_nfds reactor_inv"
  using lib_adds_add by (auto simp: adds_ok_def)

text \<open>A stream is deleted without failing when libevent removes its events.\<close>

lemma delete_Stream_runs:
  assumes "lib_removes lib" "reactor_inv r" "0 < st_fd s" "st_fd s < reactor_nfds r"
  shows "\<exists>res. delete_Stream (removeEventHandler lib) s r = Inr res"
proof -
  obtain r1 where r1: "removeEventHandler lib r (st_fd s) (flag Rd) = Inr (True, r1)"
    using lib_removes_remove [OF assms(1,2) _ assms(4), of Rd] assms(3) by auto
  with lev.rem_law [OF assms(2) _ assms(4) r1] assms(3)
  have "reactor_inv r1" "reactor_nfds r1 = reactor_nfds r" by auto
  with lib_removes_remove [OF assms(1) this(1), of "st_fd s" Wr] assms(3,4)
  obtain r2 where "removeEventHandler lib r1 (st_fd s) (flag Wr) = Inr (True, r2)" by auto
  with r1 assms(3) show ?thesis by (simp add: delete_Stream_def)
qed

lemma four_in_range: "0 < (4::int)" "4 \<le> (1024::int)"
  by simp_all

section \<open>Properties\<close>

text \<open>
  C19: A request is answered. On any stream, whatever it has received before and whatever its
  members hold, when \<open>asyncRecvBytes\<close> has accepted a request for \<open>num\<close> bytes and libevent adds
  events without failing, then after any sequence of readable events in which \<open>recv\<close> returns the
  bytes in pieces, or is interrupted or has nothing yet, and the last of which completes the
  \<open>num\<close> bytes, the callback has been called exactly once, with \<open>RECVED\<close> and exactly these
  bytes. The stream is then no longer registered for reading, and what is assumed of it holds
  again, so the next request is answered likewise.
\<close>

theorem stream_request_answered:
  assumes "lib_adds lib" "reactor_inv r" "0 \<le> st_fd s0" "st_fd s0 < reactor_nfds r"
    and "asyncRecvBytes (lev_add lib) s0 r num (Some cb) = Inr (True, s, r')"
    and "\<forall>res \<in> set rs. recv_goes_on res" "int (length (concat (map result_bytes rs))) = num"
    and "rs \<noteq> []" "result_bytes (last rs) \<noteq> []"
  shows "\<exists>s' r''. feed (lev_add lib) dispatch s r' rs =
      Inr (s', r'', [CallRecv cb RECVED (concat (map result_bytes rs))]) \<and>
    recvStat s' = RECVED \<and> reactor_handler r'' (st_fd s0, Rd) = None \<and>
    reactor_inv r'' \<and> st_fd s' = st_fd s0 \<and> reactor_nfds r'' = reactor_nfds r"
proof -
  let ?bs = "concat (map result_bytes rs)"
  note ok = lib_adds_ok [OF assms(1)]
  have num: "0 < num" "num \<le> 1024"
    using assms(5) by (auto simp: asyncRecvBytes_def DEFAULT_BUFF_LEN_def split: if_splits)
  obtain s1 r1 where "asyncRecvBytes (lev_add lib) s0 r num (Some cb) = Inr (True, s1, r1)"
    "lev.awaits r1 s1 num cb" "recv_side s0 s1" "reactor_nfds r1 = reactor_nfds r"
    by (rule lev.ask_recv [OF ok assms(2-4) num, of cb]) (rule that)
  with assms(5) have s: "lev.awaits r' s num cb" "st_fd s = st_fd s0" "reactor_nfds r' = reactor_nfds r"
    by (simp_all add: recv_side_iff)
  have "brings rs ?bs" using assms(6,8,9) by (simp add: brings_def)
  with lev.feed_complete [OF ok, of r' s cb rs ?bs] s assms(7) show ?thesis
    by (auto simp: lev.awaits_def recv_side_iff)
qed

text \<open>Two requests in a row on one stream: three bytes in pieces, then two.\<close>

theorem stream_request_answered_witness:
  "\<exists>s r s1 r1 s2 r2 s3 r3. asyncRecvBytes (lev_add (\<lambda>_ _. True)) (new_Stream 3 ''recv'' ''send'') reactor5 3
      (Some (5::nat)) = Inr (True, s, r) \<and>
    feed (lev_add (\<lambda>_ _. True)) dispatch s r [Received ''a'', RecvFailed EINTR, Received ''bc''] =
      Inr (s1, r1, [CallRecv 5 RECVED ''abc'']) \<and>
    asyncRecvBytes (lev_add (\<lambda>_ _. True)) s1 r1 2 (Some 6) = Inr (True, s2, r2) \<and>
    feed (lev_add (\<lambda>_ _. True)) dispatch s2 r2 [Received ''d'', Received ''e''] =
      Inr (s3, r3, [CallRecv 6 RECVED ''de''])"
proof -
  let ?add = "lev_add (\<lambda>_ _. True) :: string reactor \<Rightarrow> _"
  have ask: "\<exists>s r'. asyncRecvBytes ?add s0 r n (Some cb) = Inr (True, s, r')"
    if "reactor_inv r" "0 \<le> st_fd s0" "st_fd s0 < reactor_nfds r" "0 < n" "n \<le> 1024"
    for s0 :: "(string, nat) stream" and r n cb
    using lev.ask_recv [OF lib_adds_ok [OF lib_adds_True] that, of cb] by blast
  have inv: "reactor_inv reactor5" "3 < reactor_nfds reactor5"
    using reactor5_start by (auto simp: stream_start_def)
  let ?s0 = "new_Stream 3 ''recv'' ''send'' :: (string, nat) stream"
  have fd: "st_fd ?s0 = 3" by (simp add: new_Stream_def)
  obtain s r where run: "asyncRecvBytes ?add ?s0 reactor5 3 (Some 5) = Inr (True, s, r)"
    using ask [of reactor5 ?s0 3 5] inv fd by auto
  obtain s1 r1 where one: "feed ?add dispatch s r [Received ''a'', RecvFailed EINTR, Received ''bc''] =
      Inr (s1, r1, [CallRecv 5 RECVED ''abc''])" "reactor_inv r1" "st_fd s1 = 3"
      "reactor_nfds r1 = reactor_nfds reactor5"
    using stream_request_answered [OF lib_adds_True inv(1) _ _ run,
        of "[Received ''a'', RecvFailed EINTR, Received ''bc'']"] inv(2) fd
    by (auto simp: recv_goes_on_def try_again_def)
  obtain s2 r2 where two: "asyncRecvBytes ?add s1 r1 2 (Some 6) = Inr (True, s2, r2)"
    using ask [of r1 s1 2 6] one inv by auto
  show ?thesis
    using stream_request_answered [OF lib_adds_True one(2) _ _ two, of "[Received ''d'', Received ''e'']"]
      run one two inv(2) by (auto simp: recv_goes_on_def)
qed

end
