(* ===== verification/FramedConnection.thy ===== *)
theory FramedConnection
  imports NetWorkService StreamRequests
begin

text \<open>
  What the connections of the examples (\<open>ConcurrentConnection\<close>, \<open>MapReduceConnection\<close>,
  \<open>ClientConnection\<close>) have in common: a message on the wire is a length of four bytes followed by
  that many bytes of text, and the three classes read the length with the same lines. A connection
  is run by the events of its stream; its callbacks are arguments here and the locale
  \<open>framed_reader\<close> states what they have in common.
\<close>

section \<open>An int on the wire\<close>

text \<open>The four bytes of an \<open>int\<close> in memory on the little-endian targets of the project.\<close>

definition int_bytes :: "int \<Rightarrow> string" where
  "int_bytes n = map (\<lambda>k. char_of (nat (n div 256 ^ k mod 256))) [0, 1, 2, 3]"

text \<open>\<open>*(int *) (&vecBytes[0])\<close>.\<close>

definition read_int :: "string \<Rightarrow> int outcome" where
  "read_int bs = (case bs of
       a # b # c # d # _ \<Rightarrow>
         let u = of_char a + 256 * of_char b + 256 ^ 2 * of_char c + 256 ^ 3 * of_char d :: int
         in Inr (if u < 2 ^ 31 then u else u - 2 ^ 32)
     | _ \<Rightarrow> Inl OutOfBounds)"

lemma length_int_bytes [simp]: "length (int_bytes n) = 4"
  by (simp add: int_bytes_def)

lemma of_char_byte:
  assumes "0 \<le> x" "x < 256"
  shows "(of_char (char_of (nat x)) :: int) = x"
proof -
  have "(of_char (char_of (nat x)) :: int) = int (of_char (char_of (nat x)))"
    by (rule of_nat_of_char [symmetric])
  also have "\<dots> = int (nat x mod 256)" by (simp only: of_char_of)
  finally show ?thesis using assms by simp
qed

lemma bytes_sum:
  fixes n :: int
  shows "n mod 256 + 256 * (n div 256 mod 256) + 65536 * (n div 65536 mod 256) +
    16777216 * (n div 16777216 mod 256) = n mod 4294967296"
proof -
  have regroup: "256 * (256 * (256 * d + c) + b) + a = a + 256 * b + 65536 * c + 16777216 * d"
    for a b c d :: int by simp
  have m4: "n mod (256 * 16777216) = 256 * (n div 256 mod 16777216) + n mod 256"
    by (rule zmod_zmult2_eq) simp
  have m3: "n div 256 mod (256 * 65536) = 256 * (n div 256 div 256 mod 65536) + n div 256 mod 256"
    by (rule zmod_zmult2_eq) simp
  have m2: "n div 256 div 256 mod (256 * 256) =
    256 * (n div 256 div 256 div 256 mod 256) + n div 256 div 256 mod 256"
    by (rule zmod_zmult2_eq) simp
  have d2: "n div (256 * 256) = n div 256 div 256" by (rule zdiv_zmult2_eq) simp
  have d3: "n div (256 * 256 * 256) = n div (256 * 256) div 256" by (rule zdiv_zmult2_eq) simp
  have c: "256 * 16777216 = (4294967296 :: int)" "256 * 65536 = (16777216 :: int)"
    "256 * 256 = (65536 :: int)" "65536 * 256 = (16777216 :: int)" by simp_all
  have e2: "n div 65536 = n div 256 div 256" using d2 by (simp only: c)
  have e3: "n div 16777216 = n div 256 div 256 div 256" using d3 by (simp only: c e2)
  have "n mod 4294967296 = 256 * (256 * (256 * (n div 256 div 256 div 256 mod 256) +
      n div 256 div 256 mod 256) + n div 256 mod 256) + n mod 256"
    using m4 m3 m2 by (simp only: c)
  also have "\<dots> = n mod 256 + 256 * (n div 256 mod 256) + 65536 * (n div 65536 mod 256) +
      16777216 * (n div 16777216 mod 256)"
    unfolding e3 e2 by (rule regroup)
  finally show ?thesis by (rule sym)
qed

lemma read_int_bytes_mod:
  "read_int (int_bytes n @ rest) =
     Inr (if n mod 4294967296 < 2147483648 then n mod 4294967296 else n mod 4294967296 - 4294967296)"
proof -
  have byte: "(of_char (char_of (nat (m mod 256))) :: int) = m mod 256" for m
    by (rule of_char_byte) simp_all
  have "int_bytes n @ rest = char_of (nat (n mod 256)) # char_of (nat (n div 256 mod 256)) #
      char_of (nat (n div 65536 mod 256)) # char_of (nat (n div 16777216 mod 256)) # rest"
    by (simp add: int_bytes_def)
  moreover have "(2::int) ^ 31 = 2147483648" "(2::int) ^ 32 = 4294967296" "(256::int) ^ 2 = 65536"
    "(256::int) ^ 3 = 16777216" by simp_all
  ultimately show ?thesis
    by (simp only: read_int_def list.case byte Let_def bytes_sum)
qed

lemma read_int_bytes:
  assumes "- (2 ^ 31) \<le> n" "n < 2 ^ 31"
  shows "read_int (int_bytes n @ rest) = Inr n"
proof (cases "0 \<le> n")
  case True
  have "n mod 4294967296 = n" by (rule mod_pos_pos_trivial) (use True assms in simp_all)
  with assms show ?thesis by (simp add: read_int_bytes_mod)
next
  case False
  have "n mod 4294967296 = (n + 4294967296) mod 4294967296" by (rule mod_add_self2 [symmetric])
  also have "\<dots> = n + 4294967296"
    by (rule mod_pos_pos_trivial) (use False assms in simp_all)
  finally have "n mod 4294967296 = n + 4294967296" .
  with False assms show ?thesis by (simp only: read_int_bytes_mod) simp
qed

section \<open>The length of a message\<close>

datatype recv_state = RECV_HEAD | RECV_BODY

text \<open>
  The branch of \<open>recvCompleteCallback\<close> for the head of a message: what was received is read as a
  length, and the body is asked for; a length that is too large is dropped and the next four bytes
  are taken for a length. The results of \<open>asyncRecvBytes\<close> are not looked at.
\<close>

definition recv_head :: "('r \<Rightarrow> int \<Rightarrow> event_flags \<Rightarrow> 'cb \<Rightarrow> (bool \<times> 'r) outcome) \<Rightarrow>
    ('cb, 'u) stream \<Rightarrow> 'r \<Rightarrow> 'u option \<Rightarrow> string \<Rightarrow> (recv_state \<times> ('cb, 'u) stream \<times> 'r) outcome" where
  "recv_head add s r cb vecBytes =
     (if length vecBytes < 4
      then and_then (asyncRecvBytes add s r 4 cb) (\<lambda>(_, s, r). Inr (RECV_HEAD, s, r))
      else and_then (read_int vecBytes) (\<lambda>bodyLen.
        if bodyLen > 1024
        then and_then (asyncRecvBytes add s r 4 cb) (\<lambda>(_, s, r). Inr (RECV_HEAD, s, r))
        else and_then (asyncRecvBytes add s r bodyLen cb) (\<lambda>(_, s, r). Inr (RECV_BODY, s, r))))"

text \<open>
  A message put together: \<open>resize\<close> of the buffer to four bytes more than the text, one \<open>memcpy\<close>
  of the length and one of the text.
\<close>

definition pack_frame :: "string \<Rightarrow> string \<Rightarrow> string outcome" where
  "pack_frame buf str =
     (let len = int_of_size (length str) in
      and_then (write_at (resize (nat (4 + len)) buf) 0 (int_bytes len)) (\<lambda>buf.
        write_at buf 4 (take (nat len) str)))"

text \<open>A message as it should be on the wire.\<close>

definition frame :: "string \<Rightarrow> string" where
  "frame str = int_bytes (int (length str)) @ str"

lemma pack_frame_eq: "length str < 2 ^ 31 \<Longrightarrow> pack_frame buf str = Inr (frame str)"
  by (simp add: pack_frame_def frame_def int_of_size_small write_at_def nat_add_distrib Let_def)

lemma length_frame [simp]: "length (frame str) = length str + 4"
  by (simp add: frame_def)

section \<open>A connection and its events\<close>

text \<open>
  A callback of a connection works on the connection, the reactor of its service and the rest of
  the world \<open>'w\<close> (the service, a pool, counters); the connection is \<open>None\<close> afterwards when the
  callback has destroyed it.
\<close>

type_synonym ('c, 'r, 'w) conn_result = "('c option \<times> 'r \<times> 'w) outcome"

type_synonym ('c, 'r, 'w) recv_done = "'c \<Rightarrow> 'r \<Rightarrow> 'w \<Rightarrow> stream_stat \<Rightarrow> string \<Rightarrow> ('c, 'r, 'w) conn_result"

type_synonym ('c, 'r, 'w) send_done = "'c \<Rightarrow> 'r \<Rightarrow> 'w \<Rightarrow> stream_stat \<Rightarrow> ('c, 'r, 'w) conn_result"

text \<open>
  The calls a stream makes at the end of a pass, in order: the callbacks are bound to the
  connection, so the kind of a call says which one it is. The result also has the bytes given to
  the socket.
\<close>

definition sent_first :: "string \<Rightarrow> ('a \<times> 'b \<times> 'c \<times> string) outcome \<Rightarrow> ('a \<times> 'b \<times> 'c \<times> string) outcome" where
  "sent_first bs m = and_then m (\<lambda>(a, b, c, bytes). Inr (a, b, c, bs @ bytes))"

lemma sent_first_simps [simp]:
  "sent_first bs (Inr (a, b, c, bytes)) = Inr (a, b, c, bs @ bytes)"
  "sent_first bs (Inl e) = Inl e"
  "sent_first [] m = m"
  "sent_first bs (sent_first bs' m) = sent_first (bs @ bs') m"
  by (simp_all add: sent_first_def, (cases m, auto)+)

lemma sent_first_and_then:
  "sent_first bs (and_then m (\<lambda>(a, b, c). f a b c)) = and_then m (\<lambda>(a, b, c). sent_first bs (f a b c))"
  by (cases m) (simp_all split: prod.split)

fun conn_calls :: "('c, 'r, 'w) recv_done \<Rightarrow> ('c, 'r, 'w) send_done \<Rightarrow> 'c \<Rightarrow> 'r \<Rightarrow> 'w \<Rightarrow>
    unit stream_out list \<Rightarrow> ('c option \<times> 'r \<times> 'w \<times> string) outcome" where
  "conn_calls rd sd c r w [] = Inr (Some c, r, w, [])"
| "conn_calls rd sd c r w (OutBytes bs # os) =
     sent_first bs (conn_calls rd sd c r w os)"
| "conn_calls rd sd c r w (CallClose u fd # os) = conn_calls rd sd c r w os"
| "conn_calls rd sd c r w (CallRecv u st buf # os) =
     and_then (rd c r w st buf) (\<lambda>(c', r, w).
       case c' of None \<Rightarrow> Inr (None, r, w, []) | Some c \<Rightarrow> conn_calls rd sd c r w os)"
| "conn_calls rd sd c r w (CallSend u st # os) =
     and_then (sd c r w st) (\<lambda>(c', r, w).
       case c' of None \<Rightarrow> Inr (None, r, w, []) | Some c \<Rightarrow> conn_calls rd sd c r w os)"

datatype io_event = Readable recv_result | Writable send_result

fun ev_dir :: "io_event \<Rightarrow> dir" where
  "ev_dir (Readable _) = Rd"
| "ev_dir (Writable _) = Wr"

text \<open>An event of the connection's descriptor, with what \<open>recv\<close> or \<open>send\<close> returns for it.\<close>

fun conn_event :: "('r \<Rightarrow> int \<Rightarrow> event_flags \<Rightarrow> 'cb \<Rightarrow> (bool \<times> 'r) outcome) \<Rightarrow>
    ('r \<Rightarrow> int \<Rightarrow> dir \<Rightarrow> (('cb \<times> event_flags) option \<times> 'r) outcome) \<Rightarrow>
    (('cb, unit, 'z) connection_scheme, 'r, 'w) recv_done \<Rightarrow>
    (('cb, unit, 'z) connection_scheme, 'r, 'w) send_done \<Rightarrow>
    ('cb, unit, 'z) connection_scheme \<Rightarrow> 'r \<Rightarrow> 'w \<Rightarrow> io_event \<Rightarrow>
    (('cb, unit, 'z) connection_scheme option \<times> 'r \<times> 'w \<times> string) outcome" where
  "conn_event add fire rd sd c r w (Readable res) =
     and_then (fire r (st_fd (cn_stream c)) Rd) (\<lambda>(x, r).
       case x of
         None \<Rightarrow> Inr (Some c, r, w, [])
       | Some (cb, ev) \<Rightarrow>
           and_then (recvOnePack add (cn_stream c) r (st_fd (cn_stream c)) ev res) (\<lambda>(s, r, os).
             conn_calls rd sd (c\<lparr>cn_stream := s\<rparr>) r w os))"
| "conn_event add fire rd sd c r w (Writable res) =
     and_then (fire r (st_fd (cn_stream c)) Wr) (\<lambda>(x, r).
       case x of
         None \<Rightarrow> Inr (Some c, r, w, [])
       | Some (cb, ev) \<Rightarrow>
           and_then (sendOnePack add (cn_stream c) r (st_fd (cn_stream c)) ev res) (\<lambda>(s, r, os).
             conn_calls rd sd (c\<lparr>cn_stream := s\<rparr>) r w os))"

fun conn_run :: "('r \<Rightarrow> int \<Rightarrow> event_flags \<Rightarrow> 'cb \<Rightarrow> (bool \<times> 'r) outcome) \<Rightarrow>
    ('r \<Rightarrow> int \<Rightarrow> dir \<Rightarrow> (('cb \<times> event_flags) option \<times> 'r) outcome) \<Rightarrow>
    (('cb, unit, 'z) connection_scheme, 'r, 'w) recv_done \<Rightarrow>
    (('cb, unit, 'z) connection_scheme, 'r, 'w) send_done \<Rightarrow>
    ('cb, unit, 'z) connection_scheme option \<Rightarrow> 'r \<Rightarrow> 'w \<Rightarrow> io_event list \<Rightarrow>
    (('cb, unit, 'z) connection_scheme option \<times> 'r \<times> 'w \<times> string) outcome" where
  "conn_run add fire rd sd c r w [] = Inr (c, r, w, [])"
| "conn_run add fire rd sd None r w (e # es) = Inr (None, r, w, [])"
| "conn_run add fire rd sd (Some c) r w (e # es) =
     and_then (conn_event add fire rd sd c r w e) (\<lambda>(c, r, w, bytes).
       sent_first bytes (conn_run add fire rd sd c r w es))"

lemma conn_run_None [simp]: "conn_run add fire rd sd None r w es = Inr (None, r, w, [])"
  by (cases es) simp_all

lemma conn_calls_bytes: "conn_calls rd sd c r w (if bs = [] then [] else [OutBytes bs]) =
    Inr (Some c, r, w, bs)"
  by simp

lemma conn_run_append:
  "conn_run add fire rd sd c r w (es @ es') =
     and_then (conn_run add fire rd sd c r w es) (\<lambda>(c, r, w, bytes).
       sent_first bytes (conn_run add fire rd sd c r w es'))"
proof (induction es arbitrary: c r w)
  case (Cons e es)
  show ?case
  proof (cases c)
    case (Some c0)
    show ?thesis unfolding Some
      by (cases "conn_event add fire rd sd c0 r w e")
        (auto simp: Cons.IH sent_first_def and_then_assoc and_then_def split: sum.splits)
  qed simp
qed simp

section \<open>Complete receptions and transmissions\<close>

context event_reactor
begin

text \<open>
  A request is served by the events that bring its bytes, and nothing but its callback happens; a
  buffer is sent by the events that take its bytes, and then its callback is called.
\<close>

lemma conn_run_recv:
  assumes "adds_ok add nfds inv" "reads r (cn_stream c)" "brings rs bs" "int (length bs) = needRecvLen (cn_stream c)"
    and "recvCompleteCallback (cn_stream c) = Some ()"
  shows "\<exists>s' r'. (\<forall>es. conn_run add fire rd sd (Some c) r w (map Readable rs @ es) =
      and_then (rd (c\<lparr>cn_stream := s'\<rparr>) r' w RECVED
          (take (nat (recvLen (cn_stream c))) (recvBuf (cn_stream c)) @ bs)) (\<lambda>(c, r, w).
        conn_run add fire rd sd c r w es)) \<and>
    recv_side (cn_stream c) s' \<and> inv r' \<and> nfds r' = nfds r \<and>
    handler r' = (handler r)((st_fd (cn_stream c), Rd) := None)"
  using assms(2-)
proof (induction rs arbitrary: c r bs)
  case (Cons res rs)
  let ?s = "cn_stream c"
  have on: "recv_goes_on res" using Cons.prems(2) by (simp add: brings_Cons)
  have "length (result_bytes res) \<le> length bs"
    using Cons.prems(2) by (auto simp: brings_Cons split: if_splits)
  with Cons.prems(3) have fits: "recv_fits ?s res" by (cases res) auto
  from assms(1) Cons.prems(1) on fits Cons.prems(4) show ?case
  proof (cases rule: recv_event)
    case (more s' r1 r')
    with Cons.prems(2,3) obtain bs' where bs': "bs = result_bytes res @ bs'" "brings rs bs'"
      by (auto simp: brings_Cons split: if_splits)
    have pre: "reads r' (cn_stream (c\<lparr>cn_stream := s'\<rparr>))"
      "int (length bs') = needRecvLen (cn_stream (c\<lparr>cn_stream := s'\<rparr>))"
      "recvCompleteCallback (cn_stream (c\<lparr>cn_stream := s'\<rparr>)) = Some ()"
      using more bs' Cons.prems(3) by simp_all
    from Cons.IH [OF pre(1) bs'(2) pre(2,3)] obtain s2 r2 where IH:
      "\<forall>es. conn_run add fire rd sd (Some (c\<lparr>cn_stream := s'\<rparr>)) r' w (map Readable rs @ es) =
        and_then (rd (c\<lparr>cn_stream := s'\<rparr>\<lparr>cn_stream := s2\<rparr>) r2 w RECVED
          (take (nat (recvLen (cn_stream (c\<lparr>cn_stream := s'\<rparr>)))) (recvBuf (cn_stream (c\<lparr>cn_stream := s'\<rparr>))) @ bs'))
          (\<lambda>(c, r, w). conn_run add fire rd sd c r w es)"
      "recv_side (cn_stream (c\<lparr>cn_stream := s'\<rparr>)) s2" "inv r2" "nfds r2 = nfds r'"
      "handler r2 = (handler r')((st_fd (cn_stream (c\<lparr>cn_stream := s'\<rparr>)), Rd) := None)"
      by (elim exE conjE, intro that)
    have side: "recv_side s' s2" using IH(2) by simp
    have run: "conn_run add fire rd sd (Some c) r w (map Readable (res # rs) @ es) =
      conn_run add fire rd sd (Some (c\<lparr>cn_stream := s'\<rparr>)) r' w (map Readable rs @ es)" for es
      using more(1,2)
      by (cases "conn_run add fire rd sd (Some (c\<lparr>cn_stream := s'\<rparr>)) r' w (map Readable rs @ es)") auto
    have "recv_side ?s s2" using more(5) side by (rule recv_side_trans)
    moreover have "st_fd s' = st_fd ?s" using more(5) by (simp add: recv_side_iff)
    ultimately show ?thesis using IH run more(7,9,10) bs'(1)
      by (intro exI [of _ s2] exI [of _ r2]) simp
  next
    case (complete s' r1)
    have rs: "rs = []" "bs = result_bytes res"
      using Cons.prems(2,3) complete(3) brings_nonempty by (auto simp: brings_Cons split: if_splits)
    let ?rd = "rd (c\<lparr>cn_stream := s'\<rparr>) r1 w RECVED (take (nat (recvLen ?s)) (recvBuf ?s) @ bs)"
    have "conn_run add fire rd sd (Some c) r w (map Readable (res # rs) @ es) =
      and_then ?rd (\<lambda>(c, r, w). conn_run add fire rd sd c r w es)" for es
      using complete(1,2) rs
      by (cases ?rd) (auto simp: and_then_def split: option.split sum.splits prod.splits)
    with complete(4,6-8) show ?thesis by (intro exI [of _ s'] exI [of _ r1]) simp
  qed
qed (simp add: brings_def)

lemma conn_run_send:
  assumes "adds_ok add nfds inv" "writes r (cn_stream c)" "takes rs n" "int n = needSendLen (cn_stream c)"
    and "sendCompleteCallback (cn_stream c) = Some ()"
    and "left = drop (nat (sendLen (cn_stream c))) (sendBuf (cn_stream c))"
  shows "\<exists>s' r'. (\<forall>es. conn_run add fire rd sd (Some c) r w (map Writable rs @ es) =
      and_then (sd (c\<lparr>cn_stream := s'\<rparr>) r' w SENDED) (\<lambda>(c, r, w).
        sent_first left (conn_run add fire rd sd c r w es))) \<and>
    send_side (cn_stream c) s' \<and> inv r' \<and> nfds r' = nfds r \<and>
    handler r' = (handler r)((st_fd (cn_stream c), Wr) := None)"
  using assms(2-)
proof (induction rs arbitrary: c r n left)
  case (Cons res rs)
  let ?s = "cn_stream c"
  let ?bs = "take (result_count res) (drop (nat (sendLen ?s)) (sendBuf ?s))"
  have on: "send_goes_on res" using Cons.prems(2) by (simp add: takes_Cons)
  have "result_count res \<le> n" using Cons.prems(2) by (auto simp: takes_Cons split: if_splits)
  with Cons.prems(3) have fits: "send_fits ?s res" by (cases res) auto
  have pos: "0 < needSendLen ?s" using takes_pos [OF Cons.prems(2)] Cons.prems(3) by simp
  have ready: "send_ready ?s" using Cons.prems(1) by (simp add: writes_def)
  from assms(1) Cons.prems(1) on fits Cons.prems(4) refl pos show ?case
  proof (cases rule: send_event)
    case (more s' r1 r' os)
    with Cons.prems(2,3) obtain n' where n': "n = result_count res + n'" "takes rs n'"
      by (auto simp: takes_Cons split: if_splits)
    let ?left = "drop (nat (sendLen s')) (sendBuf s')"
    have pre: "writes r' (cn_stream (c\<lparr>cn_stream := s'\<rparr>))"
      "int n' = needSendLen (cn_stream (c\<lparr>cn_stream := s'\<rparr>))"
      "sendCompleteCallback (cn_stream (c\<lparr>cn_stream := s'\<rparr>)) = Some ()"
      "?left = drop (nat (sendLen (cn_stream (c\<lparr>cn_stream := s'\<rparr>))))
        (sendBuf (cn_stream (c\<lparr>cn_stream := s'\<rparr>)))"
      using more n' Cons.prems(3) by simp_all
    from Cons.IH [OF pre(1) n'(2) pre(2-4)] obtain s2 r2 where IH:
      "\<forall>es. conn_run add fire rd sd (Some (c\<lparr>cn_stream := s'\<rparr>)) r' w (map Writable rs @ es) =
        and_then (sd (c\<lparr>cn_stream := s'\<rparr>\<lparr>cn_stream := s2\<rparr>) r2 w SENDED) (\<lambda>(c, r, w).
          sent_first ?left (conn_run add fire rd sd c r w es))"
      "send_side (cn_stream (c\<lparr>cn_stream := s'\<rparr>)) s2" "inv r2" "nfds r2 = nfds r'"
      "handler r2 = (handler r')((st_fd (cn_stream (c\<lparr>cn_stream := s'\<rparr>)), Wr) := None)"
      by (elim exE conjE, intro that)
    have side: "send_side s' s2" using IH(2) by simp
    have "nat (sendLen s') = result_count res + nat (sendLen ?s)"
      using more(7) ready by (auto simp: send_ready_def)
    then have left: "left = ?bs @ ?left"
      using Cons.prems(5) more(8) append_take_drop_id [of "result_count res" "drop (nat (sendLen ?s)) (sendBuf ?s)"]
      by (simp add: add.commute)
    have run: "conn_run add fire rd sd (Some c) r w (map Writable (res # rs) @ es) =
      sent_first ?bs (conn_run add fire rd sd (Some (c\<lparr>cn_stream := s'\<rparr>)) r' w (map Writable rs @ es))" for es
      using more(1-3) by (simp add: conn_calls_bytes)
    have "send_side ?s s2" using more(6) side by (rule send_side_trans)
    moreover have "st_fd s' = st_fd ?s" using more(6) by (simp add: send_side_iff)
    ultimately show ?thesis using IH run more(11,12) unfolding left
      by (intro exI [of _ s2] exI [of _ r2]) (simp only: IH(1) sent_first_and_then sent_first_simps, simp)
  next
    case (complete s' r1)
    have rs: "rs = []" "n = result_count res"
      using Cons.prems(2,3) complete(3) takes_pos by (fastforce simp: takes_Cons split: if_splits)+
    have left: "?bs = left"
      using Cons.prems(5) complete(3) ready by (auto simp: send_ready_def)
    have "conn_run add fire rd sd (Some c) r w (map Writable (res # rs) @ es) =
      and_then (sd (c\<lparr>cn_stream := s'\<rparr>) r1 w SENDED) (\<lambda>(c, r, w).
        sent_first left (conn_run add fire rd sd c r w es))" for es
      using complete(1,2) rs left
      by (cases "sd (c\<lparr>cn_stream := s'\<rparr>) r1 w SENDED")
        (auto simp: and_then_def split: option.split sum.splits prod.splits)
    with complete(4-7) show ?thesis by (intro exI [of _ s'] exI [of _ r1]) simp
  qed
qed (simp add: takes_def)

text \<open>A buffer is handed to the stream and sent: when its bytes are taken, the callback is called.\<close>

lemma ask_send_run:
  assumes "adds_ok add nfds inv" "inv r" "0 \<le> st_fd s" "st_fd s < nfds r" "length bytes \<le> 1024"
  obtains s2 r2 where "asyncSendBytes add s r bytes (Some ()) = Inr (True, s2, r2)"
    "send_side s s2" "inv r2" "nfds r2 = nfds r" "handler r2 = (handler r)((st_fd s, Wr) \<mapsto> sendOnePackCall s)"
    "\<And>c ss w. cn_stream c = s2 \<Longrightarrow> takes ss (length bytes) \<Longrightarrow> \<exists>s3 r3.
      (\<forall>es. conn_run add fire rd sd (Some c) r2 w (map Writable ss @ es) =
        and_then (sd (c\<lparr>cn_stream := s3\<rparr>) r3 w SENDED) (\<lambda>(c, r, w).
          sent_first bytes (conn_run add fire rd sd c r w es))) \<and>
      send_side s s3 \<and> inv r3 \<and> nfds r3 = nfds r \<and> handler r3 = (handler r)((st_fd s, Wr) := None)"
proof -
  obtain s2 r2 where ask: "asyncSendBytes add s r bytes (Some ()) = Inr (True, s2, r2)"
    and s2: "writes r2 s2" "sendLen s2 = 0" "needSendLen s2 = int (length bytes)" "sendBuf s2 = bytes"
      "sendCompleteCallback s2 = Some ()" "send_side s s2" "inv r2" "nfds r2 = nfds r"
      "handler r2 = (handler r)((st_fd s, Wr) \<mapsto> sendOnePackCall s)"
    by (rule ask_send [OF assms, of "()"]) (rule that)
  have fd: "st_fd s2 = st_fd s" using s2(6) by (simp add: send_side_iff)
  have "\<exists>s3 r3. (\<forall>es. conn_run add fire rd sd (Some c) r2 w (map Writable ss @ es) =
        and_then (sd (c\<lparr>cn_stream := s3\<rparr>) r3 w SENDED) (\<lambda>(c, r, w).
          sent_first bytes (conn_run add fire rd sd c r w es))) \<and>
      send_side s s3 \<and> inv r3 \<and> nfds r3 = nfds r \<and> handler r3 = (handler r)((st_fd s, Wr) := None)"
    if c: "cn_stream c = s2" and tk: "takes ss (length bytes)" for c ss w
  proof -
    have n: "writes r2 (cn_stream c)" "int (length bytes) = needSendLen (cn_stream c)"
      "sendCompleteCallback (cn_stream c) = Some ()"
      "bytes = drop (nat (sendLen (cn_stream c))) (sendBuf (cn_stream c))" using s2 c by simp_all
    obtain s3 r3 where "\<forall>es. conn_run add fire rd sd (Some c) r2 w (map Writable ss @ es) =
        and_then (sd (c\<lparr>cn_stream := s3\<rparr>) r3 w SENDED) (\<lambda>(c, r, w).
          sent_first bytes (conn_run add fire rd sd c r w es))"
      "send_side (cn_stream c) s3" "inv r3" "nfds r3 = nfds r2"
      "handler r3 = (handler r2)((st_fd (cn_stream c), Wr) := None)"
      using conn_run_send [OF assms(1) n(1) tk n(2-4), of rd sd w] by (elim exE conjE) (rule that)
    moreover have "send_side s s3" using s2(6) calculation(2) c by (auto intro: send_side_trans)
    ultimately show ?thesis using s2(8,9) c fd by (intro exI [of _ s3] exI [of _ r3]) simp
  qed
  with ask s2(6-9) show ?thesis by (intro that)
qed

lemma conn_run_awaited:
  assumes "adds_ok add nfds inv" "awaits r (cn_stream c) (int (length bs)) ()" "brings rs bs"
  obtains s' r' where "\<And>es. conn_run add fire rd sd (Some c) r w (map Readable rs @ es) =
      and_then (rd (c\<lparr>cn_stream := s'\<rparr>) r' w RECVED bs) (\<lambda>(c, r, w). conn_run add fire rd sd c r w es)"
    "recv_side (cn_stream c) s'" "inv r'" "nfds r' = nfds r"
    "handler r' = (handler r)((st_fd (cn_stream c), Rd) := None)"
proof -
  have "reads r (cn_stream c)" "recvLen (cn_stream c) = 0" "int (length bs) = needRecvLen (cn_stream c)"
    "recvCompleteCallback (cn_stream c) = Some ()" using assms(2) by (simp_all add: awaits_def)
  with conn_run_recv [OF assms(1) this(1) assms(3) this(3,4), of rd sd w] show ?thesis
    by (elim exE conjE) (rule that, simp_all)
qed

end

section \<open>The contract of the message readers\<close>

text \<open>
  \<open>rd\<close> is the \<open>recvCompleteCallback\<close> of a class of connections, \<open>stat_of\<close> its \<open>stat_\<close> and
  \<open>recv_call\<close> the callback object it hands to the stream. The law is that the head of a message
  is treated as in \<open>recv_head\<close>.
\<close>

locale framed_reader = event_reactor add rem fire handler nfds inv
  for add :: "'r \<Rightarrow> int \<Rightarrow> event_flags \<Rightarrow> 'cb \<Rightarrow> (bool \<times> 'r) outcome"
    and rem :: "'r \<Rightarrow> int \<Rightarrow> event_flags \<Rightarrow> (bool \<times> 'r) outcome"
    and fire :: "'r \<Rightarrow> int \<Rightarrow> dir \<Rightarrow> (('cb \<times> event_flags) option \<times> 'r) outcome"
    and handler :: "'r \<Rightarrow> int \<times> dir \<Rightarrow> 'cb option"
    and nfds :: "'r \<Rightarrow> int" and inv :: "'r \<Rightarrow> bool" +
  fixes rd :: "(('cb, unit, 'z) connection_scheme, 'r, 'w) recv_done"
    and stat_of :: "('cb, unit, 'z) connection_scheme \<Rightarrow> recv_state"
    and set_stat :: "recv_state \<Rightarrow> ('cb, unit, 'z) connection_scheme \<Rightarrow> ('cb, unit, 'z) connection_scheme"
    and recv_call :: "('cb, unit, 'z) connection_scheme \<Rightarrow> unit option"
  assumes head_law: "stat_of c = RECV_HEAD \<Longrightarrow> rd c r w RECVED buf =
      and_then (recv_head add (cn_stream c) r (recv_call c) buf) (\<lambda>(st, s, r).
        Inr (Some (set_stat st (c\<lparr>cn_stream := s\<rparr>)), r, w))"
    and stat_set: "stat_of (set_stat st c) = st" "stat_of (c\<lparr>cn_stream := s\<rparr>) = stat_of c"
    and stream_set: "cn_stream (set_stat st c) = cn_stream c"
      "set_stat st c\<lparr>cn_stream := s\<rparr> = set_stat st (c\<lparr>cn_stream := s\<rparr>)"
    and call_set: "recv_call (c\<lparr>cn_stream := s\<rparr>) = recv_call c" "recv_call (set_stat st c) = recv_call c"
begin

text \<open>After the head the body is asked for.\<close>

lemma head_read:
  assumes "adds_ok add nfds inv" "inv r" "0 \<le> st_fd s" "st_fd s < nfds r"
    and "stat_of c = RECV_HEAD" "recv_call c = Some ()" "0 < n" "n \<le> 1024"
  obtains s' r' where "rd (c\<lparr>cn_stream := s\<rparr>) r w RECVED (int_bytes n) =
      Inr (Some (set_stat RECV_BODY (c\<lparr>cn_stream := s'\<rparr>)), r', w)"
    "awaits r' s' n ()" "recv_side s s'" "inv r'" "nfds r' = nfds r"
    "handler r' = (handler r)((st_fd s, Rd) \<mapsto> recvOnePackCall s)"
proof -
  obtain s' r' where ask: "asyncRecvBytes add s r n (Some ()) = Inr (True, s', r')"
    and s': "awaits r' s' n ()" "recv_side s s'" "inv r'" "nfds r' = nfds r"
      "handler r' = (handler r)((st_fd s, Rd) \<mapsto> recvOnePackCall s)"
    by (rule ask_recv [OF assms(1-4,7,8), of "()"]) (rule that)
  have "read_int (int_bytes n) = Inr n" using read_int_bytes [of n "[]"] assms(7,8) by simp
  then have "rd (c\<lparr>cn_stream := s\<rparr>) r w RECVED (int_bytes n) =
      Inr (Some (set_stat RECV_BODY (c\<lparr>cn_stream := s'\<rparr>)), r', w)"
    using ask assms(5-8) by (simp add: head_law stat_set call_set recv_head_def)
  from this s' show ?thesis by (rule that)
qed

text \<open>A head with a length in range makes the connection wait for as many bytes.\<close>

lemma head_arrives:
  assumes "adds_ok add nfds inv" "awaits r (cn_stream c) 4 ()" "stat_of c = RECV_HEAD" "recv_call c = Some ()"
    and "brings hs (int_bytes n)" "0 < n" "n \<le> 1024"
  obtains s' r' where "\<And>es. conn_run add fire rd sd (Some c) r w (map Readable hs @ es) =
      conn_run add fire rd sd (Some (set_stat RECV_BODY (c\<lparr>cn_stream := s'\<rparr>))) r' w es"
    "awaits r' s' n ()" "recv_side (cn_stream c) s'" "nfds r' = nfds r"
    "handler r' = (handler r)((st_fd (cn_stream c), Rd) \<mapsto> recvOnePackCall (cn_stream c))"
proof -
  let ?fd = "st_fd (cn_stream c)"
  have fd: "0 \<le> ?fd" "?fd < nfds r" using assms(2) by (simp_all add: awaits_def reads_def)
  have wait: "awaits r (cn_stream c) (int (length (int_bytes n))) ()" using assms(2) by simp
  obtain s1 r1 where run: "\<And>es. conn_run add fire rd sd (Some c) r w (map Readable hs @ es) =
      and_then (rd (c\<lparr>cn_stream := s1\<rparr>) r1 w RECVED (int_bytes n))
        (\<lambda>(c, r, w). conn_run add fire rd sd c r w es)"
    and s1: "recv_side (cn_stream c) s1" "inv r1" "nfds r1 = nfds r"
      "handler r1 = (handler r)((?fd, Rd) := None)"
    using conn_run_awaited [OF assms(1) wait assms(5), of rd sd w thesis] by blast
  have "st_fd s1 = ?fd" "recvOnePackCall s1 = recvOnePackCall (cn_stream c)"
    using s1(1) by (simp_all add: recv_side_iff)
  then obtain s2 r2 where "rd (c\<lparr>cn_stream := s1\<rparr>) r1 w RECVED (int_bytes n) =
      Inr (Some (set_stat RECV_BODY (c\<lparr>cn_stream := s2\<rparr>)), r2, w)"
    and s2: "awaits r2 s2 n ()" "recv_side s1 s2" "nfds r2 = nfds r"
      "handler r2 = (handler r)((?fd, Rd) \<mapsto> recvOnePackCall (cn_stream c))"
    using head_read [OF assms(1) s1(2) _ _ assms(3,4,6,7), of s1 w thesis] fd s1(3,4) by simp
  moreover have "recv_side (cn_stream c) s2" using s1(1) s2(2) by (simp add: recv_side_iff)
  ultimately show ?thesis using run s2 by (intro that [of s2 r2]) simp_all
qed

text \<open>A message whose length is in range arrives as one call with its body.\<close>

lemma frame_arrives:
  assumes "adds_ok add nfds inv" "awaits r (cn_stream c) 4 ()" "stat_of c = RECV_HEAD" "recv_call c = Some ()"
    and "brings hs (int_bytes (int (length body)))" "brings rs body" "length body \<le> 1024"
  obtains s' r' where "\<And>es. conn_run add fire rd sd (Some c) r w (map Readable (hs @ rs) @ es) =
      and_then (rd (set_stat RECV_BODY (c\<lparr>cn_stream := s'\<rparr>)) r' w RECVED body)
        (\<lambda>(c, r, w). conn_run add fire rd sd c r w es)"
    "recv_side (cn_stream c) s'" "inv r'" "nfds r' = nfds r"
    "handler r' = (handler r)((st_fd (cn_stream c), Rd) := None)"
proof -
  have len: "0 < int (length body)" "int (length body) \<le> 1024"
    using brings_nonempty [OF assms(6)] assms(7) by simp_all
  obtain s2 r2 where head: "\<And>es. conn_run add fire rd sd (Some c) r w (map Readable hs @ es) =
      conn_run add fire rd sd (Some (set_stat RECV_BODY (c\<lparr>cn_stream := s2\<rparr>))) r2 w es"
    and s2: "awaits r2 s2 (int (length body)) ()" "recv_side (cn_stream c) s2" "nfds r2 = nfds r"
      "handler r2 = (handler r)((st_fd (cn_stream c), Rd) \<mapsto> recvOnePackCall (cn_stream c))"
    by (rule head_arrives [OF assms(1-5) len, of sd w]) (rule that)
  let ?c = "set_stat RECV_BODY (c\<lparr>cn_stream := s2\<rparr>)"
  have "awaits r2 (cn_stream ?c) (int (length body)) ()" using s2(1) by (simp add: stream_set)
  then obtain s3 r3 where run: "\<And>es. conn_run add fire rd sd (Some ?c) r2 w (map Readable rs @ es) =
      and_then (rd (?c\<lparr>cn_stream := s3\<rparr>) r3 w RECVED body) (\<lambda>(c, r, w). conn_run add fire rd sd c r w es)"
    and s3: "recv_side (cn_stream ?c) s3" "inv r3" "nfds r3 = nfds r2"
      "handler r3 = (handler r2)((st_fd (cn_stream ?c), Rd) := None)"
    using conn_run_awaited [OF assms(1) _ assms(6), of r2 ?c rd sd w thesis] by blast
  have "recv_side (cn_stream c) s3" using s2(2) s3(1) by (simp add: stream_set recv_side_iff)
  moreover have "st_fd s2 = st_fd (cn_stream c)" using s2(2) by (simp add: recv_side_iff)
  ultimately show ?thesis
    by (intro that [of s3 r3]) (use head run s3 s2 in \<open>simp_all add: stream_set\<close>)
qed

end

end
