(* ===== verification/NumberFiles.thy ===== *)
theory NumberFiles
  imports Utils
begin

text \<open>
  Numbers in text files, as \<open>examples/MapReduceServer\<close> reads them with \<open>ifstream >> int\<close> (in
  \<open>MapReduceConnection::mapFunction\<close> and in \<open>BenchmarkTest.cpp\<close>) and writes them with
  \<open>ofstream << unsigned\<close>: the extraction of an \<open>int\<close> character by character, the loop that looks
  for the largest number, and the round trip of what was written.
\<close>

section \<open>Extraction of an int\<close>

text \<open>
  A stream on a text: what has not been read yet, and \<open>good()\<close>, which is lost when an extraction
  fails or reads up to the end.
\<close>

record istream =
  is_text :: string
  is_good :: bool

definition new_ifstream :: "string option \<Rightarrow> istream" where
  "new_ifstream content = (case content of
       None \<Rightarrow> \<lparr>is_text = [], is_good = False\<rparr>
     | Some text \<Rightarrow> \<lparr>is_text = text, is_good = True\<rparr>)"

definition isspace :: "char \<Rightarrow> bool" where
  "isspace c \<longleftrightarrow> (let n = of_char c :: nat in n = 32 \<or> 9 \<le> n \<and> n \<le> 13)"

definition isdigit :: "char \<Rightarrow> bool" where
  "isdigit c \<longleftrightarrow> (let n = of_char c :: nat in 48 \<le> n \<and> n \<le> 57)"

abbreviation (input) INT_MAX :: int where
  "INT_MAX \<equiv> 2147483647"

abbreviation (input) INT_MIN :: int where
  "INT_MIN \<equiv> - 2147483648"

text \<open>The characters taken for a number: an optional sign and digits.\<close>

definition sign_of :: "string \<Rightarrow> int \<times> string" where
  "sign_of t = (case t of
       [] \<Rightarrow> (1, [])
     | c # r \<Rightarrow> if c = CHR ''-'' then (-1, r) else if c = CHR ''+'' then (1, r) else (1, t))"

text \<open>
  \<open>file >> v\<close>, where \<open>v\<close> is \<open>None\<close> while the variable has not been written: whether it succeeded,
  the variable and the stream afterwards. At the end of the text the variable is left alone; a text
  that is no number stores 0, a number out of range the nearest \<open>int\<close>.
\<close>

definition extract_int :: "istream \<Rightarrow> int option \<Rightarrow> bool \<times> int option \<times> istream" where
  "extract_int f v =
     (if \<not> is_good f then (False, v, f)
      else let t = dropWhile isspace (is_text f) in
        if t = [] then (False, v, \<lparr>is_text = [], is_good = False\<rparr>)
        else let (sgn, t) = sign_of t;
                 rest = dropWhile isdigit t;
                 n = sgn * int (undecimal (takeWhile isdigit t));
                 bad = \<lparr>is_text = rest, is_good = False\<rparr> in
          if takeWhile isdigit t = [] then (False, Some 0, bad)
          else if n < INT_MIN then (False, Some INT_MIN, bad)
          else if INT_MAX < n then (False, Some INT_MAX, bad)
          else (True, Some n, \<lparr>is_text = rest, is_good = rest \<noteq> []\<rparr>))"

lemma sign_of_length: "length (snd (sign_of t)) \<le> length t"
  by (auto simp: sign_of_def split: list.split)

text \<open>A number that was extracted has taken characters from the text and is an \<open>int\<close>.\<close>

lemma extract_int_True:
  assumes "extract_int f v = (True, w, f')"
  shows "length (is_text f') < length (is_text f)" "\<exists>n. w = Some n \<and> INT_MIN \<le> n \<and> n \<le> INT_MAX"
    "extract_int f u = (True, w, f')"
proof -
  let ?t = "dropWhile isspace (is_text f)"
  obtain sgn t where s: "sign_of ?t = (sgn, t)" by fastforce
  have "length (dropWhile isdigit t) < length ?t" if "takeWhile isdigit t \<noteq> []"
  proof -
    have "length (takeWhile isdigit t) + length (dropWhile isdigit t) = length t"
      by (metis length_append takeWhile_dropWhile_id)
    moreover have "length t \<le> length ?t" using sign_of_length [of ?t] s by simp
    ultimately show ?thesis using that by (cases "takeWhile isdigit t") auto
  qed
  with assms s length_dropWhile_le [of isspace "is_text f"]
  show "length (is_text f') < length (is_text f)" "\<exists>n. w = Some n \<and> INT_MIN \<le> n \<and> n \<le> INT_MAX"
    "extract_int f u = (True, w, f')"
    by (auto simp: extract_int_def Let_def split: if_splits)
qed

text \<open>The numbers that can be extracted one after the other.\<close>

function ints :: "istream \<Rightarrow> int list" where
  "ints f = (case extract_int f None of
       (True, Some n, f') \<Rightarrow> n # ints f'
     | _ \<Rightarrow> [])"
  by pat_completeness auto
termination
  by (relation "measure (\<lambda>f. length (is_text f))") (auto dest: extract_int_True(1) [OF sym])

declare ints.simps [simp del]

lemma ints_range: "n \<in> set (ints f) \<Longrightarrow> INT_MIN \<le> n \<and> n \<le> INT_MAX"
proof (induction f rule: ints.induct)
  case (1 f)
  then show ?case
    by (subst (asm) (2) ints.simps)
      (force split: prod.splits bool.splits option.splits dest: extract_int_True(2) extract_int_True(2) [OF sym])
qed

lemma extract_int_ints:
  "ints f = n # ns \<longleftrightarrow> (\<exists>f'. extract_int f v = (True, Some n, f') \<and> ints f' = ns)"
  by (subst ints.simps) (auto split: prod.splits bool.splits option.splits dest: extract_int_True(3) [of f _ _ _ v]
      extract_int_True(3) [of f v _ _ None])

lemma extract_int_no_ints: "ints f = [] \<longleftrightarrow> \<not> fst (extract_int f v)"
proof -
  obtain b w f' where e: "extract_int f v = (b, w, f')" by (metis prod_cases3)
  have "fst (extract_int f v) \<longleftrightarrow> (\<exists>n ns. ints f = n # ns)"
    using extract_int_True(2) [of f v w f'] extract_int_ints [of f _ _ v] e by auto
  then show ?thesis by (auto simp: neq_Nil_conv)
qed

section \<open>The loop over a file\<close>

text \<open>\<open>while (file >> tmp) if (tmp > maxNum) maxNum = tmp;\<close>\<close>

function max_loop :: "istream \<Rightarrow> int option \<Rightarrow> int \<Rightarrow> int" where
  "max_loop f tmp maxNum = (case extract_int f tmp of
       (True, Some t, f') \<Rightarrow> max_loop f' (Some t) (if t > maxNum then t else maxNum)
     | _ \<Rightarrow> maxNum)"
  by pat_completeness auto
termination
  by (relation "measure (\<lambda>(f, _). length (is_text f))") (auto dest: extract_int_True(1) [OF sym])

declare max_loop.simps [simp del]

lemma max_loop_Max: "max_loop f tmp m = Max (insert m (set (ints f)))"
proof (induction f tmp m rule: max_loop.induct)
  case (1 f tmp m)
  show ?case
  proof (cases "ints f")
    case Nil
    then show ?thesis using extract_int_no_ints [of f tmp]
      by (subst max_loop.simps) (auto split: prod.splits bool.splits)
  next
    case (Cons t ns)
    then obtain f' where f': "extract_int f tmp = (True, Some t, f')" "ints f' = ns"
      using extract_int_ints by blast
    have "Max (insert (if t > m then t else m) (set ns)) = Max (insert m (insert t (set ns)))"
      by (cases "set ns = {}") (auto simp: max_def)
    with 1 f' Cons show ?thesis by (subst max_loop.simps) simp
  qed
qed

section \<open>Files of random numbers\<close>

text \<open>
  The loop that fills a file with the outputs of a random engine: \<open>next\<close> is the engine, its state
  is \<open>e\<close>, \<open>j\<close> the number of outputs still to come.
\<close>

fun gen_loop :: "('s \<Rightarrow> nat \<times> 's) \<Rightarrow> nat \<Rightarrow> 's \<Rightarrow> string \<Rightarrow> string \<times> 's" where
  "gen_loop nxt 0 e file = (file, e)"
| "gen_loop nxt (Suc j) e file = (let (n, e) = nxt e in gen_loop nxt j e (file @ decimal n @ '' ''))"

fun outputs :: "('s \<Rightarrow> nat \<times> 's) \<Rightarrow> nat \<Rightarrow> 's \<Rightarrow> nat list" where
  "outputs nxt 0 e = []"
| "outputs nxt (Suc j) e = (let (n, e) = nxt e in n # outputs nxt j e)"

definition written :: "nat list \<Rightarrow> string" where
  "written ns = concat (map (\<lambda>n. decimal n @ '' '') ns)"

lemma gen_loop_written: "fst (gen_loop nxt j e t) = t @ written (outputs nxt j e)"
  by (induction j arbitrary: e t) (simp_all add: written_def split: prod.split)

lemma length_outputs [simp]: "length (outputs nxt j e) = j"
  by (induction j arbitrary: e) (simp_all split: prod.split)

lemma isdigit_char_of: "n < 10 \<Longrightarrow> isdigit (char_of (48 + n :: nat))"
  by (simp add: isdigit_def)

lemma isdigit_not_isspace: "isdigit c \<Longrightarrow> \<not> isspace c"
  by (auto simp: isdigit_def isspace_def Let_def)

lemma isdigit_not_sign: "\<not> isdigit (CHR ''-'')" "\<not> isdigit (CHR ''+'')" "\<not> isdigit (CHR '' '')"
  "isspace (CHR '' '')"
  by (simp_all add: isdigit_def isspace_def)

lemma decimal_digits: "decimal n \<noteq> []" "\<forall>c \<in> set (decimal n). isdigit c"
proof (induction n rule: decimal.induct)
  case (1 n)
  { case 1 show ?case by (subst decimal.simps) simp }
  { case 2
    have "isdigit (char_of (48 + n mod 10))" by (rule isdigit_char_of) simp
    with "1.IH" show ?case by (subst decimal.simps) (auto simp: isdigit_char_of simp del: of_char_of) }
qed

text \<open>A written number is read back, if it is an \<open>int\<close>, up to the blank that follows it.\<close>

lemma extract_int_decimal:
  assumes "\<forall>c \<in> set ws. isspace c"
  shows "extract_int \<lparr>is_text = ws @ decimal n @ CHR '' '' # rest, is_good = True\<rparr> v =
    (if int n \<le> INT_MAX then (True, Some (int n), \<lparr>is_text = CHR '' '' # rest, is_good = True\<rparr>)
     else (False, Some INT_MAX, \<lparr>is_text = CHR '' '' # rest, is_good = False\<rparr>))"
proof -
  obtain d ds where d: "decimal n = d # ds" using decimal_digits(1) by (cases "decimal n") auto
  let ?t = "decimal n @ CHR '' '' # rest"
  have dig: "isdigit d" "\<forall>c \<in> set ds. isdigit c" using decimal_digits(2) [of n] d by auto
  then have "dropWhile isspace (ws @ ?t) = ?t"
    using assms isdigit_not_isspace d by (simp add: dropWhile_append2)
  moreover have "sign_of ?t = (1, ?t)" using dig(1) d isdigit_not_sign by (auto simp: sign_of_def)
  moreover have "takeWhile isdigit ?t = decimal n" "dropWhile isdigit ?t = CHR '' '' # rest"
    using decimal_digits(2) [of n] isdigit_not_sign(3)
    by (simp_all add: takeWhile_append2 dropWhile_append2)
  ultimately show ?thesis using decimal_digits(1) [of n] by (simp add: extract_int_def)
qed

lemma ints_written:
  "\<forall>c \<in> set ws. isspace c \<Longrightarrow>
   ints \<lparr>is_text = ws @ written ns, is_good = True\<rparr> = map int (takeWhile (\<lambda>n. int n \<le> INT_MAX) ns)"
proof (induction ns arbitrary: ws)
  case Nil
  then show ?case by (subst ints.simps) (auto simp: written_def extract_int_def dropWhile_eq_Nil_conv)
next
  case (Cons n ns)
  have "ints \<lparr>is_text = '' '' @ written ns, is_good = True\<rparr> = map int (takeWhile (\<lambda>n. int n \<le> INT_MAX) ns)"
    using Cons.IH [of "'' ''"] isdigit_not_sign(4) by simp
  then show ?case using extract_int_decimal [OF Cons.prems, of n "written ns" None]
    by (subst ints.simps) (simp add: written_def)
qed

section \<open>Properties\<close>

text \<open>
  C38: What the benchmark writes is read back. A file filled with the outputs of a random engine,
  whatever the engine, is read as these numbers in this order, up to the first that is larger than
  the largest \<open>int\<close>, where the reading stops; so all of them are read exactly when all of them are
  \<open>int\<close>s.
\<close>

theorem written_numbers_read_back:
  "ints (new_ifstream (Some (fst (gen_loop nxt j e [])))) =
     map int (takeWhile (\<lambda>n. int n \<le> INT_MAX) (outputs nxt j e)) \<and>
   (length (ints (new_ifstream (Some (fst (gen_loop nxt j e []))))) = j \<longleftrightarrow>
     list_all (\<lambda>n. n < 2 ^ 31) (outputs nxt j e))"
proof -
  let ?P = "\<lambda>n. int n \<le> INT_MAX" and ?o = "outputs nxt j e"
  have "ints (new_ifstream (Some (fst (gen_loop nxt j e [])))) = map int (takeWhile ?P ?o)"
    using ints_written [of "[]"] by (simp add: new_ifstream_def gen_loop_written)
  moreover have "length (takeWhile ?P ?o) = j \<longleftrightarrow> takeWhile ?P ?o = ?o"
    by (metis length_outputs takeWhile_eq_take take_all_iff order_refl)
  moreover have "takeWhile ?P ?o = ?o \<longleftrightarrow> list_all (\<lambda>n. n < 2 ^ 31) ?o"
    by (auto simp: takeWhile_eq_all_conv list_all_iff)
  ultimately show ?thesis by simp
qed

end
