(* ===== verification/ThreadPool.thy ===== *)
theory ThreadPool
  imports ConcurrentRingBuffer "HOL-Library.Multiset"
begin

text \<open>
  \<open>multi-threading/ThreadPool.h\<close> and \<open>ThreadPool.cpp\<close>, with \<open>Task.h\<close> and
  \<open>IndependentTask.cpp\<close>: the pool's queue of tasks over the blocking ring, the functions of the
  pool, and the pool's threads taking tasks while other threads post them.
\<close>

section \<open>Tasks\<close>

text \<open>\<open>start\<close> of an independent task is its virtual \<open>run\<close> between two log lines.\<close>

definition IndependentTask_start :: "('s \<Rightarrow> 's outcome) \<Rightarrow> 's \<Rightarrow> 's outcome" where
  "IndependentTask_start run s = and_then (run s) (\<lambda>s'. Inr s')"

section \<open>The pool\<close>

text \<open>\<open>shared_ptr<Task>\<close> is \<open>'t option\<close>; of \<open>vecThreads\<close> the number of threads is kept.\<close>

record 't pool =
  tp_threadNum :: int
  tp_threads :: nat
  tp_queue :: "'t option ring"

definition TASK_QUEUE_MAX_SIZE :: int where
  "TASK_QUEUE_MAX_SIZE = 1000"

definition new_ThreadPool :: "int \<Rightarrow> int \<Rightarrow> 't pool" where
  "new_ThreadPool threadNum taskQueueSize =
     \<lparr>tp_threadNum = threadNum, tp_threads = 0, tp_queue = crb_new None (of_int taskQueueSize)\<rparr>"

text \<open>The static pointer \<open>pInstance_\<close> is overwritten, whatever it was; it is also returned.\<close>

definition initInstance :: "'t pool option \<Rightarrow> int \<Rightarrow> int \<Rightarrow> 't pool option" where
  "initInstance pInstance threadNum taskQueueSize = Some (new_ThreadPool threadNum taskQueueSize)"

definition getInstance :: "'t pool option \<Rightarrow> 't pool option" where
  "getInstance pInstance = pInstance"

text \<open>\<open>for (; threadNum > 0; threadNum--)\<close>: each round starts a thread and keeps it.\<close>

function pool_spawn :: "int \<Rightarrow> 't pool \<Rightarrow> 't pool" where
  "pool_spawn threadNum p =
     (if threadNum > 0 then pool_spawn (threadNum - 1) (p\<lparr>tp_threads := Suc (tp_threads p)\<rparr>) else p)"
  by pat_completeness auto
termination by (relation "measure (\<lambda>(n, p). nat n)") auto

declare pool_spawn.simps [simp del]

definition pool_start :: "'t pool \<Rightarrow> 't pool" where
  "pool_start p = pool_spawn (tp_threadNum p) p"

definition syncPostTask :: "'t pool \<Rightarrow> 't option \<Rightarrow> 't pool option outcome" where
  "syncPostTask p task =
     and_then (crb_syncPut (tp_queue p) task) (\<lambda>ro. Inr (map_option (\<lambda>q. p\<lparr>tp_queue := q\<rparr>) ro))"

text \<open>The value \<open>asyncPut\<close> returns is passed on; \<open>None\<close> is a value that is not defined.\<close>

definition asyncPostTask :: "'t pool \<Rightarrow> 't option \<Rightarrow> (bool option \<times> 't pool) outcome" where
  "asyncPostTask p task =
     and_then (crb_asyncPut (tp_queue p) task) (\<lambda>(b, q). Inr (b, p\<lparr>tp_queue := q\<rparr>))"

definition syncGetOneTask :: "'t pool \<Rightarrow> (bool \<times> 't option \<times> 't pool) option outcome" where
  "syncGetOneTask p =
     and_then (crb_syncGet (tp_queue p)) (\<lambda>go.
       Inr (map_option (\<lambda>(b, task, q). (True, task, p\<lparr>tp_queue := q\<rparr>)) go))"

text \<open>A round of \<open>threadEntry\<close> up to the call of the task's \<open>start\<close>; \<open>None\<close> while it waits.\<close>

definition threadEntry :: "'t pool \<Rightarrow> ('t \<times> 't pool) option outcome" where
  "threadEntry p =
     and_then (syncGetOneTask p) (\<lambda>go.
       case go of
         None \<Rightarrow> Inr None
       | Some (b, task, p') \<Rightarrow>
           and_then (assert_that (task \<noteq> None)) (\<lambda>_. Inr (Some (the task, p'))))"

lemma pool_spawn_threads: "pool_spawn n p = p\<lparr>tp_threads := tp_threads p + nat n\<rparr>"
proof (induction n p rule: pool_spawn.induct)
  case (1 n p)
  show ?case
  proof (cases "n > 0")
    case True
    then have "Suc (tp_threads p + nat (n - 1)) = tp_threads p + nat n" by simp
    with 1 True show ?thesis by (simp add: pool_spawn.simps [of n p])
  qed (simp add: pool_spawn.simps [of n p])
qed

section \<open>Threads at work\<close>

text \<open>
  A thread of the pool fetches its next task or runs one. Tasks are posted from outside;
  \<open>ps_posted\<close> and \<open>ps_started\<close> are the tasks posted and started so far, \<open>ps_finished\<close> counts
  the tasks whose \<open>start\<close> has returned.
\<close>

datatype 't worker = WFetch | WRun 't

record 't poolsys =
  ps_pool :: "'t pool"
  ps_workers :: "'t worker list"
  ps_posted :: "'t list"
  ps_started :: "'t list"
  ps_finished :: nat

definition poolsys_init :: "int \<Rightarrow> int \<Rightarrow> 't poolsys" where
  "poolsys_init threadNum qsize =
     (let p = pool_start (new_ThreadPool threadNum qsize) in
      \<lparr>ps_pool = p, ps_workers = replicate (tp_threads p) WFetch, ps_posted = [], ps_started = [],
       ps_finished = 0\<rparr>)"

inductive pool_step :: "'t poolsys \<Rightarrow> 't poolsys \<Rightarrow> bool" where
  post: "syncPostTask (ps_pool s) (Some t) = Inr (Some p) \<Longrightarrow>
    pool_step s (s\<lparr>ps_pool := p, ps_posted := ps_posted s @ [t]\<rparr>)"
| apost: "asyncPostTask (ps_pool s) (Some t) = Inr (None, p) \<Longrightarrow>
    pool_step s (s\<lparr>ps_pool := p, ps_posted := ps_posted s @ [t]\<rparr>)"
| fetch: "i < length (ps_workers s) \<Longrightarrow> ps_workers s ! i = WFetch \<Longrightarrow>
    threadEntry (ps_pool s) = Inr (Some (t, p)) \<Longrightarrow>
    pool_step s (s\<lparr>ps_pool := p, ps_workers := (ps_workers s)[i := WRun t],
      ps_started := ps_started s @ [t]\<rparr>)"
| finish: "i < length (ps_workers s) \<Longrightarrow> ps_workers s ! i = WRun t \<Longrightarrow>
    pool_step s (s\<lparr>ps_workers := (ps_workers s)[i := WFetch], ps_finished := Suc (ps_finished s)\<rparr>)"

inductive pool_reach :: "int \<Rightarrow> int \<Rightarrow> 't poolsys \<Rightarrow> bool" for threadNum qsize where
  start: "pool_reach threadNum qsize (poolsys_init threadNum qsize)"
| step: "pool_reach threadNum qsize s \<Longrightarrow> pool_step s s' \<Longrightarrow> pool_reach threadNum qsize s'"

text \<open>Everything posted has been started or is queued, in order; the tasks started and not
  finished are those the threads run.\<close>

definition pool_inv :: "int \<Rightarrow> 't poolsys \<Rightarrow> bool" where
  "pool_inv threadNum s \<longleftrightarrow> crb_inv (tp_queue (ps_pool s)) \<and>
     map Some (ps_posted s) = map Some (ps_started s) @ crb_items (tp_queue (ps_pool s)) \<and>
     length (ps_workers s) = nat threadNum \<and>
     length (ps_started s) = ps_finished s + tally ((\<noteq>) WFetch) (ps_workers s)"

lemma post_items:
  assumes "crb_inv (tp_queue p)"
  shows "syncPostTask p t = Inr (Some p') \<Longrightarrow> crb_inv (tp_queue p') \<and>
      crb_items (tp_queue p') = crb_items (tp_queue p) @ [t] \<and> crb_cap (tp_queue p') = crb_cap (tp_queue p)"
    and "asyncPostTask p t = Inr (None, p') \<Longrightarrow> crb_inv (tp_queue p') \<and>
      crb_items (tp_queue p') = crb_items (tp_queue p) @ [t] \<and> crb_cap (tp_queue p') = crb_cap (tp_queue p)"
  using assms
  by (auto simp: syncPostTask_def asyncPostTask_def crb_put_cases crb_push_items crb_push_inv
      split: if_splits)

lemma threadEntry_run:
  assumes "crb_inv (tp_queue p)" "crb_items (tp_queue p) = Some t # ts"
  shows "\<exists>p'. threadEntry p = Inr (Some (t, p')) \<and> crb_inv (tp_queue p') \<and>
    crb_items (tp_queue p') = ts \<and> crb_cap (tp_queue p') = crb_cap (tp_queue p)"
proof -
  have "crb_items (crb_pop (tp_queue p)) = ts" using crb_pop_items [OF assms(1)] assms(2) by simp
  then show ?thesis using assms
    by (simp add: threadEntry_def syncGetOneTask_def crb_get_cases crb_pop_inv)
qed

lemma threadEntry_empty:
  "crb_inv (tp_queue p) \<Longrightarrow> crb_items (tp_queue p) = [] \<Longrightarrow> threadEntry p = Inr None"
  by (simp add: threadEntry_def syncGetOneTask_def crb_get_cases)

lemma threadEntry_Some:
  assumes "threadEntry p = Inr (Some (t, p'))" "crb_inv (tp_queue p)" "None \<notin> set (crb_items (tp_queue p))"
  shows "crb_items (tp_queue p) = Some t # crb_items (tp_queue p')" "crb_inv (tp_queue p')"
    "crb_cap (tp_queue p') = crb_cap (tp_queue p)"
proof -
  have "crb_items (tp_queue p) \<noteq> []" using threadEntry_empty [OF assms(2)] assms(1) by auto
  then obtain v us where v: "crb_items (tp_queue p) = v # us" by (cases "crb_items (tp_queue p)") auto
  with assms(3) obtain u where u: "crb_items (tp_queue p) = Some u # us" by (cases v) auto
  with threadEntry_run [OF assms(2) u] assms(1)
  show "crb_items (tp_queue p) = Some t # crb_items (tp_queue p')" "crb_inv (tp_queue p')"
    "crb_cap (tp_queue p') = crb_cap (tp_queue p)" by auto
qed

text \<open>A sum over the threads, when one of them changes.\<close>

lemma sum_workers:
  fixes f :: "'w \<Rightarrow> 'm :: comm_monoid_add"
  assumes "i < length ws"
  shows "(\<Sum>w \<in># mset (ws[i := x]). f w) + f (ws ! i) = (\<Sum>w \<in># mset ws. f w) + f x"
proof -
  have "mset ws = add_mset (ws ! i) (mset ws - {#ws ! i#})" using assms by (simp add: nth_mem_mset)
  then have "(\<Sum>w \<in># mset ws. f w) = f (ws ! i) + (\<Sum>w \<in># mset ws - {#ws ! i#}. f w)"
    by (metis image_mset_add_mset sum_mset.insert)
  then show ?thesis using assms by (simp add: mset_update ac_simps)
qed

lemma posted_queue:
  assumes "map Some ps = map Some ss @ q"
  shows "ps = ss @ map the q" "q \<noteq> [] \<Longrightarrow> \<exists>t ts. q = Some t # map Some ts"
proof -
  have len: "length ps = length ss + length q" using arg_cong [OF assms, of length] by simp
  have q: "q = map Some (drop (length ss) ps)"
    using arg_cong [OF assms, of "drop (length ss)"] by (simp add: drop_map)
  have "map Some (take (length ss) ps) = map Some ss"
    using arg_cong [OF assms, of "take (length ss)"] by (simp add: take_map)
  then have "take (length ss) ps = ss" using inj_map_eq_map [of Some] by simp
  then have "ps = ss @ drop (length ss) ps" by (metis append_take_drop_id)
  moreover have "map the q = drop (length ss) ps" by (simp add: q comp_def)
  ultimately show "ps = ss @ map the q" by simp
  show "\<exists>t ts. q = Some t # map Some ts" if "q \<noteq> []"
    using q that by (cases "drop (length ss) ps") auto
qed

lemma pool_step_inv:
  assumes "pool_step s s'" "pool_inv n s"
  shows "pool_inv n s'"
  using assms(1)
proof cases
  case (post t p)
  with assms(2) post_items(1) [of "ps_pool s" "Some t" p] show ?thesis by (simp add: pool_inv_def)
next
  case (apost t p)
  with assms(2) post_items(2) [of "ps_pool s" "Some t" p] show ?thesis by (simp add: pool_inv_def)
next
  case (fetch i t p)
  let ?q = "crb_items (tp_queue (ps_pool s))"
  have inv: "crb_inv (tp_queue (ps_pool s))" "map Some (ps_posted s) = map Some (ps_started s) @ ?q"
    using assms(2) by (auto simp: pool_inv_def)
  have "?q \<noteq> []" using threadEntry_empty [OF inv(1)] fetch(4) by auto
  then obtain t' ts where q: "?q = Some t' # map Some ts" using posted_queue(2) [OF inv(2)] by blast
  from threadEntry_run [OF inv(1) q] fetch(4)
  have "t' = t" "crb_inv (tp_queue p)" "crb_items (tp_queue p) = map Some ts" by auto
  with assms(2) fetch q show ?thesis by (simp add: pool_inv_def tally_list_update)
next
  case (finish i t)
  moreover have "0 < tally ((\<noteq>) WFetch) (ps_workers s)"
    using finish by (auto simp: tally_pos_iff intro!: exI [of _ i])
  ultimately show ?thesis using assms(2) by (simp add: pool_inv_def tally_list_update)
qed

lemma pool_reach_inv:
  assumes "pool_reach n qsize s" "0 < (of_int qsize :: size_t)"
  shows "pool_inv n s"
  using assms(1)
proof (induction rule: pool_reach.induct)
  case start
  then show ?case using assms(2)
    by (simp add: poolsys_init_def pool_start_def pool_spawn_threads new_ThreadPool_def pool_inv_def
        Let_def)
next
  case (step s s')
  then show ?case using pool_step_inv by blast
qed

section \<open>Properties\<close>

text \<open>
  C17: Every task that is posted is started once, in the order of posting. In every reachable state
  of a pool, the tasks posted are the tasks started, followed by the tasks in the queue; the pool
  has as many threads as were asked for, and the tasks started and not finished are exactly those
  the threads run.
\<close>

theorem pool_fifo:
  assumes "pool_reach threadNum qsize s" "0 < (of_int qsize :: size_t)"
  shows "ps_posted s = ps_started s @ map the (crb_items (tp_queue (ps_pool s))) \<and>
    length (ps_workers s) = nat threadNum \<and>
    length (ps_started s) = ps_finished s + tally ((\<noteq>) WFetch) (ps_workers s)"
proof -
  have inv: "pool_inv threadNum s" using pool_reach_inv assms .
  then have "ps_posted s = ps_started s @ map the (crb_items (tp_queue (ps_pool s)))"
    using posted_queue(1) by (auto simp: pool_inv_def)
  with inv show ?thesis by (simp add: pool_inv_def)
qed

text \<open>Two threads, one task posted and started, one queued.\<close>

lemma pool_example:
  "\<exists>s :: nat poolsys. pool_reach 2 1000 s \<and> ps_posted s = [7, 8] \<and> ps_started s = [7] \<and>
    ps_workers s = [WRun 7, WFetch] \<and> ps_finished s = 0"
proof -
  let ?s0 = "poolsys_init 2 1000 :: nat poolsys"
  have q: "0 < (of_int 1000 :: size_t)" by simp
  have p0: "crb_inv (tp_queue (ps_pool ?s0))" "crb_items (tp_queue (ps_pool ?s0)) = []"
    "crb_cap (tp_queue (ps_pool ?s0)) = 999" "ps_workers ?s0 = [WFetch, WFetch]"
    by (simp_all add: poolsys_init_def pool_start_def pool_spawn_threads new_ThreadPool_def Let_def
        replicate_numeral_Cons)
  have init: "ps_posted ?s0 = []" "ps_started ?s0 = []" "ps_finished ?s0 = 0"
    by (simp_all add: poolsys_init_def Let_def)
  have room: "\<exists>p'. syncPostTask p t = Inr (Some p') \<and> crb_inv (tp_queue p') \<and>
      crb_items (tp_queue p') = crb_items (tp_queue p) @ [t] \<and> crb_cap (tp_queue p') = crb_cap (tp_queue p)"
    if "crb_inv (tp_queue p)" "length (crb_items (tp_queue p)) < crb_cap (tp_queue p)"
    for p :: "nat pool" and t
    using that by (simp add: syncPostTask_def crb_put_cases crb_push_items crb_push_inv crb_length_items)
  obtain p1 where p1: "syncPostTask (ps_pool ?s0) (Some 7) = Inr (Some p1)" "crb_inv (tp_queue p1)"
    "crb_items (tp_queue p1) = [Some 7]" "crb_cap (tp_queue p1) = 999"
    using room [of "ps_pool ?s0" "Some 7"] p0 by auto
  obtain p2 where p2: "syncPostTask p1 (Some 8) = Inr (Some p2)" "crb_inv (tp_queue p2)"
    "crb_items (tp_queue p2) = [Some 7, Some 8]"
    using room [of p1 "Some 8"] p1 by auto
  obtain p3 where p3: "threadEntry p2 = Inr (Some (7, p3))"
    using threadEntry_run [OF p2(2,3)] by blast
  let ?s1 = "?s0\<lparr>ps_pool := p1, ps_posted := [7]\<rparr>"
  let ?s2 = "?s0\<lparr>ps_pool := p2, ps_posted := [7, 8]\<rparr>"
  have "pool_reach 2 1000 ?s1"
    using pool_reach.step [OF pool_reach.start pool_step.post [OF p1(1)]] by (simp add: init)
  from pool_reach.step [OF this pool_step.post [of ?s1 8 p2]] have "pool_reach 2 1000 ?s2"
    using p2(1) by simp
  from pool_reach.step [OF this pool_step.fetch [of 0 ?s2 7 p3]] show ?thesis
    using p0(4) p3 by (auto simp: init intro!: exI)
qed

theorem pool_fifo_witness:
  "\<exists>s :: nat poolsys. pool_reach 2 1000 s \<and> ps_started s = [7] \<and>
     map the (crb_items (tp_queue (ps_pool s))) = [8]"
proof -
  obtain s :: "nat poolsys" where s: "pool_reach 2 1000 s" "ps_posted s = [7, 8]" "ps_started s = [7]"
    using pool_example by blast
  with pool_fifo [OF s(1)] show ?thesis by auto
qed

subsection \<open>Tasks that do not return\<close>

text \<open>
  A server's services are tasks whose \<open>start\<close> does not return. \<open>ends\<close> says of which tasks it
  does. A pool whose tasks behave so takes the steps in which a thread keeps a task that does not
  end; posting is one of them. \<open>pool_work\<close> counts the tasks taken and returned so far.
\<close>

definition pool_runs :: "('t \<Rightarrow> bool) \<Rightarrow> 't poolsys \<Rightarrow> 't poolsys \<Rightarrow> bool" where
  "pool_runs ends s s' \<longleftrightarrow> pool_step s s' \<and>
     (\<forall>i < length (ps_workers s). \<forall>t. ps_workers s ! i = WRun t \<longrightarrow> \<not> ends t \<longrightarrow>
        ps_workers s' ! i = WRun t)"

definition pool_work :: "'t poolsys \<Rightarrow> nat" where
  "pool_work s = length (ps_started s) + ps_finished s"

fun runs_stuck :: "('t \<Rightarrow> bool) \<Rightarrow> 't worker \<Rightarrow> bool" where
  "runs_stuck ends WFetch = False"
| "runs_stuck ends (WRun t) = (\<not> ends t)"

lemma pool_step_stuck:
  assumes "pool_step s s'"
    "tally (runs_stuck ends) (ps_workers s) \<le> tally (\<lambda>t. \<not> ends t) (ps_started s)"
  shows "tally (runs_stuck ends) (ps_workers s') \<le> tally (\<lambda>t. \<not> ends t) (ps_started s')"
  using assms by (induction rule: pool_step.induct) (auto simp: tally_list_update)

lemma pool_reach_stuck:
  "pool_reach n qsize s \<Longrightarrow>
     tally (runs_stuck ends) (ps_workers s) \<le> tally (\<lambda>t. \<not> ends t) (ps_started s)"
proof (induction rule: pool_reach.induct)
  case start
  have "tally (runs_stuck ends) (replicate n WFetch) = 0" for n :: nat
    by (induction n) simp_all
  then show ?case by (simp add: poolsys_init_def Let_def)
next
  case (step s s')
  then show ?case using pool_step_stuck by blast
qed

lemma pool_step_posts: "pool_step s s' \<Longrightarrow> \<exists>ts. ps_posted s' = ps_posted s @ ts"
  by (induction rule: pool_step.induct) auto

lemma pool_runs_reach:
  assumes "(pool_runs ends)\<^sup>*\<^sup>* s s'" "pool_reach n qsize s"
  shows "pool_reach n qsize s' \<and> (\<exists>ts. ps_posted s' = ps_posted s @ ts)"
  using assms(1)
proof (induction rule: rtranclp_induct)
  case (step t u)
  then have "pool_step t u" by (simp add: pool_runs_def)
  then show ?case using step.IH pool_reach.step pool_step_posts by fastforce
qed (use assms(2) in simp)

text \<open>A queued task with few enough endless tasks before it: some thread can work.\<close>

lemma pool_can_work:
  assumes inv: "pool_inv n s"
    and stuck: "tally (runs_stuck ends) (ps_workers s) \<le> tally (\<lambda>t. \<not> ends t) (ps_started s)"
    and few: "tally (\<lambda>t. \<not> ends t) (ps_started s) < nat n"
    and q: "crb_items (tp_queue (ps_pool s)) \<noteq> []"
  shows "\<exists>s'. pool_runs ends s s' \<and> pool_work s' = Suc (pool_work s)"
proof -
  have m: "map Some (ps_posted s) = map Some (ps_started s) @ crb_items (tp_queue (ps_pool s))"
    "crb_inv (tp_queue (ps_pool s))" using inv by (auto simp: pool_inv_def)
  have "tally (runs_stuck ends) (ps_workers s) < length (ps_workers s)"
    using inv stuck few by (simp add: pool_inv_def)
  then obtain i where i: "i < length (ps_workers s)" "\<not> runs_stuck ends (ps_workers s ! i)"
    using tally_less_length by blast
  show ?thesis
  proof (cases "ps_workers s ! i")
    case WFetch
    obtain t ts where "crb_items (tp_queue (ps_pool s)) = Some t # map Some ts"
      using posted_queue(2) [OF m(1) q] by blast
    then obtain p where p: "threadEntry (ps_pool s) = Inr (Some (t, p))"
      using threadEntry_run [OF m(2)] by blast
    show ?thesis
      by (rule exI, rule conjI, unfold pool_runs_def, rule conjI, rule pool_step.fetch [OF i(1) WFetch p])
        (use i(1) WFetch in \<open>auto simp: pool_work_def nth_list_update\<close>)
  next
    case (WRun t)
    show ?thesis
      by (rule exI, rule conjI, unfold pool_runs_def, rule conjI, rule pool_step.finish [OF i(1) WRun])
        (use i WRun in \<open>auto simp: pool_work_def nth_list_update\<close>)
  qed
qed

text \<open>
  C33: A task starves only behind as many endless tasks as there are threads. Take the \<open>k\<close>-th task
  posted, and say that fewer of the tasks posted before it are endless than the pool has threads,
  whatever else is running or queued. In every run from there, with tasks posted at any time, until
  that task has been started a thread can always take a task or return from one; every such step
  is counted by \<open>pool_work\<close>, which is at most \<open>2 * k\<close> as long as the task has not been started.
  So it is started after a bounded number of them, and it is the \<open>k\<close>-th to be started.
\<close>

theorem pool_starts_within_capacity:
  assumes "pool_reach threadNum qsize s" "0 < (of_int qsize :: size_t)"
    and "k < length (ps_posted s)"
    and "length (filter (\<lambda>t. \<not> ends t) (take k (ps_posted s))) < nat threadNum"
    and "(pool_runs ends)\<^sup>*\<^sup>* s s'"
  shows "k < length (ps_started s') \<and> ps_started s' ! k = ps_posted s ! k \<or>
    k \<ge> length (ps_started s') \<and> pool_work s' \<le> 2 * k \<and>
    (\<exists>s''. pool_runs ends s' s'' \<and> pool_work s'' = Suc (pool_work s'))"
proof -
  obtain ts where r: "pool_reach threadNum qsize s'" and ts: "ps_posted s' = ps_posted s @ ts"
    using pool_runs_reach [OF assms(5,1)] by blast
  have inv: "pool_inv threadNum s'" by (rule pool_reach_inv [OF r assms(2)])
  then have m: "map Some (ps_posted s') = map Some (ps_started s') @ crb_items (tp_queue (ps_pool s'))"
    by (simp add: pool_inv_def)
  note posted = posted_queue(1) [OF m]
  show ?thesis
  proof (cases "k < length (ps_started s')")
    case True
    then show ?thesis using posted ts assms(3) by (metis nth_append)
  next
    case False
    have "length (ps_started s') < length (ps_posted s')" using ts assms(3) False by simp
    then have q: "crb_items (tp_queue (ps_pool s')) \<noteq> []" using posted by auto
    have "take k (ps_posted s) = take k (ps_posted s')" using ts assms(3) by simp
    also have "\<dots> = ps_started s' @ take (k - length (ps_started s'))
        (map the (crb_items (tp_queue (ps_pool s'))))"
      unfolding posted using False by simp
    finally have "tally (\<lambda>t. \<not> ends t) (ps_started s') < nat threadNum"
      using assms(4) by (simp flip: tally_def)
    from pool_can_work [OF inv pool_reach_stuck [OF r] this q] show ?thesis
      using False inv by (auto simp: pool_inv_def pool_work_def)
  qed
qed

theorem pool_starts_within_capacity_witness:
  "\<exists>s s' :: nat poolsys. pool_reach 2 1000 s \<and> ps_workers s = [WRun 7, WFetch] \<and>
     ps_started s = [7] \<and> ps_posted s = [7, 8] \<and> pool_runs (\<lambda>t. t \<noteq> 7) s s' \<and>
     pool_work s' = Suc (pool_work s)"
proof -
  obtain s :: "nat poolsys" where s: "pool_reach 2 1000 s" "ps_posted s = [7, 8]" "ps_started s = [7]"
    "ps_workers s = [WRun 7, WFetch]"
    using pool_example by blast
  with pool_starts_within_capacity [OF s(1), of 1 "\<lambda>t. t \<noteq> 7" s] show ?thesis by auto
qed

end
