(* ===== verification/MapReduceServer.thy ===== *)
theory MapReduceServer
  imports FramedConnection NumberFiles InteractiveTask ThreadPool "HOL-Library.Multiset"
begin

text \<open>
  \<open>examples/MapReduceServer\<close>: a client names files in a message, the connection posts one task per
  file to the thread pool, each task reads its file and sends the largest number it found back to
  the connection as a message, and when the last message has come the connection sends the largest
  of all to the client. Also the serial computation of \<open>BenchmarkTest.cpp\<close>, which the parallel one
  is compared with.
\<close>

section \<open>MapTask\<close>

text \<open>The class \<open>MapTask\<close>; \<open>'b\<close> are the callbacks, and \<open>exec\<close> says what calling one does.\<close>

record 'b map_task =
  mt_name :: string
  mt_runCallback :: "'b option"

definition new_MapTask :: "'b option \<Rightarrow> 'b map_task" where
  "new_MapTask runCallback = \<lparr>mt_name = ''map'', mt_runCallback = runCallback\<rparr>"

definition MapTask_run :: "('b \<Rightarrow> 's \<Rightarrow> 's outcome) \<Rightarrow> 'b map_task \<times> 's \<Rightarrow> ('b map_task \<times> 's) outcome" where
  "MapTask_run exec ts = (case ts of (t, s) \<Rightarrow> (case mt_runCallback t of
       None \<Rightarrow> Inl BadFunctionCall
     | Some cb \<Rightarrow> and_then (exec cb s) (\<lambda>s. Inr (t\<lparr>mt_runCallback := None\<rparr>, s))))"

text \<open>The function template \<open>map\<close>.\<close>

fun map_loop :: "('e \<Rightarrow> 'r) \<Rightarrow> 'r list \<Rightarrow> 'e list \<Rightarrow> 'r list" where
  "map_loop f vecRet [] = vecRet"
| "map_loop f vecRet (it # vec) = map_loop f (vecRet @ [f it]) vec"

definition map_template :: "('e \<Rightarrow> 'r) \<Rightarrow> 'e list \<Rightarrow> 'r list" where
  "map_template f vec = map_loop f [] vec"

lemma map_template_eq: "map_template f vec = map f vec"
proof -
  have "map_loop f acc vec = acc @ map f vec" for acc by (induction vec arbitrary: acc) simp_all
  then show ?thesis by (simp add: map_template_def)
qed

section \<open>The map function\<close>

text \<open>The files that can be opened, with their contents.\<close>

type_synonym files = "string \<Rightarrow> string option"

text \<open>The part of \<open>mapFunction\<close> that reads the file and builds the message.\<close>

definition map_result :: "files \<Rightarrow> int \<Rightarrow> string \<Rightarrow> 'd message outcome" where
  "map_result files handle filePath = (case files filePath of
       None \<Rightarrow> Inl AssertionFailed
     | Some content \<Rightarrow> (case extract_int (new_ifstream (Some content)) None of
           (_, None, _) \<Rightarrow> Inl Uninitialised
         | (_, Some maxNum, file) \<Rightarrow>
             Inr (new_MapDoneConnectionMessage handle (max_loop file None maxNum))))"

text \<open>
  \<open>mapFunction\<close>: \<open>wp\<close> is the handle of the connection while it is alive, \<open>svc\<close> the service it
  belongs to. The result is \<open>None\<close> while \<open>notifyMsg\<close> waits.
\<close>

definition mapFunction :: "files \<Rightarrow> int option \<Rightarrow> string \<Rightarrow> 'd message itask option \<Rightarrow>
    'd message itask option option outcome" where
  "mapFunction files wpConnection filePath svc = (case wpConnection of
       None \<Rightarrow> Inr (Some svc)
     | Some handle \<Rightarrow>
         and_then (map_result files handle filePath) (\<lambda>msg.
           case svc of
             None \<Rightarrow> Inl NullDereference
           | Some t \<Rightarrow> and_then (notifyMsg t msg) (\<lambda>res. Inr (map_option (\<lambda>(_, t). Some t) res))))"

definition mr_reduce :: "int \<Rightarrow> int \<Rightarrow> int" where
  "mr_reduce last1 cur = (if cur > last1 then cur else last1)"

section \<open>The connection\<close>

record 'cb mr_connection = "('cb, unit) connection" +
  mr_firstCome :: bool
  mr_taskCount :: int
  mr_curMaxNum :: int
  mr_stat :: recv_state
  mr_recvCall :: "unit option"
  mr_sendCall :: "unit option"

text \<open>
  The world of its callbacks: the service, the tasks handed to \<open>syncPostTask\<close> of the pool so far (a
  task is bound to the handle of the connection and a path), and how many tasks still hold the
  \<open>shared_ptr\<close> to the connection they are bound to.
\<close>

record ('c, 'k, 'd) mr_world =
  mw_service :: "('c, 'k, 'd) service option"
  mw_posted :: "(int \<times> string) map_task list"
  mw_refs :: nat

definition new_MapReduceConnection :: "('cb, unit) stream \<Rightarrow> 'cb mr_connection outcome" where
  "new_MapReduceConnection spStream =
     and_then (new_Connection spStream) (\<lambda>c.
       Inr \<lparr>cn_stream = cn_stream c, cn_handle = cn_handle c, mr_firstCome = True, mr_taskCount = 0,
         mr_curMaxNum = 0, mr_stat = RECV_HEAD, mr_recvCall = None, mr_sendCall = None\<rparr>)"

text \<open>
  \<open>_destroy\<close>: the service forgets the connection. It is deleted, and its stream with it, unless a
  task still holds it.
\<close>

definition mr_destroy :: "('r \<Rightarrow> int \<Rightarrow> event_flags \<Rightarrow> (bool \<times> 'r) outcome) \<Rightarrow>
    'cb mr_connection \<Rightarrow> 'r \<Rightarrow> ('cb mr_connection, 'k, 'd) mr_world \<Rightarrow>
    ('cb mr_connection, 'r, ('cb mr_connection, 'k, 'd) mr_world) conn_result" where
  "mr_destroy rem c r w =
     and_then (Connection_destroy c (mw_service w)) (\<lambda>sv.
       let w = w\<lparr>mw_service := Some sv\<rparr> in
       if 0 < mw_refs w then Inr (Some c, r, w)
       else and_then (delete_Stream rem (cn_stream c) r) (\<lambda>(_, _, r). Inr (None, r, w)))"

text \<open>
  \<open>runCallback_ = nullptr\<close> at the end of a task drops the reference its callback held; the last
  reference deletes a connection the service has forgotten, on the thread of the task.
\<close>

definition mr_release :: "('r \<Rightarrow> int \<Rightarrow> event_flags \<Rightarrow> (bool \<times> 'r) outcome) \<Rightarrow>
    'cb mr_connection \<Rightarrow> 'r \<Rightarrow> ('cb mr_connection, 'k, 'd) mr_world \<Rightarrow>
    ('cb mr_connection, 'r, ('cb mr_connection, 'k, 'd) mr_world) conn_result" where
  "mr_release rem c r w =
     (let w = w\<lparr>mw_refs := mw_refs w - 1\<rparr>;
          held = (case mw_service w of None \<Rightarrow> False | Some sv \<Rightarrow> sv_connections sv (cn_handle c) \<noteq> None) in
      if 0 < mw_refs w \<or> held then Inr (Some c, r, w)
      else and_then (delete_Stream rem (cn_stream c) r) (\<lambda>(_, _, r). Inr (None, r, w)))"

definition mr_startReadOrWriteInService :: "('r \<Rightarrow> int \<Rightarrow> event_flags \<Rightarrow> 'cb \<Rightarrow> (bool \<times> 'r) outcome) \<Rightarrow>
    ('r \<Rightarrow> int \<Rightarrow> event_flags \<Rightarrow> (bool \<times> 'r) outcome) \<Rightarrow>
    'cb mr_connection \<Rightarrow> 'r \<Rightarrow> ('cb mr_connection, 'k, 'd) mr_world \<Rightarrow>
    ('cb mr_connection, 'r, ('cb mr_connection, 'k, 'd) mr_world) conn_result" where
  "mr_startReadOrWriteInService add rem c r w =
     (let c = c\<lparr>mr_recvCall := Some (), mr_sendCall := Some (), mr_stat := RECV_HEAD\<rparr> in
      and_then (asyncRecvBytes add (cn_stream c) r 4 (mr_recvCall c)) (\<lambda>(ok, s, r).
        let c = c\<lparr>cn_stream := s\<rparr> in
        if \<not> ok then mr_destroy rem c r w else Inr (Some c, r, w)))"

text \<open>\<open>onMessage\<close>: a task is done.\<close>

definition mr_onMessage :: "('r \<Rightarrow> int \<Rightarrow> event_flags \<Rightarrow> 'cb \<Rightarrow> (bool \<times> 'r) outcome) \<Rightarrow>
    'cb mr_connection \<Rightarrow> 'r \<Rightarrow> 'd message \<Rightarrow> ('cb mr_connection \<times> 'r) outcome" where
  "mr_onMessage add c r m =
     (let c = c\<lparr>mr_taskCount := mr_taskCount c - 1\<rparr> in
      and_then (getMaxNum (msg_class m)) (\<lambda>maxNum.
        let c = (if mr_firstCome c then c\<lparr>mr_curMaxNum := maxNum, mr_firstCome := False\<rparr>
                 else c\<lparr>mr_curMaxNum := mr_reduce (mr_curMaxNum c) maxNum\<rparr>) in
        if mr_taskCount c = 0
        then and_then (asyncSendBytes add (cn_stream c) r (int_bytes (mr_curMaxNum c)) (mr_sendCall c))
               (\<lambda>(_, s, r). Inr (c\<lparr>cn_stream := s\<rparr>, r))
        else Inr (c, r)))"

text \<open>\<open>for (auto &path : vecStr)\<close>: a task per path; \<open>syncPostTask\<close> returns when the pool's queue has
  taken the task.\<close>

fun mr_post :: "string list \<Rightarrow> 'cb mr_connection \<Rightarrow> ('c, 'k, 'd) mr_world \<Rightarrow>
    'cb mr_connection \<times> ('c, 'k, 'd) mr_world" where
  "mr_post [] c w = (c, w)"
| "mr_post (path # paths) c w =
     mr_post paths (c\<lparr>mr_taskCount := mr_taskCount c + 1\<rparr>)
       (w\<lparr>mw_posted := mw_posted w @ [new_MapTask (Some (cn_handle c, path))], mw_refs := Suc (mw_refs w)\<rparr>)"

definition mr_recvCompleteCallback :: "('r \<Rightarrow> int \<Rightarrow> event_flags \<Rightarrow> 'cb \<Rightarrow> (bool \<times> 'r) outcome) \<Rightarrow>
    ('r \<Rightarrow> int \<Rightarrow> event_flags \<Rightarrow> (bool \<times> 'r) outcome) \<Rightarrow>
    ('cb mr_connection, 'r, ('cb mr_connection, 'k, 'd) mr_world) recv_done" where
  "mr_recvCompleteCallback add rem c r w retRecvStat vecBytes =
     (if retRecvStat = RECVERR then mr_destroy rem c r w
      else case mr_stat c of
        RECV_HEAD \<Rightarrow>
          and_then (recv_head add (cn_stream c) r (mr_recvCall c) vecBytes) (\<lambda>(st, s, r).
            Inr (Some (c\<lparr>cn_stream := s, mr_stat := st\<rparr>), r, w))
      | RECV_BODY \<Rightarrow>
          let (_, vecStr) = split vecBytes [] (CHR '' '');
              (c, w) = mr_post vecStr c w;
              c = c\<lparr>mr_stat := RECV_HEAD\<rparr> in
          and_then (asyncRecvBytes add (cn_stream c) r 4 (mr_recvCall c)) (\<lambda>(_, s, r).
            Inr (Some (c\<lparr>cn_stream := s\<rparr>), r, w)))"

definition mr_sendCompleteCallback :: "('r \<Rightarrow> int \<Rightarrow> event_flags \<Rightarrow> (bool \<times> 'r) outcome) \<Rightarrow>
    ('cb mr_connection, 'r, ('cb mr_connection, 'k, 'd) mr_world) send_done" where
  "mr_sendCompleteCallback rem c r w retSendStat =
     (if retSendStat = SENDERR then mr_destroy rem c r w else Inr (Some c, r, w))"

text \<open>\<open>onConnection\<close> of the server.\<close>

definition mr_onConnection :: "('r \<Rightarrow> int \<Rightarrow> event_flags \<Rightarrow> 'cb \<Rightarrow> (bool \<times> 'r) outcome) \<Rightarrow>
    ('r \<Rightarrow> int \<Rightarrow> event_flags \<Rightarrow> (bool \<times> 'r) outcome) \<Rightarrow> ('cb, unit) stream \<Rightarrow> 'r \<Rightarrow>
    ('cb mr_connection, 'k, 'd) mr_world \<Rightarrow>
    ('cb mr_connection, 'r, ('cb mr_connection, 'k, 'd) mr_world) conn_result" where
  "mr_onConnection add rem spStream r w =
     and_then (new_MapReduceConnection spStream) (\<lambda>c.
       case mw_service w of
         None \<Rightarrow> Inl NullDereference
       | Some sv \<Rightarrow>
           let (taken, sv) = addNewConnection sv c in
           and_then (mr_startReadOrWriteInService add rem c r (w\<lparr>mw_service := Some sv\<rparr>)) (\<lambda>(c, r, w).
             case c of
               None \<Rightarrow> Inr (None, r, w)
             | Some c \<Rightarrow>
                 if taken then Inr (Some c, r, w)
                 else and_then (delete_Stream rem (cn_stream c) r) (\<lambda>(_, _, r). Inr (None, r, w))))"

text \<open>
  A connection that is destroyed while tasks are under way outlives the call: it is gone from the
  service, its stream stays open, and only the end of the last task closes it.
\<close>

lemma mr_destroy_deferred:
  assumes "mw_service w = Some sv" "0 < mw_refs w"
  shows "mr_destroy rem c r w = Inr (Some c, r, w\<lparr>mw_service := Some (removeConnection sv (cn_handle c))\<rparr>)"
  using assms by (simp add: mr_destroy_def Connection_destroy_def)

lemma mr_release_forgotten:
  assumes "mw_service w = Some sv" "sv_connections sv (cn_handle c) = None"
  shows "mr_release rem c r w =
    (if 1 < mw_refs w then Inr (Some c, r, w\<lparr>mw_refs := mw_refs w - 1\<rparr>)
     else and_then (delete_Stream rem (cn_stream c) r) (\<lambda>(_, _, r). Inr (None, r, w\<lparr>mw_refs := 0\<rparr>)))"
  using assms by (auto simp: mr_release_def Let_def)

section \<open>The benchmark client\<close>

text \<open>The serial computation: \<open>maxNum\<close> and \<open>bFirst\<close> over the files. A file that cannot be opened
  yields nothing.\<close>

definition serial_file :: "files \<Rightarrow> int \<times> bool \<Rightarrow> string \<Rightarrow> int \<times> bool" where
  "serial_file files st path = (case st of (maxNum, bFirst) \<Rightarrow>
     (let file = new_ifstream (files path);
          (maxNum, file) = (if bFirst
             then (case extract_int file (Some maxNum) of (_, v, file) \<Rightarrow> (the v, file))
             else (maxNum, file))
      in (max_loop file None maxNum, False)))"

definition serial_max :: "files \<Rightarrow> string list \<Rightarrow> int" where
  "serial_max files vecPath = fst (foldl (serial_file files) (0, True) vecPath)"

text \<open>The loop that builds the request.\<close>

function bench_loop :: "nat \<Rightarrow> string list \<Rightarrow> string \<Rightarrow> string" where
  "bench_loop i vecPath ss =
     (if i < length vecPath
      then if i = length vecPath - 1 then ss @ vecPath ! i
           else bench_loop (Suc i) vecPath (ss @ vecPath ! i @ '' '')
      else ss)"
  by pat_completeness auto
termination by (relation "measure (\<lambda>(i, vec, ss). length vec - i)") auto

declare bench_loop.simps [simp del]

text \<open>The paths and the request of the benchmark.\<close>

definition bench_paths :: "string list" where
  "bench_paths = map (\<lambda>i. ''test_data_part_'' @ decimal i) [0..<20]"

definition bench_request :: "string list \<Rightarrow> string" where
  "bench_request vecPath = bench_loop 0 vecPath []"

section \<open>Both computations find the largest number\<close>

definition file_nums :: "files \<Rightarrow> string \<Rightarrow> int set" where
  "file_nums files path = set (ints (new_ifstream (files path)))"

lemma finite_file_nums [simp]: "finite (file_nums files path)"
  by (simp add: file_nums_def)

lemma ints_new_ifstream_None [simp]: "ints (new_ifstream None) = []"
  by (simp add: extract_int_no_ints [where v = None] new_ifstream_def extract_int_def)

text \<open>The first number of a file that has one.\<close>

lemma file_first_number:
  assumes "file_nums files path \<noteq> {}"
  obtains content n f where "files path = Some content"
    "extract_int (new_ifstream (Some content)) v = (True, Some n, f)"
    "Max (insert n (set (ints f))) = Max (file_nums files path)"
proof -
  obtain n ns where n: "ints (new_ifstream (files path)) = n # ns"
    using assms by (auto simp: file_nums_def neq_Nil_conv)
  then obtain content where "files path = Some content" by (cases "files path") auto
  moreover obtain f where "extract_int (new_ifstream (files path)) v = (True, Some n, f)" "ints f = ns"
    using n extract_int_ints by blast
  ultimately show ?thesis using that n by (auto simp: file_nums_def)
qed

lemma Max_insert_Max: "finite A \<Longrightarrow> A \<noteq> {} \<Longrightarrow> finite B \<Longrightarrow> Max (insert (Max A) B) = Max (A \<union> B)" for A :: "int set"
  by (cases "B = {}") (simp_all add: Max_Un)

lemma Max_of_Max:
  fixes A :: "'a \<Rightarrow> int set"
  assumes "finite I" "\<forall>i \<in> I. finite (A i) \<and> A i \<noteq> {}" "I \<noteq> {}" "finite B"
  shows "Max ((\<lambda>i. Max (A i)) ` I \<union> B) = Max ((\<Union>i \<in> I. A i) \<union> B)"
  using assms(1,3,2,4)
proof (induction I arbitrary: B rule: finite_ne_induct)
  case (singleton i)
  then show ?case using Max_insert_Max [of "A i" B] by simp
next
  case (insert i I)
  have "Max ((\<lambda>i. Max (A i)) ` insert i I \<union> B) = Max ((\<lambda>i. Max (A i)) ` I \<union> insert (Max (A i)) B)"
    by simp
  also have "\<dots> = Max ((\<Union>i \<in> I. A i) \<union> insert (Max (A i)) B)" using insert by simp
  also have "\<dots> = Max (insert (Max (A i)) ((\<Union>i \<in> I. A i) \<union> B))" by simp
  also have "\<dots> = Max (A i \<union> ((\<Union>i \<in> I. A i) \<union> B))"
    using insert by (intro Max_insert_Max) auto
  finally show ?case by (simp add: Un_assoc)
qed

lemma map_result_Max:
  assumes "file_nums files path \<noteq> {}"
  shows "map_result files h path = Inr (new_MapDoneConnectionMessage h (Max (file_nums files path)))"
proof -
  obtain content n f where "files path = Some content"
    "extract_int (new_ifstream (Some content)) None = (True, Some n, f)"
    "Max (insert n (set (ints f))) = Max (file_nums files path)"
    using file_first_number [OF assms] .
  then show ?thesis by (simp add: map_result_def max_loop_Max)
qed

lemma serial_rest:
  "foldl (serial_file files) (m, False) paths = (Max (insert m (\<Union>path \<in> set paths. file_nums files path)), False)"
proof (induction paths arbitrary: m)
  case (Cons path paths)
  have "serial_file files (m, False) path = (Max (insert m (file_nums files path)), False)"
    by (simp add: serial_file_def max_loop_Max file_nums_def)
  then show ?case using Cons.IH Max_insert_Max [of "insert m (file_nums files path)"]
    by (simp add: insert_commute Un_assoc)
qed simp

lemma serial_max_Max:
  assumes "paths \<noteq> []" "\<forall>path \<in> set paths. file_nums files path \<noteq> {}"
  shows "serial_max files paths = Max (\<Union>path \<in> set paths. file_nums files path)"
proof -
  obtain path rest where p: "paths = path # rest" using assms(1) by (cases paths) auto
  then have "file_nums files path \<noteq> {}" using assms(2) by simp
  then obtain content n f where "files path = Some content"
    "extract_int (new_ifstream (Some content)) (Some 0) = (True, Some n, f)"
    "Max (insert n (set (ints f))) = Max (file_nums files path)"
    by (rule file_first_number)
  then have "serial_file files (0, True) path = (Max (file_nums files path), False)"
    by (simp add: serial_file_def max_loop_Max)
  then show ?thesis using p assms(2) Max_insert_Max [of "file_nums files path"]
    by (simp add: serial_max_def serial_rest)
qed

lemma bench_loop_join: "bench_loop i vec ss = ss @ join (CHR '' '') (drop i vec)"
proof (induction i vec ss rule: bench_loop.induct)
  case (1 i vec ss)
  show ?case
  proof (cases "i < length vec")
    case True
    then have d: "drop i vec = vec ! i # drop (Suc i) vec" by (rule Cons_nth_drop_Suc [symmetric])
    show ?thesis
    proof (cases "i = length vec - 1")
      case False
      with True obtain v vs where "drop (Suc i) vec = v # vs" by (cases "drop (Suc i) vec") auto
      with 1 True False d show ?thesis by (simp add: bench_loop.simps [of i])
    qed (use True d in \<open>simp add: bench_loop.simps [of "length vec - Suc 0"]\<close>)
  qed (simp add: bench_loop.simps [of i])
qed

lemma bench_request_join: "bench_request vec = join (CHR '' '') vec"
  by (simp add: bench_request_def bench_loop_join)

section \<open>The connection at work\<close>

text \<open>The messages of the service for the connection, one after the other.\<close>

fun mr_deliver :: "('r \<Rightarrow> int \<Rightarrow> event_flags \<Rightarrow> 'cb \<Rightarrow> (bool \<times> 'r) outcome) \<Rightarrow>
    'cb mr_connection \<Rightarrow> 'r \<Rightarrow> 'd message list \<Rightarrow> ('cb mr_connection \<times> 'r) outcome" where
  "mr_deliver add c r [] = Inr (c, r)"
| "mr_deliver add c r (m # ms) = and_then (mr_onMessage add c r m) (\<lambda>(c, r). mr_deliver add c r ms)"

text \<open>What a connection has kept from the messages before.\<close>

definition mr_seen :: "'cb mr_connection \<Rightarrow> int set" where
  "mr_seen c = (if mr_firstCome c then {} else {mr_curMaxNum c})"

lemma mr_onMessage_done:
  "mr_onMessage add c r (new_MapDoneConnectionMessage h n) =
     (let c = c\<lparr>mr_firstCome := False, mr_taskCount := mr_taskCount c - 1,
            mr_curMaxNum := Max (insert n (mr_seen c))\<rparr> in
      if mr_taskCount c = 0
      then and_then (asyncSendBytes add (cn_stream c) r (int_bytes (mr_curMaxNum c)) (mr_sendCall c))
             (\<lambda>(_, s, r). Inr (c\<lparr>cn_stream := s\<rparr>, r))
      else Inr (c, r))"
  by (cases c) (auto simp: mr_onMessage_def new_MapDoneConnectionMessage_def mr_seen_def mr_reduce_def
      max_def Let_def)

lemma mr_deliver_done:
  assumes "ns \<noteq> []" "mr_taskCount c = int (length ns)"
  shows "mr_deliver add c r (map (new_MapDoneConnectionMessage h) ns :: 'd message list) =
    and_then (asyncSendBytes add (cn_stream c) r (int_bytes (Max (set ns \<union> mr_seen c))) (mr_sendCall c))
      (\<lambda>(_, s, r). Inr (c\<lparr>cn_stream := s, mr_firstCome := False, mr_taskCount := 0,
         mr_curMaxNum := Max (set ns \<union> mr_seen c)\<rparr>, r))"
  using assms
proof (induction ns arbitrary: c)
  case (Cons n ns)
  have fin: "finite (mr_seen c)" by (simp add: mr_seen_def)
  show ?case
  proof (cases "ns = []")
    case True
    with Cons.prems(2) show ?thesis
      by (cases "asyncSendBytes add (cn_stream c) r (int_bytes (Max (insert n (mr_seen c)))) (mr_sendCall c)")
        (auto simp: mr_onMessage_done)
  next
    case False
    let ?c = "c\<lparr>mr_firstCome := False, mr_taskCount := mr_taskCount c - 1,
      mr_curMaxNum := Max (insert n (mr_seen c))\<rparr>"
    have "mr_onMessage add c r (new_MapDoneConnectionMessage h n :: 'd message) = Inr (?c, r)"
      using Cons.prems(2) False by (simp add: mr_onMessage_done)
    moreover have "Max (set ns \<union> mr_seen ?c) = Max (set (n # ns) \<union> mr_seen c)"
      using Max_insert_Max [of "insert n (mr_seen c)" "set ns"] fin
      by (simp add: mr_seen_def [of ?c] Un_commute)
    ultimately show ?thesis using Cons.IH [OF False, of ?c] Cons.prems(2) by simp
  qed
qed simp

lemma mr_post_eq:
  "mr_post paths c w = (c\<lparr>mr_taskCount := mr_taskCount c + int (length paths)\<rparr>,
     w\<lparr>mw_posted := mw_posted w @ map (\<lambda>path. new_MapTask (Some (cn_handle c, path))) paths,
       mw_refs := mw_refs w + length paths\<rparr>)"
  by (induction paths arbitrary: c w) simp_all


abbreviation mr_recv where
  "mr_recv lib \<equiv> mr_recvCompleteCallback (lev_add lib) (removeEventHandler lib)"

abbreviation mr_send where
  "mr_send lib \<equiv> mr_sendCompleteCallback (removeEventHandler lib)"

interpretation mapred: framed_reader "\<lambda>r fd ev cb. addEventHandler lib r fd ev (Some cb)"
  "removeEventHandler lib" dispatch reactor_handler reactor_nfds reactor_inv
  "mr_recvCompleteCallback (lev_add lib) (removeEventHandler lib)" mr_stat "\<lambda>st c. c\<lparr>mr_stat := st\<rparr>"
  mr_recvCall for lib
  by unfold_locales (simp_all add: mr_recvCompleteCallback_def)

abbreviation mr_run where
  "mr_run lib \<equiv> conn_run (lev_add lib) dispatch (mr_recv lib) (mr_send lib)"

text \<open>The connection waits for a request, no task is under way and nothing is being sent.\<close>

definition mr_ready :: "libevent \<Rightarrow> 'cb reactor \<Rightarrow> 'cb mr_connection \<Rightarrow> bool" where
  "mr_ready lib r c \<longleftrightarrow> lev.awaits r (cn_stream c) 4 () \<and> mr_stat c = RECV_HEAD \<and>
     mr_recvCall c = Some () \<and> mr_sendCall c = Some () \<and> mr_taskCount c = 0"

text \<open>The paths a client may name in one message.\<close>

definition request_ok :: "string list \<Rightarrow> bool" where
  "request_ok paths \<longleftrightarrow> paths \<noteq> [] \<and> (\<forall>path \<in> set paths. CHR '' '' \<notin> set path) \<and> last paths \<noteq> [] \<and>
     length (bench_request paths) \<le> 1024"

text \<open>The head of a request makes the connection wait for the request.\<close>

definition mr_awaits_body :: "libevent \<Rightarrow> 'cb reactor \<Rightarrow> 'cb mr_connection \<Rightarrow> int \<Rightarrow> bool" where
  "mr_awaits_body lib r c n \<longleftrightarrow> lev.awaits r (cn_stream c) n () \<and> mr_stat c = RECV_BODY \<and>
     mr_recvCall c = Some () \<and> mr_sendCall c = Some () \<and> mr_taskCount c = 0"

lemma mr_head:
  assumes "lib_adds lib" "mr_ready lib r c" "brings hs (int_bytes n)" "0 < n" "n \<le> 1024"
  obtains c' r' where "\<And>es. mr_run lib (Some c) r w (map Readable hs @ es) = mr_run lib (Some c') r' w es"
    "mr_awaits_body lib r' c' n" "mr_seen c' = mr_seen c" "cn_handle c' = cn_handle c"
    "st_fd (cn_stream c') = st_fd (cn_stream c)"
proof -
  have c: "lev.awaits r (cn_stream c) 4 ()" "mr_stat c = RECV_HEAD" "mr_recvCall c = Some ()"
    "mr_sendCall c = Some ()" "mr_taskCount c = 0" using assms(2) by (auto simp: mr_ready_def)
  obtain s' r' where s': "\<And>es. mr_run lib (Some c) r w (map Readable hs @ es) =
      mr_run lib (Some (c\<lparr>cn_stream := s', mr_stat := RECV_BODY\<rparr>)) r' w es"
    "lev.awaits r' s' n ()" "recv_side (cn_stream c) s'"
    by (rule mapred.head_arrives [OF lib_adds_ok [OF assms(1)] c(1-3) assms(3-5), of "mr_send lib" w])
      (rule that)
  then show ?thesis using c
    by (intro that [of "c\<lparr>cn_stream := s', mr_stat := RECV_BODY\<rparr>" r'])
      (simp_all add: mr_awaits_body_def mr_seen_def recv_side_iff)
qed

text \<open>A request posts its tasks and the connection waits for the next request.\<close>

lemma mr_body:
  assumes "lib_adds lib" "mr_awaits_body lib r c (int (length (bench_request paths)))" "request_ok paths"
    and "brings rs (bench_request paths)"
  obtains c' r' where "mr_run lib (Some c) r w (map Readable rs) = Inr (Some c', r',
      w\<lparr>mw_posted := mw_posted w @ map (\<lambda>path. new_MapTask (Some (cn_handle c, path))) paths,
        mw_refs := mw_refs w + length paths\<rparr>, [])"
    "lev.awaits r' (cn_stream c') 4 ()" "mr_stat c' = RECV_HEAD" "mr_recvCall c' = Some ()"
    "mr_sendCall c' = Some ()" "mr_taskCount c' = int (length paths)" "mr_seen c' = mr_seen c"
    "cn_handle c' = cn_handle c"
proof -
  note ok = lib_adds_ok [OF assms(1)]
  let ?req = "bench_request paths"
  have c: "lev.awaits r (cn_stream c) (int (length ?req)) ()" "mr_stat c = RECV_BODY" "mr_recvCall c = Some ()"
    "mr_sendCall c = Some ()" "mr_taskCount c = 0" using assms(2) by (auto simp: mr_awaits_body_def)
  obtain s1 r1 where run: "\<And>es. mr_run lib (Some c) r w (map Readable rs @ es) =
      and_then (mr_recv lib (c\<lparr>cn_stream := s1\<rparr>) r1 w RECVED ?req) (\<lambda>(c, r, w). mr_run lib c r w es)"
    and s1: "recv_side (cn_stream c) s1" "reactor_inv r1" "reactor_nfds r1 = reactor_nfds r"
    by (rule lev.conn_run_awaited [OF ok c(1) assms(4), of "mr_recv lib" "mr_send lib" w]) (rule that)
  have fd: "0 \<le> st_fd s1" "st_fd s1 < reactor_nfds r1"
    using s1 c(1) by (simp_all add: recv_side_iff lev.awaits_def lev.reads_def)
  obtain s2 r2 where ask: "asyncRecvBytes (lev_add lib) s1 r1 4 (Some ()) = Inr (True, s2, r2)"
    "lev.awaits r2 s2 4 ()"
    by (rule lev.ask_recv [OF ok s1(2) fd four_in_range, of "()"]) (rule that)
  have split: "split ?req [] (CHR '' '') = (True, paths)"
    using split_loop_join [of paths "CHR '' ''" "[]"] assms(3)
    by (simp add: split_def bench_request_join request_ok_def)
  let ?c = "c\<lparr>cn_stream := s2, mr_stat := RECV_HEAD, mr_taskCount := int (length paths)\<rparr>"
  have "mr_recv lib (c\<lparr>cn_stream := s1\<rparr>) r1 w RECVED ?req = Inr (Some ?c, r2,
      w\<lparr>mw_posted := mw_posted w @ map (\<lambda>path. new_MapTask (Some (cn_handle c, path))) paths,
        mw_refs := mw_refs w + length paths\<rparr>)"
    using split ask(1) c(2,3,5) by (cases c) (simp add: mr_recvCompleteCallback_def mr_post_eq)
  with run [of "[]"] ask(2) c show ?thesis by (intro that [of ?c r2]) (simp_all add: mr_seen_def)
qed

lemma mr_request:
  assumes "lib_adds lib" "mr_ready lib r c" "request_ok paths"
    and "brings hs (int_bytes (int (length (bench_request paths))))" "brings rs (bench_request paths)"
  obtains c' r' where "mr_run lib (Some c) r w (map Readable (hs @ rs)) = Inr (Some c', r',
      w\<lparr>mw_posted := mw_posted w @ map (\<lambda>path. new_MapTask (Some (cn_handle c, path))) paths,
        mw_refs := mw_refs w + length paths\<rparr>, [])"
    "lev.awaits r' (cn_stream c') 4 ()" "mr_stat c' = RECV_HEAD" "mr_recvCall c' = Some ()"
    "mr_sendCall c' = Some ()" "mr_taskCount c' = int (length paths)" "mr_seen c' = mr_seen c"
    "cn_handle c' = cn_handle c"
proof -
  let ?req = "bench_request paths"
  have len: "0 < int (length ?req)" "int (length ?req) \<le> 1024"
    using brings_nonempty [OF assms(5)] assms(3) by (simp_all add: request_ok_def)
  obtain c1 r1 where run: "\<And>es. mr_run lib (Some c) r w (map Readable hs @ es) = mr_run lib (Some c1) r1 w es"
    and c1: "mr_awaits_body lib r1 c1 (int (length ?req))" "mr_seen c1 = mr_seen c" "cn_handle c1 = cn_handle c"
    by (rule mr_head [OF assms(1,2,4) len, of w]) (rule that)
  obtain c2 r2 where "mr_run lib (Some c1) r1 w (map Readable rs) = Inr (Some c2, r2,
      w\<lparr>mw_posted := mw_posted w @ map (\<lambda>path. new_MapTask (Some (cn_handle c1, path))) paths,
        mw_refs := mw_refs w + length paths\<rparr>, [])"
    "lev.awaits r2 (cn_stream c2) 4 ()" "mr_stat c2 = RECV_HEAD" "mr_recvCall c2 = Some ()"
    "mr_sendCall c2 = Some ()" "mr_taskCount c2 = int (length paths)" "mr_seen c2 = mr_seen c1"
    "cn_handle c2 = cn_handle c1"
    by (rule mr_body [OF assms(1) c1(1) assms(3,5), of w]) (rule that)
  then show ?thesis by (intro that [of c2 r2]) (simp_all add: run c1(2,3))
qed

text \<open>The messages of all tasks lead to one answer, the largest of their numbers and of what the
  connection kept from before.\<close>

lemma mr_reply:
  fixes c :: "'cb mr_connection"
  assumes "lib_adds lib" "lev.awaits r (cn_stream c) 4 ()" "mr_stat c = RECV_HEAD"
    and "mr_recvCall c = Some ()" "mr_sendCall c = Some ()"
    and "ns \<noteq> []" "mr_taskCount c = int (length ns)" "M = Max (set ns \<union> mr_seen c)"
  obtains c2 r2 where
    "mr_deliver (lev_add lib) c r (map (new_MapDoneConnectionMessage h) ns :: 'd message list) = Inr (c2, r2)"
    "\<And>ss (w :: ('cb mr_connection, 'k, 'e) mr_world). takes ss 4 \<Longrightarrow> \<exists>c3 r3. mr_run lib (Some c2) r2 w (map Writable ss) =
        Inr (Some c3, r3, w, int_bytes M) \<and> mr_ready lib r3 c3 \<and> mr_seen c3 = {M} \<and>
        cn_handle c3 = cn_handle c"
proof -
  note ok = lib_adds_ok [OF assms(1)]
  let ?s = "cn_stream c" and ?bytes = "int_bytes M"
  have r: "reactor_inv r" "0 \<le> st_fd ?s" "st_fd ?s < reactor_nfds r"
    using assms(2) by (auto simp: lev.awaits_def lev.reads_def)
  have len: "length ?bytes \<le> 1024" by simp
  obtain s2 r2 where ask: "asyncSendBytes (lev_add lib) ?s r ?bytes (Some ()) = Inr (True, s2, r2)"
    and sent: "\<And>c ss (w :: ('cb mr_connection, 'k, 'e) mr_world). cn_stream c = s2 \<Longrightarrow> takes ss (length ?bytes) \<Longrightarrow> \<exists>s3 r3.
      (\<forall>es. mr_run lib (Some c) r2 w (map Writable ss @ es) =
        and_then (mr_send lib (c\<lparr>cn_stream := s3\<rparr>) r3 w SENDED) (\<lambda>(c, r, w).
          sent_first ?bytes (mr_run lib c r w es))) \<and>
      send_side ?s s3 \<and> reactor_inv r3 \<and> reactor_nfds r3 = reactor_nfds r \<and>
      reactor_handler r3 = (reactor_handler r)((st_fd ?s, Wr) := None)"
    by (rule lev.ask_send_run [OF ok r len, of "mr_recv lib" "mr_send lib"]) (rule that)
  let ?c2 = "c\<lparr>cn_stream := s2, mr_firstCome := False, mr_taskCount := 0, mr_curMaxNum := M\<rparr>"
  have "\<exists>c3 r3. mr_run lib (Some ?c2) r2 w (map Writable ss) = Inr (Some c3, r3, w, ?bytes) \<and>
      mr_ready lib r3 c3 \<and> mr_seen c3 = {M} \<and> cn_handle c3 = cn_handle c" if tk: "takes ss 4"
    for ss and w :: "('cb mr_connection, 'k, 'e) mr_world"
  proof -
    obtain s3 r3 where run: "\<forall>es. mr_run lib (Some ?c2) r2 w (map Writable ss @ es) =
        and_then (mr_send lib (?c2\<lparr>cn_stream := s3\<rparr>) r3 w SENDED) (\<lambda>(c, r, w).
          sent_first ?bytes (mr_run lib c r w es))"
      and s3: "send_side ?s s3" "reactor_inv r3" "reactor_nfds r3 = reactor_nfds r"
        "reactor_handler r3 = (reactor_handler r)((st_fd ?s, Wr) := None)"
      using sent [of ?c2 ss w] tk by simp blast
    have "lev.awaits r3 s3 4 ()" using lev.awaits_send_side [OF assms(2) s3(1-3)] s3(4) by simp
    then have "mr_ready lib r3 (?c2\<lparr>cn_stream := s3\<rparr>)" using assms(3-5) by (simp add: mr_ready_def)
    moreover have "mr_run lib (Some ?c2) r2 w (map Writable ss) =
        Inr (Some (?c2\<lparr>cn_stream := s3\<rparr>), r3, w, ?bytes)"
      using run [rule_format, of "[]"] by (simp add: mr_sendCompleteCallback_def)
    ultimately show ?thesis by (intro exI [of _ "?c2\<lparr>cn_stream := s3\<rparr>"] exI [of _ r3]) (simp add: mr_seen_def)
  qed
  moreover have "mr_deliver (lev_add lib) c r (map (new_MapDoneConnectionMessage h) ns :: 'd message list) =
      Inr (?c2, r2)"
    using mr_deliver_done [OF assms(6,7), of "lev_add lib" r h] ask assms(5,8) by simp
  ultimately show ?thesis by (intro that)
qed

text \<open>A client that is accepted finds a connection that has answered nothing yet.\<close>

lemma mr_accepts_inv:
  assumes "lib_adds lib" "reactor_inv r" "0 < fd" "fd < reactor_nfds r"
    and "mw_service w = Some sv" "sv_connections sv fd = None"
  obtains c r' w' where
    "mr_onConnection (lev_add lib) (removeEventHandler lib) (new_Stream fd rc sc) r w = Inr (Some c, r', w')"
    "mr_ready lib r' c" "mr_firstCome c" "cn_handle c = fd"
proof -
  let ?s = "new_Stream fd rc sc :: (_, unit) stream"
  have r: "0 \<le> st_fd ?s" "st_fd ?s < reactor_nfds r"
    using assms(3,4) by (auto simp: new_Stream_def)
  obtain s' r' where ask: "asyncRecvBytes (lev_add lib) ?s r 4 (Some ()) = Inr (True, s', r')"
    "lev.awaits r' s' 4 ()"
    by (rule lev.ask_recv [OF lib_adds_ok [OF assms(1)] assms(2) r four_in_range, of "()"]) (rule that)
  let ?c = "\<lparr>cn_stream = s', cn_handle = fd, mr_firstCome = True, mr_taskCount = 0, mr_curMaxNum = 0,
    mr_stat = RECV_HEAD, mr_recvCall = Some (), mr_sendCall = Some ()\<rparr>"
  show ?thesis
    by (intro that [of ?c r'])
      (use ask assms(3,5,6) in \<open>simp_all add: mr_onConnection_def new_MapReduceConnection_def
        new_Connection_def getFd_def addNewConnection_def Connection_getHandle_def
        mr_startReadOrWriteInService_def new_Stream_def mr_ready_def\<close>)
qed

lemma mr_accepts:
  assumes "lib_adds lib" "stream_start lib n r fd" "mw_service w = Some sv" "sv_connections sv fd = None"
  obtains c r' w' where
    "mr_onConnection (lev_add lib) (removeEventHandler lib) (new_Stream fd rc sc) r w = Inr (Some c, r', w')"
    "mr_ready lib r' c" "mr_firstCome c" "cn_handle c = fd"
proof -
  have "reactor_inv r" "0 < fd" "fd < reactor_nfds r" using assms(2) by (auto simp: stream_start_def)
  from mr_accepts_inv [OF assms(1) this assms(3,4), of rc sc] that show ?thesis by metis
qed

text \<open>Two files, and a request for both that comes in two pieces.\<close>

definition files_example :: files where
  "files_example path = (if path = ''a'' then Some ''3 7'' else if path = ''b'' then Some ''5'' else None)"

lemma files_example_ints:
  "ints (new_ifstream (Some ''3 7'')) = [3, 7]" "ints (new_ifstream (Some ''5'')) = [5]"
  by code_simp+

lemma files_example_nums: "file_nums files_example ''a'' = {3, 7}" "file_nums files_example ''b'' = {5}"
  by (simp_all add: file_nums_def files_example_def files_example_ints)

definition world_example :: "(string mr_connection, nat, nat) mr_world" where
  "world_example = \<lparr>mw_service = Some new_NetWorkService, mw_posted = [], mw_refs = 0\<rparr>"

lemma request_example:
  "request_ok [''a'', ''b'']" "bench_request [''a'', ''b''] = ''a b''"
  "brings [Received (int_bytes 3)] (int_bytes 3)" "brings [Received ''a '', Received ''b''] ''a b''"
  "\<forall>path \<in> set [''a'', ''b'']. file_nums files_example path \<noteq> {}"
  "serial_max files_example [''a'', ''b''] = 7"
proof -
  show req: "bench_request [''a'', ''b''] = ''a b''" by (simp add: bench_request_join)
  show "request_ok [''a'', ''b'']" by (simp add: request_ok_def req)
  have "int_bytes 3 \<noteq> []" using length_int_bytes [of 3] by force
  then show "brings [Received (int_bytes 3)] (int_bytes 3)" by (simp add: brings_def recv_goes_on_def)
  show "brings [Received ''a '', Received ''b''] ''a b''" by (simp add: brings_def recv_goes_on_def)
  show "\<forall>path \<in> set [''a'', ''b'']. file_nums files_example path \<noteq> {}"
    by (simp add: files_example_nums)
  then show "serial_max files_example [''a'', ''b''] = 7"
    by (simp add: serial_max_Max files_example_nums)
qed

lemma mr_example:
  obtains r c where "mr_ready (\<lambda>_ _. True) r (c :: string mr_connection)" "mr_firstCome c"
proof -
  let ?sv = "new_NetWorkService :: (string mr_connection, nat, nat) service"
  have free: "mw_service world_example = Some ?sv" "sv_connections ?sv 3 = None"
    by (simp_all add: world_example_def new_NetWorkService_def)
  show ?thesis
    by (rule mr_accepts [OF lib_adds_True reactor5_start free, of "''recv''" "''send''"]) (rule that)
qed

section \<open>Properties\<close>

text \<open>The answers of the tasks for \<open>qs\<close>, in the order they finish.\<close>

lemma map_results_Max:
  assumes "list_all2 (\<lambda>path m. map_result files h path = Inr m) qs ms"
    and "\<forall>path \<in> set qs. file_nums files path \<noteq> {}"
  shows "ms = map (new_MapDoneConnectionMessage h) (map (\<lambda>path. Max (file_nums files path)) qs)"
  using assms by (induction rule: list_all2_induct) (auto simp: map_result_Max)

text \<open>A request on a fresh connection, from its first byte to the answer.\<close>

lemma mapreduce_run:
  fixes w :: "('cb mr_connection, 'k, 'e) mr_world"
  assumes "lib_adds lib" "mr_ready lib r c" "mr_firstCome c" "request_ok paths"
    and "brings hs (int_bytes (int (length (bench_request paths))))" "brings rs (bench_request paths)"
    and "\<forall>path \<in> set paths. file_nums files path \<noteq> {}"
  shows "\<exists>c1 r1 w1. mr_run lib (Some c) r w (map Readable (hs @ rs)) = Inr (Some c1, r1, w1, []) \<and>
    mw_posted w1 = mw_posted w @ map (\<lambda>path. new_MapTask (Some (cn_handle c, path))) paths \<and>
    (\<forall>qs ms ss. mset qs = mset paths \<and> takes ss 4 \<and>
        list_all2 (\<lambda>path m. map_result files (cn_handle c) path = Inr (m :: 'd message)) qs ms \<longrightarrow>
      (\<exists>c2 r2 c3 r3. mr_deliver (lev_add lib) c1 r1 ms = Inr (c2, r2) \<and>
        mr_run lib (Some c2) r2 w1 (map Writable ss) =
          Inr (Some c3, r3, w1, int_bytes (serial_max files paths)) \<and> mr_ready lib r3 c3))"
proof -
  let ?w = "w\<lparr>mw_posted := mw_posted w @ map (\<lambda>path. new_MapTask (Some (cn_handle c, path))) paths,
    mw_refs := mw_refs w + length paths\<rparr>"
  obtain c1 r1 where run: "mr_run lib (Some c) r w (map Readable (hs @ rs)) = Inr (Some c1, r1, ?w, [])"
    and c1: "lev.awaits r1 (cn_stream c1) 4 ()" "mr_stat c1 = RECV_HEAD" "mr_recvCall c1 = Some ()"
      "mr_sendCall c1 = Some ()" "mr_taskCount c1 = int (length paths)" "mr_seen c1 = mr_seen c"
    by (rule mr_request [OF assms(1,2,4-6), of w]) (rule that)
  have "\<exists>c2 r2 c3 r3. mr_deliver (lev_add lib) c1 r1 ms = Inr (c2, r2) \<and>
      mr_run lib (Some c2) r2 ?w (map Writable ss) =
        Inr (Some c3, r3, ?w, int_bytes (serial_max files paths)) \<and> mr_ready lib r3 c3"
    if o: "mset qs = mset paths" "takes ss 4"
      "list_all2 (\<lambda>path m. map_result files (cn_handle c) path = Inr (m :: 'd message)) qs ms" for qs ms ss
  proof -
    let ?ns = "map (\<lambda>path. Max (file_nums files path)) qs"
    have qs: "set qs = set paths" "length qs = length paths" "qs \<noteq> []" "paths \<noteq> []"
      using o(1) assms(4) mset_eq_setD [OF o(1)] mset_eq_length [OF o(1)] by (auto simp: request_ok_def)
    have ms: "ms = map (new_MapDoneConnectionMessage (cn_handle c)) ?ns"
      using map_results_Max [OF o(3)] assms(7) qs(1) by simp
    have M: "serial_max files paths = Max (set ?ns \<union> mr_seen c1)"
      using Max_of_Max [of "set paths" "file_nums files" "{}"] assms(3,7) qs(1,4) c1(6)
      by (simp add: serial_max_Max mr_seen_def)
    have count: "mr_taskCount c1 = int (length ?ns)" "?ns \<noteq> []" using c1(5) qs by simp_all
    obtain c2 r2 where "mr_deliver (lev_add lib) c1 r1
        (map (new_MapDoneConnectionMessage (cn_handle c)) ?ns :: 'd message list) = Inr (c2, r2)"
      "\<And>ss (w :: ('cb mr_connection, 'k, 'e) mr_world). takes ss 4 \<Longrightarrow> \<exists>c3 r3. mr_run lib (Some c2) r2 w (map Writable ss) =
        Inr (Some c3, r3, w, int_bytes (serial_max files paths)) \<and> mr_ready lib r3 c3 \<and>
        mr_seen c3 = {serial_max files paths} \<and> cn_handle c3 = cn_handle c1"
      by (rule mr_reply [OF assms(1) c1(1-4) count(2,1) M, of "cn_handle c"]) (rule that)
    with o(2) show ?thesis unfolding ms by blast
  qed
  with run show ?thesis by (intro exI [of _ c1] exI [of _ r1] exI [of _ ?w]) auto
qed

text \<open>
  C5: The parallel computation gives the same answer as the serial one. A connection that has
  answered nothing yet gets a request for files each of which has a number in it, in any pieces: it
  posts exactly one task per file, in order. In whatever order the tasks finish and their messages
  come, with the last message exactly one answer is sent, and the client receives, in any pieces,
  the four bytes of the number the serial program computes from the same files. Afterwards the
  connection waits for the next request.
\<close>

theorem mapreduce_equals_serial:
  fixes w :: "('cb mr_connection, 'k, 'e) mr_world"
  assumes "lib_adds lib" "mr_ready lib r c" "mr_firstCome c" "request_ok paths"
    and "brings hs (int_bytes (int (length (bench_request paths))))" "brings rs (bench_request paths)"
    and "\<forall>path \<in> set paths. file_nums files path \<noteq> {}"
  shows "\<exists>c1 r1 w1. mr_run lib (Some c) r w (map Readable (hs @ rs)) = Inr (Some c1, r1, w1, []) \<and>
    mw_posted w1 = mw_posted w @ map (\<lambda>path. new_MapTask (Some (cn_handle c, path))) paths \<and>
    (\<forall>qs ms ss. mset qs = mset paths \<and> takes ss 4 \<and>
        list_all2 (\<lambda>path m. map_result files (cn_handle c) path = Inr (m :: 'd message)) qs ms \<longrightarrow>
      (\<exists>c2 r2 c3 r3. mr_deliver (lev_add lib) c1 r1 ms = Inr (c2, r2) \<and>
        mr_run lib (Some c2) r2 w1 (map Writable ss) =
          Inr (Some c3, r3, w1, int_bytes (serial_max files paths)) \<and> mr_ready lib r3 c3))"
  using mapreduce_run [OF assms, of w] .

theorem mapreduce_equals_serial_witness:
  "\<exists>r (c :: string mr_connection) c1 r1 w1 c2 r2 c3 r3. mr_ready (\<lambda>_ _. True) r c \<and>
    mr_run (\<lambda>_ _. True) (Some c) r world_example
      [Readable (Received (int_bytes 3)), Readable (Received ''a ''), Readable (Received ''b'')] =
      Inr (Some c1, r1, w1, []) \<and>
    mr_deliver (lev_add (\<lambda>_ _. True)) c1 r1
      [new_MapDoneConnectionMessage (cn_handle c) 5, new_MapDoneConnectionMessage (cn_handle c) 7 :: nat message] =
      Inr (c2, r2) \<and>
    mr_run (\<lambda>_ _. True) (Some c2) r2 w1 [Writable (Sent 4)] = Inr (Some c3, r3, w1, int_bytes 7)"
proof -
  obtain r c where c: "mr_ready (\<lambda>_ _. True) r (c :: string mr_connection)" "mr_firstCome c"
    by (rule mr_example)
  have "brings [Received (int_bytes 3)] (int_bytes (int (length (bench_request [''a'', ''b'']))))"
    "brings [Received ''a '', Received ''b''] (bench_request [''a'', ''b''])"
    using request_example by simp_all
  from mapreduce_equals_serial [where 'd = nat, OF lib_adds_True c request_example(1) this
      request_example(5), of world_example]
  obtain c1 r1 w1 where run: "mr_run (\<lambda>_ _. True) (Some c) r world_example
      [Readable (Received (int_bytes 3)), Readable (Received ''a ''), Readable (Received ''b'')] =
      Inr (Some c1, r1, w1, [])"
    and ans: "\<forall>qs ms ss. mset qs = mset [''a'', ''b''] \<and> takes ss 4 \<and>
        list_all2 (\<lambda>path m. map_result files_example (cn_handle c) path = Inr (m :: nat message)) qs ms \<longrightarrow>
      (\<exists>c2 r2 c3 r3. mr_deliver (lev_add (\<lambda>_ _. True)) c1 r1 ms = Inr (c2, r2) \<and>
        mr_run (\<lambda>_ _. True) (Some c2) r2 w1 (map Writable ss) =
          Inr (Some c3, r3, w1, int_bytes (serial_max files_example [''a'', ''b''])) \<and>
        mr_ready (\<lambda>_ _. True) r3 c3)"
    by auto
  have "mset [''b'', ''a''] = mset [''a'', ''b'']" "takes [Sent 4] 4"
    "list_all2 (\<lambda>path m. map_result files_example (cn_handle c) path = Inr (m :: nat message)) [''b'', ''a'']
      [new_MapDoneConnectionMessage (cn_handle c) 5, new_MapDoneConnectionMessage (cn_handle c) 7]"
    by (simp_all add: takes_def send_goes_on_def map_result_Max files_example_nums)
  with ans have "\<exists>c2 r2 c3 r3. mr_deliver (lev_add (\<lambda>_ _. True)) c1 r1
      [new_MapDoneConnectionMessage (cn_handle c) 5, new_MapDoneConnectionMessage (cn_handle c) 7 :: nat message] =
      Inr (c2, r2) \<and>
    mr_run (\<lambda>_ _. True) (Some c2) r2 w1 (map Writable [Sent 4]) = Inr (Some c3, r3, w1, int_bytes 7)"
    unfolding request_example(6) by blast
  with c(1) run show ?thesis unfolding list.map by blast
qed

subsection \<open>Requests one after the other\<close>

text \<open>
  One request on a connection from its first byte to the last byte of its answer: the readable
  events, then the messages of the tasks, then the writable events. What the client hears is the
  last component.
\<close>

definition mr_exchange :: "libevent \<Rightarrow> recv_result list \<Rightarrow> 'd message list \<Rightarrow> send_result list \<Rightarrow>
    'cb mr_connection \<Rightarrow> 'cb reactor \<Rightarrow> ('cb mr_connection, 'k, 'e) mr_world \<Rightarrow>
    ('cb mr_connection option \<times> 'cb reactor \<times> ('cb mr_connection, 'k, 'e) mr_world \<times> string) outcome" where
  "mr_exchange lib rds ms ss c r w =
     and_then (mr_run lib (Some c) r w (map Readable rds)) (\<lambda>(co, r, w, out).
       case co of
         None \<Rightarrow> Inr (None, r, w, out)
       | Some c \<Rightarrow>
           and_then (mr_deliver (lev_add lib) c r ms) (\<lambda>(c, r).
             sent_first out (mr_run lib (Some c) r w (map Writable ss))))"

text \<open>The bytes of a request come, in any pieces; its tasks answer, in any order.\<close>

definition request_comes :: "string list \<Rightarrow> recv_result list \<Rightarrow> bool" where
  "request_comes paths rds \<longleftrightarrow> request_ok paths \<and>
     (\<exists>hs rs. rds = hs @ rs \<and> brings hs (int_bytes (int (length (bench_request paths)))) \<and>
        brings rs (bench_request paths))"

definition tasks_answer :: "files \<Rightarrow> int \<Rightarrow> string list \<Rightarrow> 'd message list \<Rightarrow> bool" where
  "tasks_answer files h paths ms \<longleftrightarrow>
     (\<exists>qs. mset qs = mset paths \<and> list_all2 (\<lambda>path m. map_result files h path = Inr m) qs ms)"

lemma request_comesI:
  "request_ok paths \<Longrightarrow> brings hs (int_bytes (int (length (bench_request paths)))) \<Longrightarrow>
     brings rs (bench_request paths) \<Longrightarrow> request_comes paths (hs @ rs)"
  unfolding request_comes_def by blast

lemma mr_exchange_answer:
  fixes w :: "('cb mr_connection, 'k, 'e) mr_world" and ms :: "'d message list"
  assumes "lib_adds lib" "mr_ready lib r c" "request_comes paths rds" "takes ss 4"
    and "\<forall>path \<in> set paths. file_nums files path \<noteq> {}" "tasks_answer files (cn_handle c) paths ms"
    and "M = Max ((\<Union>path \<in> set paths. file_nums files path) \<union> mr_seen c)"
  obtains c' r' w' where "mr_exchange lib rds ms ss c r w = Inr (Some c', r', w', int_bytes M)"
    "mr_ready lib r' c'" "mr_seen c' = {M}" "cn_handle c' = cn_handle c"
proof -
  obtain hs rs where rds: "rds = hs @ rs" "request_ok paths" "brings rs (bench_request paths)"
    "brings hs (int_bytes (int (length (bench_request paths))))"
    using assms(3) by (auto simp: request_comes_def)
  obtain qs where qs: "mset qs = mset paths"
    "list_all2 (\<lambda>path m. map_result files (cn_handle c) path = Inr m) qs ms"
    using assms(6) by (auto simp: tasks_answer_def)
  let ?w = "w\<lparr>mw_posted := mw_posted w @ map (\<lambda>path. new_MapTask (Some (cn_handle c, path))) paths,
    mw_refs := mw_refs w + length paths\<rparr>"
  let ?ns = "map (\<lambda>path. Max (file_nums files path)) qs"
  obtain c1 r1 where run: "mr_run lib (Some c) r w (map Readable (hs @ rs)) = Inr (Some c1, r1, ?w, [])"
    and c1: "lev.awaits r1 (cn_stream c1) 4 ()" "mr_stat c1 = RECV_HEAD" "mr_recvCall c1 = Some ()"
      "mr_sendCall c1 = Some ()" "mr_taskCount c1 = int (length paths)" "mr_seen c1 = mr_seen c"
      "cn_handle c1 = cn_handle c"
    by (rule mr_request [OF assms(1,2) rds(2,4,3), of w]) (rule that)
  have q: "set qs = set paths" "length qs = length paths" "qs \<noteq> []" "paths \<noteq> []"
    using qs(1) rds(2) mset_eq_setD [OF qs(1)] mset_eq_length [OF qs(1)] by (auto simp: request_ok_def)
  have ms: "ms = map (new_MapDoneConnectionMessage (cn_handle c)) ?ns"
    using map_results_Max [OF qs(2)] assms(5) q(1) by simp
  have "finite (mr_seen c1)" by (simp add: mr_seen_def)
  then have M: "M = Max (set ?ns \<union> mr_seen c1)"
    using Max_of_Max [of "set paths" "file_nums files" "mr_seen c1"] assms(5,7) q(1,4) c1(6) by simp
  have count: "mr_taskCount c1 = int (length ?ns)" "?ns \<noteq> []" using c1(5) q by simp_all
  obtain c2 r2 where deliver: "mr_deliver (lev_add lib) c1 r1 ms = Inr (c2, r2)"
    and sent: "\<And>ss (w :: ('cb mr_connection, 'k, 'e) mr_world). takes ss 4 \<Longrightarrow> \<exists>c3 r3.
      mr_run lib (Some c2) r2 w (map Writable ss) = Inr (Some c3, r3, w, int_bytes M) \<and>
      mr_ready lib r3 c3 \<and> mr_seen c3 = {M} \<and> cn_handle c3 = cn_handle c1"
    by (rule mr_reply [where 'd = 'd, OF assms(1) c1(1-4) count(2,1) M, of "cn_handle c", folded ms])
      (rule that)
  from sent [OF assms(4), of ?w] obtain c3 r3 where
    "mr_run lib (Some c2) r2 ?w (map Writable ss) = Inr (Some c3, r3, ?w, int_bytes M)"
    "mr_ready lib r3 c3" "mr_seen c3 = {M}" "cn_handle c3 = cn_handle c" using c1(7) by auto
  with run deliver that [of c3 r3 ?w] show ?thesis by (simp add: mr_exchange_def rds(1))
qed

text \<open>
  C37: A second request on the same connection is answered wrongly. A connection that has answered
  nothing yet gets two requests, one after the other, each in any pieces, with tasks that finish in
  any order. The first is answered with the number the serial program computes for it. The second
  is answered with the larger of the numbers the serial program computes for the two: if the
  files of the second have only smaller numbers, the client gets a number that is in none of them.
\<close>

theorem mapreduce_second_request_stale:
  fixes w :: "('cb mr_connection, 'k, 'e) mr_world" and ms ms' :: "'d message list"
  assumes "lib_adds lib" "mr_ready lib r c" "mr_firstCome c"
    and "request_comes paths rds" "takes ss 4" "tasks_answer files (cn_handle c) paths ms"
    and "request_comes paths' rds'" "takes ss' 4" "tasks_answer files (cn_handle c) paths' ms'"
    and "\<forall>path \<in> set paths \<union> set paths'. file_nums files path \<noteq> {}"
  shows "\<exists>c1 r1 w1 c2 r2 w2 answer.
    mr_exchange lib rds ms ss c r w = Inr (Some c1, r1, w1, int_bytes (serial_max files paths)) \<and>
    mr_exchange lib rds' ms' ss' c1 r1 w1 = Inr (Some c2, r2, w2, int_bytes answer) \<and>
    answer = max (serial_max files paths) (serial_max files paths') \<and>
    (serial_max files paths' < serial_max files paths \<longrightarrow>
       answer \<notin> (\<Union>path \<in> set paths'. file_nums files path))"
proof -
  let ?nums = "\<lambda>paths. \<Union>path \<in> set paths. file_nums files path"
  have ne: "paths \<noteq> []" "paths' \<noteq> []" using assms(4,7) by (auto simp: request_comes_def request_ok_def)
  have files: "\<forall>path \<in> set paths. file_nums files path \<noteq> {}" "\<forall>path \<in> set paths'. file_nums files path \<noteq> {}"
    using assms(10) by auto
  note serial = serial_max_Max [OF ne(1) files(1)] serial_max_Max [OF ne(2) files(2)]
  have fin: "finite (?nums paths')" "?nums paths' \<noteq> {}"
    using ne(2) files(2) by (auto simp: file_nums_def)
  have M: "serial_max files paths = Max (?nums paths \<union> mr_seen c)"
    using assms(3) by (simp add: serial(1) mr_seen_def)
  obtain c1 r1 w1 where one: "mr_exchange lib rds ms ss c r w =
      Inr (Some c1, r1, w1, int_bytes (serial_max files paths))"
    "mr_ready lib r1 c1" "mr_seen c1 = {serial_max files paths}" "cn_handle c1 = cn_handle c"
    by (rule mr_exchange_answer [OF assms(1,2,4,5) files(1) assms(6) M, of w]) (rule that)
  have M': "max (serial_max files paths) (serial_max files paths') = Max (?nums paths' \<union> mr_seen c1)"
    using fin by (simp add: serial(2) one(3))
  have ms': "tasks_answer files (cn_handle c1) paths' ms'" using assms(9) one(4) by simp
  obtain c2 r2 w2 where two: "mr_exchange lib rds' ms' ss' c1 r1 w1 =
      Inr (Some c2, r2, w2, int_bytes (max (serial_max files paths) (serial_max files paths')))"
    by (rule mr_exchange_answer [OF assms(1) one(2) assms(7,8) files(2) ms' M', of w1]) (rule that)
  have "serial_max files paths \<notin> ?nums paths'" if "serial_max files paths' < serial_max files paths"
    using Max_ge [OF fin(1), of "serial_max files paths"] that serial(2) by linarith
  with one(1) two show ?thesis by (auto simp: max_def)
qed

text \<open>First both files are asked for, and 7 is the answer; then only the one with 5, and 7 again.\<close>

theorem mapreduce_second_request_stale_witness:
  "\<exists>r (c :: string mr_connection) c1 r1 w1 c2 r2 w2. mr_ready (\<lambda>_ _. True) r c \<and>
    mr_exchange (\<lambda>_ _. True) [Received (int_bytes 3), Received ''a '', Received ''b'']
      [new_MapDoneConnectionMessage (cn_handle c) 5, new_MapDoneConnectionMessage (cn_handle c) 7 :: nat message]
      [Sent 4] c r world_example = Inr (Some c1, r1, w1, int_bytes 7) \<and>
    mr_exchange (\<lambda>_ _. True) [Received (int_bytes 1), Received ''b'']
      [new_MapDoneConnectionMessage (cn_handle c) 5 :: nat message] [Sent 4] c1 r1 w1 =
      Inr (Some c2, r2, w2, int_bytes 7) \<and>
    7 \<notin> file_nums files_example ''b''"
proof -
  obtain r c where c: "mr_ready (\<lambda>_ _. True) r (c :: string mr_connection)" "mr_firstCome c"
    by (rule mr_example)
  have one: "request_comes [''a'', ''b''] ([Received (int_bytes 3)] @ [Received ''a '', Received ''b''])"
    by (rule request_comesI) (use request_example in simp_all)
  have "bench_request [''b''] = ''b''" by (simp add: bench_request_join)
  moreover have "int_bytes 1 \<noteq> []" using length_int_bytes [of 1] by force
  ultimately have two: "request_comes [''b''] ([Received (int_bytes 1)] @ [Received ''b''])"
    by (intro request_comesI) (simp_all add: request_ok_def brings_def recv_goes_on_def)
  have ans: "tasks_answer files_example (cn_handle c) [''a'', ''b'']
      [new_MapDoneConnectionMessage (cn_handle c) 5, new_MapDoneConnectionMessage (cn_handle c) 7 :: nat message]"
    unfolding tasks_answer_def
    by (rule exI [of _ "[''b'', ''a'']"]) (simp add: map_result_Max files_example_nums)
  have ans': "tasks_answer files_example (cn_handle c) [''b'']
      [new_MapDoneConnectionMessage (cn_handle c) 5 :: nat message]"
    unfolding tasks_answer_def
    by (rule exI [of _ "[''b'']"]) (simp add: map_result_Max files_example_nums)
  have max: "serial_max files_example [''b''] = 5" by (simp add: serial_max_Max files_example_nums)
  have "takes [Sent 4] 4" by (simp add: takes_def send_goes_on_def)
  note tk = this
  have nums: "\<forall>path \<in> set [''a'', ''b''] \<union> set [''b'']. file_nums files_example path \<noteq> {}"
    by (simp add: files_example_nums)
  from mapreduce_second_request_stale [OF lib_adds_True c one tk ans two tk ans' nums, of world_example]
  obtain c1 r1 w1 c2 r2 w2 where
    "mr_exchange (\<lambda>_ _. True) ([Received (int_bytes 3)] @ [Received ''a '', Received ''b''])
      [new_MapDoneConnectionMessage (cn_handle c) 5, new_MapDoneConnectionMessage (cn_handle c) 7 :: nat message]
      [Sent 4] c r world_example = Inr (Some c1, r1, w1, int_bytes 7)"
    "mr_exchange (\<lambda>_ _. True) ([Received (int_bytes 1)] @ [Received ''b''])
      [new_MapDoneConnectionMessage (cn_handle c) 5 :: nat message] [Sent 4] c1 r1 w1 =
      Inr (Some c2, r2, w2, int_bytes 7)"
    unfolding request_example(6) max by auto
  moreover have "7 \<notin> file_nums files_example ''b''" by (simp add: files_example_nums)
  ultimately show ?thesis using c(1) unfolding append_Cons append_Nil by blast
qed

end
