(* ===== verification/BenchmarkTest.thy ===== *)
theory BenchmarkTest
  imports MapReduceServer
begin

text \<open>
  The \<open>main\<close> function of \<open>examples/MapReduceServer/BenchmarkTest.cpp\<close>: it writes files of random
  numbers, looks for the largest number itself, asks the map-reduce server for it and prints both
  results. The random engine, which files can be created, and what the socket calls return are
  arguments; the measured times are left out.
\<close>

section \<open>Writing the files\<close>


text \<open>\<open>ss << "test_data_part_" << i\<close>.\<close>

definition bench_path :: "nat \<Rightarrow> string" where
  "bench_path i = ''test_data_part_'' @ decimal i"




section \<open>main\<close>




section \<open>The files of a run\<close>

lemma bench_path_inject: "bench_path i = bench_path j \<longleftrightarrow> i = j"
  by (simp add: bench_path_def decimal_inject)









section \<open>Properties\<close>



end
