(* ===== verification/ConnectionFrames.thy ===== *)
theory ConnectionFrames
  imports FramedConnection
begin

text \<open>
  What the operations of streams leave alone, for every reactor of the interface: the descriptor,
  the invariant of the reactor and the number of descriptors it can watch, and, except for the start
  of a transmission, the buffer being sent. The whole-system theories rest on these frames.
\<close>

section \<open>Frames\<close>

context event_reactor
begin

lemma asyncRecvBytes_frame:
  assumes "asyncRecvBytes add s r n cb = Inr (b, s', r')" "inv r" "0 \<le> st_fd s" "st_fd s < nfds r"
  shows "st_fd s' = st_fd s" "inv r'" "nfds r' = nfds r" "sendBuf s' = sendBuf s"
proof -
  obtain b1 r1 where add: "add r (st_fd s) EVENT_READ (recvOnePackCall s) = Inr (b1, r1)" "inv r1" "nfds r1 = nfds r"
    using add_law [OF assms(2-4), of Rd "recvOnePackCall s"] by auto
  show "st_fd s' = st_fd s" "inv r'" "nfds r' = nfds r" "sendBuf s' = sendBuf s"
    using assms(1,2) add
    by (auto simp: asyncRecvBytes_def Let_def split: if_splits)
qed

lemma asyncSendBytes_frame:
  assumes "asyncSendBytes add s r bs cb = Inr (b, s', r')" "inv r" "0 \<le> st_fd s" "st_fd s < nfds r"
  shows "st_fd s' = st_fd s" "inv r'" "nfds r' = nfds r"
proof -
  obtain b1 r1 where add: "add r (st_fd s) EVENT_WRITE (sendOnePackCall s) = Inr (b1, r1)" "inv r1" "nfds r1 = nfds r"
    using add_law [OF assms(2-4), of Wr "sendOnePackCall s"] by auto
  show "st_fd s' = st_fd s" "inv r'" "nfds r' = nfds r"
    using assms(1,2) add
    by (auto simp: asyncSendBytes_def Let_def split: if_splits)
qed

lemma recv_head_frame:
  assumes "recv_head add s r cb bs = Inr (st, s', r')" "inv r" "0 \<le> st_fd s" "st_fd s < nfds r"
  shows "st_fd s' = st_fd s" "inv r'" "nfds r' = nfds r" "sendBuf s' = sendBuf s"
  using assms asyncRecvBytes_frame [OF _ assms(2-4)]
  by (auto simp: recv_head_def and_then_Inr_iff split: if_splits)

lemma recvOnePack_frame:
  assumes "recvOnePack add s r fd ev res = Inr (s', r', os)" "inv r" "0 \<le> st_fd s" "st_fd s < nfds r"
  shows "st_fd s' = st_fd s" "inv r'" "nfds r' = nfds r" "sendBuf s' = sendBuf s"
proof -
  obtain b1 r1 where add: "add r (st_fd s) EVENT_READ (recvOnePackCall s) = Inr (b1, r1)" "inv r1" "nfds r1 = nfds r"
    using add_law [OF assms(2-4), of Rd "recvOnePackCall s"] by auto
  show "st_fd s' = st_fd s" "inv r'" "nfds r' = nfds r" "sendBuf s' = sendBuf s"
    using assms(1,2) add
    by (auto simp: recvOnePack_def recv_again_def recv_fail_def Let_def and_then_Inr_iff
      split: if_splits recv_result.splits)
qed

lemma sendOnePack_frame:
  assumes "sendOnePack add s r fd ev res = Inr (s', r', os)" "inv r" "0 \<le> st_fd s" "st_fd s < nfds r"
  shows "st_fd s' = st_fd s" "inv r'" "nfds r' = nfds r" "sendBuf s' = sendBuf s"
proof -
  obtain b1 r1 where add: "add r (st_fd s) EVENT_WRITE (sendOnePackCall s) = Inr (b1, r1)" "inv r1" "nfds r1 = nfds r"
    using add_law [OF assms(2-4), of Wr "sendOnePackCall s"] by auto
  show "st_fd s' = st_fd s" "inv r'" "nfds r' = nfds r" "sendBuf s' = sendBuf s"
    using assms(1,2) add
    by (auto simp: sendOnePack_def send_again_def send_done_def Let_def and_then_Inr_iff
      split: if_splits send_result.splits)
qed

lemma delete_Stream_frame:
  assumes "delete_Stream rem s r = Inr (cl, s', r')" "inv r" "0 \<le> st_fd s" "st_fd s < nfds r"
  shows "inv r'" "nfds r' = nfds r"
proof -
  have "inv r' \<and> nfds r' = nfds r"
  proof (cases "0 < st_fd s")
    case True
    with assms(1) obtain b1 r1 b2 where rem: "rem r (st_fd s) (flag Rd) = Inr (b1, r1)"
      "rem r1 (st_fd s) (flag Wr) = Inr (b2, r')"
      by (auto simp: delete_Stream_def and_then_Inr_iff)
    with rem_law [OF assms(2-4) rem(1)] rem_law [of r1 "st_fd s" Wr b2 r'] assms(3,4) show ?thesis
      by auto
  qed (use assms(1,2) in \<open>simp add: delete_Stream_def\<close>)
  then show "inv r'" "nfds r' = nfds r" by simp_all
qed

text \<open>Nor do they touch the handlers of other descriptors.\<close>

lemma asyncRecvBytes_other:
  assumes "asyncRecvBytes add s r n cb = Inr (b, s', r')" "inv r" "0 \<le> st_fd s" "st_fd s < nfds r" "h \<noteq> st_fd s"
  shows "handler r' (h, d) = handler r (h, d)"
  using assms(1,2,5) add_law [OF assms(2-4), of Rd "recvOnePackCall s"]
  by (auto simp: asyncRecvBytes_def Let_def split: if_splits)

lemma asyncSendBytes_other:
  assumes "asyncSendBytes add s r bs cb = Inr (b, s', r')" "inv r" "0 \<le> st_fd s" "st_fd s < nfds r" "h \<noteq> st_fd s"
  shows "handler r' (h, d) = handler r (h, d)"
  using assms(1,2,5) add_law [OF assms(2-4), of Wr "sendOnePackCall s"]
  by (auto simp: asyncSendBytes_def Let_def split: if_splits)

lemma delete_Stream_other:
  assumes "delete_Stream rem s r = Inr (cl, s', r')" "inv r" "0 \<le> st_fd s" "st_fd s < nfds r" "h \<noteq> st_fd s"
  shows "handler r' (h, d) = handler r (h, d)"
proof (cases "0 < st_fd s")
  case True
  with assms(1) obtain b1 r1 b2 where rem: "rem r (st_fd s) (flag Rd) = Inr (b1, r1)"
    "rem r1 (st_fd s) (flag Wr) = Inr (b2, r')"
    by (auto simp: delete_Stream_def and_then_Inr_iff)
  with rem_law [OF assms(2-4) rem(1)] rem_law [of r1 "st_fd s" Wr b2 r'] assms(3-5) show ?thesis
    by auto
qed (use assms(1) in \<open>simp add: delete_Stream_def\<close>)

lemma writes_frame:
  "writes r s \<Longrightarrow> inv r' \<Longrightarrow> nfds r' = nfds r \<Longrightarrow> handler r' (st_fd s, Wr) = handler r (st_fd s, Wr) \<Longrightarrow>
     writes r' s"
  by (simp add: writes_def)

text \<open>An event of a connection is a pass of its stream and then the calls the pass makes.\<close>

lemma conn_event_pass:
  assumes "conn_event add fire rd sd c r w ev = Inr (co, r', w', bytes)"
    and "inv r" "0 \<le> st_fd (cn_stream c)" "st_fd (cn_stream c) < nfds r"
    and "handler r (st_fd (cn_stream c), ev_dir ev) \<noteq> None"
  obtains s r2 os where "conn_calls rd sd (c\<lparr>cn_stream := s\<rparr>) r2 w os = Inr (co, r', w', bytes)"
    "st_fd s = st_fd (cn_stream c)" "inv r2" "nfds r2 = nfds r" "sendBuf s = sendBuf (cn_stream c)"
proof -
  obtain cb where "handler r (st_fd (cn_stream c), ev_dir ev) = Some cb" using assms(5) by auto
  from fire_law [OF assms(2) this] obtain r1 where
    fire: "fire r (st_fd (cn_stream c)) (ev_dir ev) = Inr (Some (cb, flag (ev_dir ev)), r1)"
      "inv r1" "nfds r1 = nfds r" by auto
  have fd: "0 \<le> st_fd (cn_stream c)" "st_fd (cn_stream c) < nfds r1" using assms(3,4) fire(3) by simp_all
  show ?thesis
  proof (cases ev)
    case (Readable res)
    with assms(1) fire obtain s r2 os where h:
      "recvOnePack add (cn_stream c) r1 (st_fd (cn_stream c)) EVENT_READ res = Inr (s, r2, os)"
      "conn_calls rd sd (c\<lparr>cn_stream := s\<rparr>) r2 w os = Inr (co, r', w', bytes)"
      by (auto simp: and_then_Inr_iff)
    with recvOnePack_frame [OF h(1) fire(2) fd] fire(3) show ?thesis by (intro that [of s r2 os]) simp_all
  next
    case (Writable res)
    with assms(1) fire obtain s r2 os where h:
      "sendOnePack add (cn_stream c) r1 (st_fd (cn_stream c)) EVENT_WRITE res = Inr (s, r2, os)"
      "conn_calls rd sd (c\<lparr>cn_stream := s\<rparr>) r2 w os = Inr (co, r', w', bytes)"
      by (auto simp: and_then_Inr_iff)
    with sendOnePack_frame [OF h(1) fire(2) fd] fire(3) show ?thesis by (intro that [of s r2 os]) simp_all
  qed
qed

end

end
