(* ===== verification/MapReduceSystem.thy ===== *)
theory MapReduceSystem
  imports MapReduceServer ConnectionFrames
begin

text \<open>
  The map-reduce server as a whole: its work service, the connections of any number of clients that
  come and go, the thread pool and the queue of messages back to the service, interleaved. A
  descriptor that was closed may be given to the next client while messages for the last one are
  still queued; the properties say that nobody gets an answer to a question of somebody else.
\<close>

section \<open>The state\<close>

text \<open>
  A thread of the pool waits for a task, is about to run one, or has run it and still holds what the
  task's callback is bound to.
\<close>

datatype 't mr_worker = MFetch | MRun 't | MDone 't

type_synonym mtask = "(int \<times> string) map_task"

text \<open>
  The service's thread runs the callbacks of connections one at a time. \<open>sy_objs\<close> are the connection
  objects that have not been deleted, by the descriptor they keep open; the service knows some of
  them. \<open>sy_pending\<close> are the tasks a callback under way has still to hand to the pool.
  \<open>sy_asked\<close> and \<open>sy_done\<close> record, for the object of a descriptor, the paths it has made tasks for and
  the numbers it has taken from messages.
\<close>

record ('cb, 'k) mrsys =
  sy_pool :: "mtask pool"
  sy_workers :: "mtask mr_worker list"
  sy_task :: "unit message itask"
  sy_service :: "('cb mr_connection, 'k, unit) service"
  sy_objs :: "int \<rightharpoonup> 'cb mr_connection"
  sy_reactor :: "'cb reactor"
  sy_pending :: "mtask list"
  sy_asked :: "int \<Rightarrow> string list"
  sy_done :: "int \<Rightarrow> int list"

text \<open>The handle and the path a task is bound to.\<close>

definition task_of :: "mtask \<Rightarrow> int \<times> string" where
  "task_of t = the (mt_runCallback t)"

fun to_run :: "'t mr_worker \<Rightarrow> 't multiset" where
  "to_run (MRun t) = {#t#}"
| "to_run _ = {#}"

fun to_release :: "'t mr_worker \<Rightarrow> 't multiset" where
  "to_release (MDone t) = {#t#}"
| "to_release _ = {#}"

text \<open>The tasks that have still to be run, and all tasks that hold their connection.\<close>

definition tasks_out :: "('cb, 'k) mrsys \<Rightarrow> mtask multiset" where
  "tasks_out s = mset (sy_pending s) + mset (map the (crb_items (tp_queue (sy_pool s)))) +
     (\<Sum>w \<in># mset (sy_workers s). to_run w)"

definition tasks_held :: "('cb, 'k) mrsys \<Rightarrow> mtask multiset" where
  "tasks_held s = tasks_out s + (\<Sum>w \<in># mset (sy_workers s). to_release w)"

definition of_handle :: "int \<Rightarrow> mtask multiset \<Rightarrow> mtask multiset" where
  "of_handle h = filter_mset (\<lambda>t. fst (task_of t) = h)"

abbreviation sy_queue :: "('cb, 'k) mrsys \<Rightarrow> unit message list" where
  "sy_queue s \<equiv> crb_items (it_queue (sy_task s))"

definition sy_world :: "('cb, 'k) mrsys \<Rightarrow> int \<Rightarrow> ('cb mr_connection, 'k, unit) mr_world" where
  "sy_world s h = \<lparr>mw_service = Some (sy_service s), mw_posted = [],
     mw_refs = size (of_handle h (tasks_held s))\<rparr>"

section \<open>The steps\<close>

text \<open>A step is one of the clients, who connect and whose bytes arrive, or one of the server's own
  threads.\<close>

datatype mr_side = Client | Server

text \<open>
  A client is accepted on a descriptor that is not open; the service's thread handles its next
  message or an event of a live connection, or hands a task to the pool; a thread of the pool takes
  a task, runs it, or lets go of it. Steps in which a call waits or the program ends do not exist.
\<close>

inductive mrsys_step :: "files \<Rightarrow> libevent \<Rightarrow> (int \<Rightarrow> 'cb) \<Rightarrow> (int \<Rightarrow> 'cb) \<Rightarrow> mr_side \<Rightarrow>
    ('cb, 'k) mrsys \<Rightarrow> ('cb, 'k) mrsys \<Rightarrow> bool" for files lib rc sc where
  accept: "0 < fd \<Longrightarrow> fd < reactor_nfds (sy_reactor s) \<Longrightarrow> sy_objs s fd = None \<Longrightarrow>
    new_NewConnectMessage fd \<notin> set (sy_queue s) \<Longrightarrow>
    notifyMsg (sy_task s) (new_NewConnectMessage fd) = Inr (Some (e, t)) \<Longrightarrow>
    mrsys_step files lib rc sc Client s (s\<lparr>sy_task := t\<rparr>)"
| connect: "sy_pending s = [] \<Longrightarrow> it_round (sy_task s) = Inr (Some (m, t)) \<Longrightarrow>
    nws_onMessage (sy_service s) m = Inr (CallNewConnection k fd) \<Longrightarrow>
    mr_onConnection (lev_add lib) (removeEventHandler lib) (new_Stream fd (rc fd) (sc fd)) (sy_reactor s)
      (sy_world s fd) = Inr (co, r, w) \<Longrightarrow> mw_service w = Some sv \<Longrightarrow>
    mrsys_step files lib rc sc Server s (s\<lparr>sy_task := t, sy_service := sv, sy_objs := (sy_objs s)(fd := co),
      sy_reactor := r, sy_asked := (sy_asked s)(fd := []), sy_done := (sy_done s)(fd := [])\<rparr>)"
| deliver: "sy_pending s = [] \<Longrightarrow> it_round (sy_task s) = Inr (Some (m, t)) \<Longrightarrow>
    nws_onMessage (sy_service s) m = Inr (Deliver c0 m) \<Longrightarrow> getHandle (msg_class m) = Inr h \<Longrightarrow>
    sy_objs s h = Some c \<Longrightarrow> mr_onMessage (lev_add lib) c (sy_reactor s) m = Inr (c', r) \<Longrightarrow>
    getMaxNum (msg_class m) = Inr n \<Longrightarrow>
    mrsys_step files lib rc sc Server s (s\<lparr>sy_task := t, sy_objs := (sy_objs s)(h \<mapsto> c'), sy_reactor := r,
      sy_done := (sy_done s)(h := sy_done s h @ [n])\<rparr>)"
| dropped: "sy_pending s = [] \<Longrightarrow> it_round (sy_task s) = Inr (Some (m, t)) \<Longrightarrow>
    nws_onMessage (sy_service s) m = Inr (UnknownHandle h) \<Longrightarrow>
    mrsys_step files lib rc sc Server s (s\<lparr>sy_task := t\<rparr>)"
| event: "sy_pending s = [] \<Longrightarrow> sy_objs s h = Some c \<Longrightarrow> reactor_handler (sy_reactor s) (h, ev_dir ev) \<noteq> None \<Longrightarrow>
    conn_event (lev_add lib) dispatch (mr_recv lib) (mr_send lib) c (sy_reactor s) (sy_world s h) ev =
      Inr (co, r, w, bytes) \<Longrightarrow> mw_service w = Some sv \<Longrightarrow>
    mrsys_step files lib rc sc Client s (s\<lparr>sy_service := sv, sy_objs := (sy_objs s)(h := co), sy_reactor := r,
      sy_pending := mw_posted w,
      sy_asked := (sy_asked s)(h := sy_asked s h @ map (snd \<circ> task_of) (mw_posted w))\<rparr>)"
| post: "sy_pending s = t # ts \<Longrightarrow> syncPostTask (sy_pool s) (Some t) = Inr (Some p) \<Longrightarrow>
    mrsys_step files lib rc sc Server s (s\<lparr>sy_pool := p, sy_pending := ts\<rparr>)"
| fetch: "i < length (sy_workers s) \<Longrightarrow> sy_workers s ! i = MFetch \<Longrightarrow>
    threadEntry (sy_pool s) = Inr (Some (t, p)) \<Longrightarrow>
    mrsys_step files lib rc sc Server s (s\<lparr>sy_pool := p, sy_workers := (sy_workers s)[i := MRun t]\<rparr>)"
| run: "i < length (sy_workers s) \<Longrightarrow> sy_workers s ! i = MRun t \<Longrightarrow> mt_runCallback t = Some (h, path) \<Longrightarrow>
    mapFunction files (map_option cn_handle (sy_objs s h)) path (Some (sy_task s)) = Inr (Some (Some t')) \<Longrightarrow>
    mrsys_step files lib rc sc Server s (s\<lparr>sy_task := t', sy_workers := (sy_workers s)[i := MDone t]\<rparr>)"
| release: "i < length (sy_workers s) \<Longrightarrow> sy_workers s ! i = MDone t \<Longrightarrow> mt_runCallback t = Some (h, path) \<Longrightarrow>
    sy_objs s h = Some c \<Longrightarrow>
    mr_release (removeEventHandler lib) c (sy_reactor s) (sy_world s h) = Inr (co, r, w) \<Longrightarrow>
    mrsys_step files lib rc sc Server s (s\<lparr>sy_objs := (sy_objs s)(h := co), sy_reactor := r,
      sy_workers := (sy_workers s)[i := MFetch]\<rparr>)"

text \<open>The server has started its pool and its service, with a reactor \<open>r\<close> and the descriptor \<open>efd\<close>
  for the service's messages.\<close>

definition mrsys_init :: "int \<Rightarrow> int \<Rightarrow> 'k \<Rightarrow> 'cb reactor \<Rightarrow> ('cb, 'k) mrsys" where
  "mrsys_init threadNum efd k r =
     (let p = pool_start (new_ThreadPool threadNum TASK_QUEUE_MAX_SIZE) in
      \<lparr>sy_pool = p, sy_workers = replicate (tp_threads p) MFetch,
       sy_task = setStat ((new_InteractiveTask default_Message ''WorkService-0'' True)\<lparr>it_eventFd := efd\<rparr>) RUNNING,
       sy_service = setNewConnectionCallback new_NetWorkService (Some k), sy_objs = Map.empty,
       sy_reactor = r, sy_pending = [], sy_asked = (\<lambda>_. []), sy_done = (\<lambda>_. [])\<rparr>)"

inductive mrsys_reach :: "files \<Rightarrow> libevent \<Rightarrow> (int \<Rightarrow> 'cb) \<Rightarrow> (int \<Rightarrow> 'cb) \<Rightarrow> int \<Rightarrow> int \<Rightarrow> 'k \<Rightarrow> 'cb reactor \<Rightarrow>
    ('cb, 'k) mrsys \<Rightarrow> bool" for files lib rc sc threadNum efd k r where
  start: "mrsys_reach files lib rc sc threadNum efd k r (mrsys_init threadNum efd k r)"
| step: "mrsys_reach files lib rc sc threadNum efd k r s \<Longrightarrow> mrsys_step files lib rc sc l s s' \<Longrightarrow>
    mrsys_reach files lib rc sc threadNum efd k r s'"

section \<open>What callbacks do to a connection and its service\<close>

text \<open>
  Any number of callbacks of one connection: they make tasks for its own handle and count them, and
  leave what it has reduced alone; the service may forget it, and it is deleted only if no task
  holds it. \<open>paths\<close> are the paths of the tasks.
\<close>

definition conn_effect :: "string list \<Rightarrow>
    'cb mr_connection \<Rightarrow> 'cb reactor \<Rightarrow> ('cb mr_connection, 'k, 'd) mr_world \<Rightarrow>
    'cb mr_connection option \<Rightarrow> 'cb reactor \<Rightarrow> ('cb mr_connection, 'k, 'd) mr_world \<Rightarrow> bool" where
  "conn_effect paths c r w co r' w' \<longleftrightarrow>
     reactor_inv r' \<and> reactor_nfds r' = reactor_nfds r \<and>
     mw_posted w' = mw_posted w @ map (\<lambda>path. new_MapTask (Some (cn_handle c, path))) paths \<and>
     mw_refs w' = mw_refs w + length paths \<and>
     (\<exists>sv sv'. mw_service w = Some sv \<and> mw_service w' = Some sv' \<and>
       (sv' = sv \<or> sv' = removeConnection sv (cn_handle c) \<and> (co = None \<or> 0 < mw_refs w'))) \<and>
     (case co of
        None \<Rightarrow> mw_refs w' = 0 \<and> mw_service w' = map_option (\<lambda>sv. removeConnection sv (cn_handle c)) (mw_service w)
      | Some c' \<Rightarrow> cn_handle c' = cn_handle c \<and> st_fd (cn_stream c') = st_fd (cn_stream c) \<and>
          mr_firstCome c' = mr_firstCome c \<and> mr_curMaxNum c' = mr_curMaxNum c \<and>
          mr_sendCall c' = mr_sendCall c \<and> sendBuf (cn_stream c') = sendBuf (cn_stream c) \<and>
          mr_taskCount c' = mr_taskCount c + int (length paths))"

definition conn_live :: "'cb reactor \<Rightarrow> 'cb mr_connection \<Rightarrow> bool" where
  "conn_live r c \<longleftrightarrow> reactor_inv r \<and> 0 < st_fd (cn_stream c) \<and> st_fd (cn_stream c) < reactor_nfds r"

lemma removeConnection_twice [simp]: "removeConnection (removeConnection sv h) h = removeConnection sv h"
  by (simp add: removeConnection_def)

lemma conn_effect_refl: "conn_live r c \<Longrightarrow> mw_service w \<noteq> None \<Longrightarrow> conn_effect [] c r w (Some c) r w"
  by (auto simp: conn_effect_def conn_live_def)

lemma conn_effect_live: "conn_effect ps c r w (Some c') r' w' \<Longrightarrow> conn_live r c \<Longrightarrow> conn_live r' c'"
  by (simp add: conn_effect_def conn_live_def)

lemma conn_effect_service: "conn_effect ps c r w co r' w' \<Longrightarrow> mw_service w' \<noteq> None"
  by (auto simp: conn_effect_def)

lemma conn_effect_trans:
  assumes "conn_effect ps c r w (Some c1) r1 w1" "conn_effect qs c1 r1 w1 co r2 w2"
  shows "conn_effect (ps @ qs) c r w co r2 w2"
  using assms by (cases co) (auto simp: conn_effect_def)

lemma conn_effect_stream:
  assumes "st_fd s = st_fd (cn_stream c)" "reactor_inv r1" "reactor_nfds r1 = reactor_nfds r"
    and "sendBuf s = sendBuf (cn_stream c)" "conn_effect ps (c\<lparr>cn_stream := s\<rparr>) r1 w co r' w'"
  shows "conn_effect ps c r w co r' w'"
  using assms by (cases co) (auto simp: conn_effect_def)

lemma mr_destroy_effect:
  assumes "mr_destroy (removeEventHandler lib) c r w = Inr (co, r', w')" "conn_live r c" "mw_service w \<noteq> None"
  shows "conn_effect [] c r w co r' w'"
  using assms lev.delete_Stream_frame [of lib "cn_stream c" r]
  by (fastforce simp: mr_destroy_def Connection_destroy_def conn_effect_def conn_live_def Let_def and_then_Inr_iff
      split: if_splits)

lemma mr_recv_effect:
  assumes "mr_recv lib c r w st bs = Inr (co, r', w')" "conn_live r c" "mw_service w \<noteq> None"
  shows "\<exists>ps. conn_effect ps c r w co r' w'"
proof -
  have live: "reactor_inv r" "0 \<le> st_fd (cn_stream c)" "st_fd (cn_stream c) < reactor_nfds r"
    using assms(2) by (simp_all add: conn_live_def)
  consider "st = RECVERR" | "st \<noteq> RECVERR" "mr_stat c = RECV_HEAD" | "st \<noteq> RECVERR" "mr_stat c = RECV_BODY"
    by (cases "mr_stat c") auto
  then show ?thesis
  proof cases
    case 1
    then have "conn_effect [] c r w co r' w'"
      using mr_destroy_effect [OF _ assms(2,3)] assms(1) by (simp add: mr_recvCompleteCallback_def)
    then show ?thesis ..
  next
    case 2
    with assms(1) obtain st' s' where h: "recv_head (lev_add lib) (cn_stream c) r (mr_recvCall c) bs = Inr (st', s', r')"
      and r: "co = Some (c\<lparr>cn_stream := s', mr_stat := st'\<rparr>)" "w' = w"
      by (auto simp: mr_recvCompleteCallback_def and_then_Inr_iff)
    have "conn_effect [] c r w co r' w'"
      using lev.recv_head_frame [OF h live] r assms(3) by (auto simp: conn_effect_def)
    then show ?thesis ..
  next
    case 3
    let ?ps = "snd (split bs [] (CHR '' ''))"
    from 3 assms(1) obtain b s' where h: "asyncRecvBytes (lev_add lib) (cn_stream c) r 4 (mr_recvCall c) = Inr (b, s', r')"
      and r: "co = Some (c\<lparr>mr_taskCount := mr_taskCount c + int (length ?ps), mr_stat := RECV_HEAD, cn_stream := s'\<rparr>)"
        "w' = w\<lparr>mw_posted := mw_posted w @ map (\<lambda>path. new_MapTask (Some (cn_handle c, path))) ?ps,
          mw_refs := mw_refs w + length ?ps\<rparr>"
      by (auto simp: mr_recvCompleteCallback_def and_then_Inr_iff mr_post_eq Let_def split: prod.splits)
    have "conn_effect ?ps c r w co r' w'"
      using lev.asyncRecvBytes_frame [OF h live] r assms(3) by (auto simp: conn_effect_def)
    then show ?thesis ..
  qed
qed

lemma mr_send_effect:
  assumes "mr_send lib c r w st = Inr (co, r', w')" "conn_live r c" "mw_service w \<noteq> None"
  shows "conn_effect [] c r w co r' w'"
  using assms mr_destroy_effect [OF _ assms(2,3)] conn_effect_refl [OF assms(2,3)]
  by (auto simp: mr_sendCompleteCallback_def split: if_splits)

lemma conn_calls_effect:
  assumes "conn_calls (mr_recv lib) (mr_send lib) c r w os = Inr (co, r', w', bytes)"
    and "conn_live r c" "mw_service w \<noteq> None"
  shows "\<exists>ps. conn_effect ps c r w co r' w'"
  using assms
proof (induction os arbitrary: c r w bytes)
  case Nil
  then have "conn_effect [] c r w co r' w'" using conn_effect_refl by auto
  then show ?case ..
next
  case (Cons o1 os)
  show ?case
  proof (cases o1)
    case (OutBytes bs)
    with Cons.prems show ?thesis by (auto simp: sent_first_def and_then_Inr_iff intro: Cons.IH)
  next
    case (CallClose u fd)
    with Cons show ?thesis by auto
  next
    case (CallRecv u st buf)
    with Cons.prems(1) obtain co1 r1 w1 where rd: "mr_recv lib c r w st buf = Inr (co1, r1, w1)"
      and rest: "(case co1 of None \<Rightarrow> Inr (None, r1, w1, []) | Some c \<Rightarrow>
        conn_calls (mr_recv lib) (mr_send lib) c r1 w1 os) = Inr (co, r', w', bytes)"
      by (auto simp: and_then_Inr_iff)
    obtain ps where e: "conn_effect ps c r w co1 r1 w1" using mr_recv_effect [OF rd Cons.prems(2,3)] ..
    show ?thesis
    proof (cases co1)
      case None
      with e rest show ?thesis by auto
    next
      case (Some c1)
      with Cons.IH [of c1 r1 w1 bytes] rest e Cons.prems(2) show ?thesis
        using conn_effect_live conn_effect_service conn_effect_trans by fastforce
    qed
  next
    case (CallSend u st)
    with Cons.prems(1) obtain co1 r1 w1 where sd: "mr_send lib c r w st = Inr (co1, r1, w1)"
      and rest: "(case co1 of None \<Rightarrow> Inr (None, r1, w1, []) | Some c \<Rightarrow>
        conn_calls (mr_recv lib) (mr_send lib) c r1 w1 os) = Inr (co, r', w', bytes)"
      by (auto simp: and_then_Inr_iff)
    have e: "conn_effect [] c r w co1 r1 w1" using mr_send_effect [OF sd Cons.prems(2,3)] .
    show ?thesis
    proof (cases co1)
      case None
      with e rest show ?thesis by auto
    next
      case (Some c1)
      with Cons.IH [of c1 r1 w1 bytes] rest e Cons.prems(2) show ?thesis
        using conn_effect_live conn_effect_service conn_effect_trans by fastforce
    qed
  qed
qed

lemma conn_event_effect:
  assumes "conn_event (lev_add lib) dispatch (mr_recv lib) (mr_send lib) c r w ev = Inr (co, r', w', bytes)"
    and "conn_live r c" "mw_service w \<noteq> None" "reactor_handler r (st_fd (cn_stream c), ev_dir ev) \<noteq> None"
  shows "\<exists>ps. conn_effect ps c r w co r' w'"
proof -
  have fd: "reactor_inv r" "0 \<le> st_fd (cn_stream c)" "st_fd (cn_stream c) < reactor_nfds r"
    using assms(2) by (simp_all add: conn_live_def)
  obtain s r2 os where pass: "conn_calls (mr_recv lib) (mr_send lib) (c\<lparr>cn_stream := s\<rparr>) r2 w os = Inr (co, r', w', bytes)"
    "st_fd s = st_fd (cn_stream c)" "reactor_inv r2" "reactor_nfds r2 = reactor_nfds r"
    "sendBuf s = sendBuf (cn_stream c)"
    by (rule lev.conn_event_pass [OF assms(1) fd assms(4)]) (rule that)
  have "conn_live r2 (c\<lparr>cn_stream := s\<rparr>)" using pass(2-4) assms(2) by (simp add: conn_live_def)
  from conn_calls_effect [OF pass(1) this assms(3)] pass(2-5) show ?thesis
    using conn_effect_stream by blast
qed

section \<open>Opening, reducing and letting go\<close>

lemma mr_onConnection_effect:
  assumes "mr_onConnection (lev_add lib) (removeEventHandler lib) (new_Stream fd a b) r w = Inr (co, r', w')"
    and "reactor_inv r" "0 < fd" "fd < reactor_nfds r" "mw_service w = Some sv"
    and "sv_connections sv fd = None" "mw_refs w = 0"
  obtains sv' where "mw_service w' = Some sv'" "sv_newConnectionCb sv' = sv_newConnectionCb sv"
    "reactor_inv r'" "reactor_nfds r' = reactor_nfds r"
    "case co of None \<Rightarrow> dom (sv_connections sv') = dom (sv_connections sv)
     | Some c \<Rightarrow> dom (sv_connections sv') = insert fd (dom (sv_connections sv)) \<and> cn_handle c = fd \<and>
         st_fd (cn_stream c) = fd \<and> mr_sendCall c = Some () \<and> mr_taskCount c = 0 \<and> mr_firstCome c"
proof -
  let ?s = "new_Stream fd a b :: ('a, unit) stream"
  let ?fresh = "\<lparr>cn_stream = ?s, cn_handle = fd, mr_firstCome = True, mr_taskCount = 0, mr_curMaxNum = 0,
    mr_stat = RECV_HEAD, mr_recvCall = None, mr_sendCall = None\<rparr>"
  let ?c = "?fresh\<lparr>mr_recvCall := Some (), mr_sendCall := Some ()\<rparr>"
  let ?sv = "sv\<lparr>sv_connections := (sv_connections sv)(fd \<mapsto> ?fresh)\<rparr>"
  have live: "0 \<le> st_fd ?s" "st_fd ?s < reactor_nfds r" "st_fd ?s = fd"
    using assms(3,4) by (simp_all add: new_Stream_def)
  have new: "new_MapReduceConnection ?s = Inr ?fresh"
    using assms(3) live(3) by (simp add: new_MapReduceConnection_def new_Connection_def getFd_def Let_def)
  have added: "addNewConnection sv ?fresh = (True, ?sv)"
    using assms(6) by (simp add: addNewConnection_def Connection_getHandle_def)
  note run = mr_onConnection_def mr_startReadOrWriteInService_def Let_def new added
  obtain ok s1 r1 where ask: "asyncRecvBytes (lev_add lib) ?s r 4 (Some ()) = Inr (ok, s1, r1)"
    using assms(1,5) by (auto simp: run and_then_Inr_iff)
  note f = lev.asyncRecvBytes_frame [OF ask assms(2) live(1,2)]
  show ?thesis
  proof (cases ok)
    case True
    with assms(1,5) ask have "co = Some (?c\<lparr>cn_stream := s1\<rparr>)" "r' = r1" "mw_service w' = Some ?sv"
      by (auto simp: run)
    with f live(3) show ?thesis by (intro that [of ?sv]) simp_all
  next
    case False
    with assms(1,5,7) ask obtain x y where x: "co = None" "mw_service w' = Some (removeConnection ?sv fd)"
      "delete_Stream (removeEventHandler lib) s1 r1 = Inr (x, y, r')"
      by (cases "delete_Stream (removeEventHandler lib) s1 r1")
        (auto simp: run mr_destroy_def Connection_destroy_def)
    have fd: "0 \<le> st_fd s1" "st_fd s1 < reactor_nfds r1" using f live by simp_all
    from x lev.delete_Stream_frame [OF x(3) f(2) fd] f(3) assms(6) show ?thesis
      by (intro that [of "removeConnection ?sv fd"]) (auto simp: removeConnection_def)
  qed
qed

section \<open>Counting messages and tasks\<close>

text \<open>The number a task for a path sends, and the numbers in messages for a handle.\<close>

definition path_num :: "files \<Rightarrow> string \<Rightarrow> int" where
  "path_num files path = (case extract_int (new_ifstream (files path)) None of
       (_, Some maxNum, file) \<Rightarrow> max_loop file None maxNum
     | _ \<Rightarrow> 0)"

lemma map_result_path_num:
  "map_result files h path = Inr m \<Longrightarrow> m = new_MapDoneConnectionMessage h (path_num files path)"
  by (auto simp: map_result_def path_num_def split: option.splits prod.splits)

lemma path_num_Max:
  assumes "file_nums files path \<noteq> {}"
  shows "path_num files path = Max (file_nums files path)"
proof -
  obtain content n f where "files path = Some content"
    "extract_int (new_ifstream (Some content)) None = (True, Some n, f)"
    "Max (insert n (set (ints f))) = Max (file_nums files path)"
    using file_first_number [OF assms] .
  then show ?thesis by (simp add: path_num_def max_loop_Max)
qed

fun msg_nums :: "int \<Rightarrow> 'd message list \<Rightarrow> int multiset" where
  "msg_nums h [] = {#}"
| "msg_nums h (m # q) = (case msg_class m of
       MapDoneConnectionMessage h' n \<Rightarrow> if h' = h then {#n#} else {#}
     | _ \<Rightarrow> {#}) + msg_nums h q"

lemma msg_nums_append [simp]: "msg_nums h (q @ q') = msg_nums h q + msg_nums h q'"
  by (induction q) (simp_all add: add.assoc)

lemma msg_nums_simps [simp]:
  "msg_nums h (new_NewConnectMessage fd # q) = msg_nums h q"
  "msg_nums h (new_MapDoneConnectionMessage h' n # q) = (if h' = h then {#n#} else {#}) + msg_nums h q"
  by (simp_all add: new_NewConnectMessage_def new_MapDoneConnectionMessage_def)

declare msg_nums.simps(2) [simp del]

lemma new_messages_class [simp]:
  "getHandle (msg_class (new_MapDoneConnectionMessage h n)) = Inr h"
  "getMaxNum (msg_class (new_MapDoneConnectionMessage h n)) = Inr n"
  "getHandle (msg_class (new_NewConnectMessage fd)) = Inl NullDereference"
  by (simp_all add: new_NewConnectMessage_def new_MapDoneConnectionMessage_def)

lemma new_messages_distinct [simp]:
  "new_NewConnectMessage fd \<noteq> new_MapDoneConnectionMessage h n"
  "new_MapDoneConnectionMessage h n \<noteq> new_NewConnectMessage fd"
  "new_NewConnectMessage fd = new_NewConnectMessage fd' \<longleftrightarrow> fd = fd'"
  by (simp_all add: new_NewConnectMessage_def new_MapDoneConnectionMessage_def)

text \<open>
  The messages in the queue are clients that were accepted and numbers of tasks; what comes after an
  accepted client is not about its descriptor.
\<close>

fun queue_ok :: "unit message list \<Rightarrow> bool" where
  "queue_ok [] = True"
| "queue_ok (m # q) \<longleftrightarrow> queue_ok q \<and>
     ((\<exists>fd. m = new_NewConnectMessage fd \<and> new_NewConnectMessage fd \<notin> set q \<and> msg_nums fd q = {#}) \<or>
      (\<exists>h n. m = new_MapDoneConnectionMessage h n))"

lemma queue_ok_new: "queue_ok q \<Longrightarrow> new_NewConnectMessage fd \<notin> set q \<Longrightarrow> queue_ok (q @ [new_NewConnectMessage fd])"
  by (induction q) auto

lemma queue_ok_done: "queue_ok q \<Longrightarrow> new_NewConnectMessage h \<notin> set q \<Longrightarrow>
    queue_ok (q @ [new_MapDoneConnectionMessage h n])"
  by (induction q) auto

lemma of_handle_simps [simp]:
  "of_handle h {#} = {#}" "of_handle h (A + B) = of_handle h A + of_handle h B"
  "of_handle h (add_mset t A) = (if fst (task_of t) = h then add_mset t (of_handle h A) else of_handle h A)"
  by (simp_all add: of_handle_def)

lemma task_of_new [simp]: "task_of (new_MapTask (Some x)) = x"
  by (simp add: task_of_def new_MapTask_def)

section \<open>The invariant\<close>

text \<open>
  \<open>out\<close> are the tasks still to be run, \<open>held\<close> all tasks that hold their connection, \<open>regs\<close> the
  handles the service knows, \<open>q\<close> the messages in its queue.
\<close>

definition objs_ok :: "int \<Rightarrow> (int \<rightharpoonup> 'cb mr_connection) \<Rightarrow> int set \<Rightarrow> mtask multiset \<Rightarrow> bool" where
  "objs_ok n objs regs held \<longleftrightarrow>
     (\<forall>h c. objs h = Some c \<longrightarrow> cn_handle c = h \<and> st_fd (cn_stream c) = h \<and>
       mr_sendCall c = Some () \<and> 0 < h \<and> h < n) \<and>
     regs \<subseteq> dom objs \<and> (\<forall>h \<in> dom objs - regs. of_handle h held \<noteq> {#}) \<and>
     (\<forall>t \<in># held. mt_runCallback t \<noteq> None \<and> fst (task_of t) \<in> dom objs)"

definition news_ok :: "int \<Rightarrow> (int \<rightharpoonup> 'cb mr_connection) \<Rightarrow> unit message list \<Rightarrow> bool" where
  "news_ok n objs q \<longleftrightarrow> queue_ok q \<and>
     (\<forall>fd. new_NewConnectMessage fd \<in> set q \<longrightarrow> 0 < fd \<and> fd < n \<and> fd \<notin> dom objs)"

definition counts_ok :: "files \<Rightarrow> 'cb mr_connection \<Rightarrow> string list \<Rightarrow> int list \<Rightarrow> int multiset \<Rightarrow> mtask multiset \<Rightarrow> bool" where
  "counts_ok files c ps dn ms ts \<longleftrightarrow>
     image_mset (path_num files) (mset ps) = mset dn + ms + image_mset (path_num files \<circ> snd \<circ> task_of) ts \<and>
     mr_taskCount c = int (length ps) - int (length dn) \<and>
     mr_seen c = (if dn = [] then {} else {Max (set dn)}) \<and>
     (mr_taskCount c = 0 \<and> dn \<noteq> [] \<longrightarrow> sendBuf (cn_stream c) = int_bytes (Max (set dn)))"

text \<open>A connection counts the tasks still to be run and the messages still to come.\<close>

lemma counts_ok_taskCount:
  assumes "counts_ok files c ps dn ms ts"
  shows "mr_taskCount c = int (size ms) + int (size ts)"
proof -
  have "size (image_mset (path_num files) (mset ps)) =
      size (mset dn + ms + image_mset (path_num files \<circ> snd \<circ> task_of) ts)"
    using assms unfolding counts_ok_def by (elim conjE) (rule arg_cong [where f = size])
  then show ?thesis using assms by (simp add: counts_ok_def)
qed

definition mrsys_inv :: "files \<Rightarrow> ('cb, 'k) mrsys \<Rightarrow> bool" where
  "mrsys_inv files s \<longleftrightarrow>
     crb_inv (tp_queue (sy_pool s)) \<and> None \<notin> set (crb_items (tp_queue (sy_pool s))) \<and>
     crb_inv (it_queue (sy_task s)) \<and> 0 \<le> it_eventFd (sy_task s) \<and>
     it_counter (sy_task s) = length (sy_queue s) \<and> crb_cap (it_queue (sy_task s)) = 49999 \<and>
     crb_cap (tp_queue (sy_pool s)) = 999 \<and> reactor_inv (sy_reactor s) \<and> sv_newConnectionCb (sy_service s) \<noteq> None \<and>
     objs_ok (reactor_nfds (sy_reactor s)) (sy_objs s) (dom (sv_connections (sy_service s))) (tasks_held s) \<and>
     news_ok (reactor_nfds (sy_reactor s)) (sy_objs s) (sy_queue s) \<and>
     (\<forall>h \<in> dom (sv_connections (sy_service s)). counts_ok files (the (sy_objs s h)) (sy_asked s h)
       (sy_done s h) (msg_nums h (sy_queue s)) (of_handle h (tasks_out s)))"

section \<open>The invariant is kept\<close>

lemma mrsys_invD:
  assumes "mrsys_inv files s"
  shows "crb_inv (tp_queue (sy_pool s))" "None \<notin> set (crb_items (tp_queue (sy_pool s)))"
    "crb_inv (it_queue (sy_task s))" "0 \<le> it_eventFd (sy_task s)"
    "it_counter (sy_task s) = length (sy_queue s)" "reactor_inv (sy_reactor s)"
    "sv_newConnectionCb (sy_service s) \<noteq> None"
    "objs_ok (reactor_nfds (sy_reactor s)) (sy_objs s) (dom (sv_connections (sy_service s))) (tasks_held s)"
    "news_ok (reactor_nfds (sy_reactor s)) (sy_objs s) (sy_queue s)"
    "\<And>h. h \<in> dom (sv_connections (sy_service s)) \<Longrightarrow> counts_ok files (the (sy_objs s h)) (sy_asked s h)
       (sy_done s h) (msg_nums h (sy_queue s)) (of_handle h (tasks_out s))"
    "crb_cap (it_queue (sy_task s)) = 49999 \<and> crb_cap (tp_queue (sy_pool s)) = 999"
  using assms by (auto simp: mrsys_inv_def)

lemma of_handle_out: "of_handle h (tasks_held s) = {#} \<Longrightarrow> of_handle h (tasks_out s) = {#}"
  by (simp add: tasks_held_def)

lemma objs_okD:
  assumes "objs_ok n objs regs held"
  shows "objs h = Some c \<Longrightarrow> cn_handle c = h \<and> st_fd (cn_stream c) = h \<and> mr_sendCall c = Some () \<and> 0 < h \<and> h < n"
    "objs h = None \<Longrightarrow> of_handle h held = {#}" "h \<in> regs \<Longrightarrow> objs h \<noteq> None"
    "h \<notin> regs \<Longrightarrow> objs h \<noteq> None \<Longrightarrow> of_handle h held \<noteq> {#}"
    "t \<in># held \<Longrightarrow> mt_runCallback t \<noteq> None \<and> objs (fst (task_of t)) \<noteq> None"
proof -
  show "objs h = None \<Longrightarrow> of_handle h held = {#}"
    using assms by (fastforce simp: objs_ok_def of_handle_def filter_mset_eq_mempty_iff dom_def)
qed (use assms in \<open>auto simp: objs_ok_def dom_def\<close>)

lemma queue_head:
  assumes "queue_ok (m # q)"
  obtains fd where "m = new_NewConnectMessage fd" "new_NewConnectMessage fd \<notin> set q" "msg_nums fd q = {#}"
  | h n where "m = new_MapDoneConnectionMessage h n"
  using assms by auto

lemma nws_onMessage_new [simp]:
  "nws_onMessage sv (new_NewConnectMessage fd) = Inr (newStream sv fd)"
  "nws_onMessage sv (new_MapDoneConnectionMessage h n) = (case sv_connections sv h of
     Some c \<Rightarrow> Inr (Deliver c (new_MapDoneConnectionMessage h n)) | None \<Rightarrow> Inr (UnknownHandle h))"
  by (simp_all add: nws_onMessage_def getWhat_def new_NewConnectMessage_def new_MapDoneConnectionMessage_def
      split: option.split)

lemma newStream_cases [simp]:
  "newStream sv fd = CallNewConnection k fd' \<longleftrightarrow> sv_newConnectionCb sv = Some k \<and> fd = fd'"
  "newStream sv fd \<noteq> Deliver c m" "newStream sv fd \<noteq> UnknownHandle h"
  by (auto simp: newStream_def split: option.splits)

lemma step_accept:
  assumes "mrsys_inv files s" "0 < fd" "fd < reactor_nfds (sy_reactor s)" "sy_objs s fd = None"
    and "new_NewConnectMessage fd \<notin> set (sy_queue s)"
    and "notifyMsg (sy_task s) (new_NewConnectMessage fd) = Inr (Some (e, t))"
  shows "mrsys_inv files (s\<lparr>sy_task := t\<rparr>)"
proof -
  note inv = mrsys_invD [OF assms(1)]
  note t = notifyMsg_Some [OF assms(6) inv(3,4)]
  have "news_ok (reactor_nfds (sy_reactor s)) (sy_objs s) (crb_items (it_queue t))"
    using inv(9) assms(2-5) t(1) queue_ok_new by (auto simp: news_ok_def)
  moreover have "tasks_out (s\<lparr>sy_task := t\<rparr>) = tasks_out s" "tasks_held (s\<lparr>sy_task := t\<rparr>) = tasks_held s"
    by (simp_all add: tasks_out_def tasks_held_def)
  ultimately show ?thesis using inv t by (simp add: mrsys_inv_def)
qed

lemma step_dropped:
  assumes "mrsys_inv files s" "it_round (sy_task s) = Inr (Some (m, t))"
    and "nws_onMessage (sy_service s) m = Inr (UnknownHandle h)"
  shows "mrsys_inv files (s\<lparr>sy_task := t\<rparr>)"
proof -
  note inv = mrsys_invD [OF assms(1)]
  note t = it_round_Some [OF assms(2) inv(3,5)]
  have q: "queue_ok (m # crb_items (it_queue t))" using inv(9) t(1) by (simp add: news_ok_def)
  then obtain n where m: "m = new_MapDoneConnectionMessage h n" "h \<notin> dom (sv_connections (sy_service s))"
    using assms(3) by (cases rule: queue_head) (auto split: option.splits)
  have nums: "msg_nums h' (sy_queue s) = msg_nums h' (crb_items (it_queue t))"
    if "h' \<in> dom (sv_connections (sy_service s))" for h'
    using that m by (auto simp: t(1))
  have "tasks_out (s\<lparr>sy_task := t\<rparr>) = tasks_out s" "tasks_held (s\<lparr>sy_task := t\<rparr>) = tasks_held s"
    by (simp_all add: tasks_out_def tasks_held_def)
  moreover have "news_ok (reactor_nfds (sy_reactor s)) (sy_objs s) (crb_items (it_queue t))"
    using inv(9) q by (simp add: news_ok_def t(1))
  ultimately show ?thesis using inv(1-8,11) inv(10) [unfolded nums] t(2-5) nums by (simp add: mrsys_inv_def)
qed

lemma step_post:
  assumes "mrsys_inv files s" "sy_pending s = t # ts" "syncPostTask (sy_pool s) (Some t) = Inr (Some p)"
  shows "mrsys_inv files (s\<lparr>sy_pool := p, sy_pending := ts\<rparr>)"
proof -
  let ?s = "s\<lparr>sy_pool := p, sy_pending := ts\<rparr>"
  note inv = mrsys_invD [OF assms(1)]
  from post_items(1) [OF inv(1) assms(3)]
  have p: "crb_inv (tp_queue p)" "crb_items (tp_queue p) = crb_items (tp_queue (sy_pool s)) @ [Some t]"
    "crb_cap (tp_queue p) = crb_cap (tp_queue (sy_pool s))" by auto
  then have "tasks_out ?s = tasks_out s" using assms(2) by (simp add: tasks_out_def)
  moreover from this have "tasks_held ?s = tasks_held s" by (simp add: tasks_held_def)
  ultimately show ?thesis using inv p by (simp add: mrsys_inv_def)
qed

lemma step_fetch:
  assumes "mrsys_inv files s" "i < length (sy_workers s)" "sy_workers s ! i = MFetch"
    and "threadEntry (sy_pool s) = Inr (Some (t, p))"
  shows "mrsys_inv files (s\<lparr>sy_pool := p, sy_workers := (sy_workers s)[i := MRun t]\<rparr>)"
proof -
  let ?s = "s\<lparr>sy_pool := p, sy_workers := (sy_workers s)[i := MRun t]\<rparr>"
  note inv = mrsys_invD [OF assms(1)]
  note p = threadEntry_Some [OF assms(4) inv(1,2)]
  have "tasks_out ?s = tasks_out s" "tasks_held ?s = tasks_held s"
    using sum_workers [OF assms(2), of to_run "MRun t"] sum_workers [OF assms(2), of to_release "MRun t"]
      assms(3) p(1) by (simp_all add: tasks_out_def tasks_held_def)
  then show ?thesis using inv p by (auto simp: mrsys_inv_def)
qed

lemma step_run:
  assumes "mrsys_inv files s" "i < length (sy_workers s)" "sy_workers s ! i = MRun t"
    and "mt_runCallback t = Some (h, path)"
    and "mapFunction files (map_option cn_handle (sy_objs s h)) path (Some (sy_task s)) = Inr (Some (Some t'))"
  shows "mrsys_inv files (s\<lparr>sy_task := t', sy_workers := (sy_workers s)[i := MDone t]\<rparr>)"
proof -
  let ?s = "s\<lparr>sy_task := t', sy_workers := (sy_workers s)[i := MDone t]\<rparr>"
  note inv = mrsys_invD [OF assms(1)]
  have out: "tasks_out s = add_mset t (tasks_out ?s)" "tasks_held ?s = tasks_held s"
    using sum_workers [OF assms(2), of to_run "MDone t"] sum_workers [OF assms(2), of to_release "MDone t"]
      assms(3) by (simp_all add: tasks_out_def tasks_held_def)
  have t: "task_of t = (h, path)" using assms(4) by (simp add: task_of_def)
  have "t \<in># tasks_held s" using out(1) by (simp add: tasks_held_def)
  then obtain c where c: "sy_objs s h = Some c" "cn_handle c = h"
    using objs_okD(5) [OF inv(8)] objs_okD(1) [OF inv(8)] t by fastforce
  let ?m = "new_MapDoneConnectionMessage h (path_num files path)"
  obtain e where "notifyMsg (sy_task s) ?m = Inr (Some (e, t'))"
    using assms(5) c map_result_path_num [of files h path]
    by (auto simp: mapFunction_def and_then_Inr_iff)
  note n = notifyMsg_Some [OF this inv(3,4)]
  have "new_NewConnectMessage h \<notin> set (sy_queue s)" using inv(9) c by (auto simp: news_ok_def)
  then have news: "news_ok (reactor_nfds (sy_reactor s)) (sy_objs s) (crb_items (it_queue t'))"
    using inv(9) n(1) queue_ok_done by (auto simp: news_ok_def)
  have "counts_ok files (the (sy_objs s k)) (sy_asked s k) (sy_done s k) (msg_nums k (crb_items (it_queue t')))
      (of_handle k (tasks_out ?s))" if "k \<in> dom (sv_connections (sy_service s))" for k
    using inv(10) [OF that] out(1) t by (auto simp: counts_ok_def n(1) ac_simps split: if_splits)
  then show ?thesis using inv(1-8,11) news n(2-5) out(2) by (simp add: mrsys_inv_def n(1))
qed

lemma step_release:
  assumes "mrsys_inv files s" "i < length (sy_workers s)" "sy_workers s ! i = MDone t"
    and "mt_runCallback t = Some (h, path)" "sy_objs s h = Some c"
    and "mr_release (removeEventHandler lib) c (sy_reactor s) (sy_world s h) = Inr (co, r, w)"
  shows "mrsys_inv files (s\<lparr>sy_objs := (sy_objs s)(h := co), sy_reactor := r,
      sy_workers := (sy_workers s)[i := MFetch]\<rparr>)"
proof -
  let ?s = "s\<lparr>sy_objs := (sy_objs s)(h := co), sy_reactor := r, sy_workers := (sy_workers s)[i := MFetch]\<rparr>"
  let ?regs = "dom (sv_connections (sy_service s))"
  note inv = mrsys_invD [OF assms(1)]
  have out: "tasks_out ?s = tasks_out s" "tasks_held s = add_mset t (tasks_held ?s)"
    using sum_workers [OF assms(2), of to_run MFetch] sum_workers [OF assms(2), of to_release MFetch]
      assms(3) by (simp_all add: tasks_out_def tasks_held_def)
  have t: "fst (task_of t) = h" using assms(4) by (simp add: task_of_def)
  have c: "cn_handle c = h" "0 \<le> st_fd (cn_stream c)" "st_fd (cn_stream c) < reactor_nfds (sy_reactor s)"
    using objs_okD(1) [OF inv(8) assms(5)] by auto
  have refs: "mw_refs (sy_world s h) - 1 = size (of_handle h (tasks_held ?s))"
    unfolding sy_world_def out(2) using t by simp
  let ?keep = "0 < size (of_handle h (tasks_held ?s)) \<or> h \<in> ?regs"
  have keep: "co = (if ?keep then Some c else None)" "reactor_inv r" "reactor_nfds r = reactor_nfds (sy_reactor s)"
    using assms(6) lev.delete_Stream_frame [OF _ inv(6) c(2,3)] inv(6) refs c(1)
    by (auto simp: mr_release_def Let_def sy_world_def and_then_Inr_iff dom_def split: if_splits)
  have gone: "of_handle h (tasks_held ?s) = {#}" if "\<not> ?keep" using that by simp
  have "objs_ok (reactor_nfds r) ((sy_objs s)(h := co)) ?regs (tasks_held ?s)"
  proof (cases ?keep)
    case True
    then have same: "(sy_objs s)(h := co) = sy_objs s" using keep(1) assms(5) by auto
    have "of_handle k (tasks_held ?s) \<noteq> {#}" if "k \<in> dom (sy_objs s) - ?regs" for k
      using objs_okD(4) [OF inv(8), of k] that True t by (cases "k = h") (auto simp: out(2))
    moreover have "\<forall>u \<in># tasks_held ?s. mt_runCallback u \<noteq> None \<and> fst (task_of u) \<in> dom (sy_objs s)"
      using objs_okD(5) [OF inv(8)] by (auto simp: out(2))
    ultimately show ?thesis using inv(8) keep(3) unfolding same by (simp add: objs_ok_def)
  next
    case False
    then have co: "co = None" "h \<notin> ?regs" using keep(1) by auto
    have "of_handle k (tasks_held ?s) \<noteq> {#}" if "k \<in> dom (sy_objs s) - {h} - ?regs" for k
      using objs_okD(4) [OF inv(8), of k] that t by (auto simp: out(2))
    moreover have "mt_runCallback u \<noteq> None \<and> fst (task_of u) \<in> dom (sy_objs s) - {h}" if "u \<in># tasks_held ?s" for u
      using objs_okD(5) [OF inv(8), of u] that gone [OF False]
      by (auto simp: out(2) of_handle_def filter_mset_eq_mempty_iff)
    ultimately show ?thesis using inv(8) keep(3) co by (auto simp: objs_ok_def)
  qed
  moreover have "news_ok (reactor_nfds r) ((sy_objs s)(h := co)) (sy_queue s)"
    using inv(9) keep(3) assms(5) by (auto simp: news_ok_def)
  moreover have "the (((sy_objs s)(h := co)) k) = the (sy_objs s k)" if "k \<in> ?regs" for k
  proof -
    have "co = Some c" if "h \<in> ?regs" using keep(1) that by (simp only: simp_thms if_True)
    with assms(5) that show ?thesis by (cases "k = h") simp_all
  qed
  ultimately show ?thesis using inv(1-7,10,11) keep(2) out(1) by (simp add: mrsys_inv_def)
qed

lemma mr_onMessage_effect:
  assumes "mr_onMessage (lev_add lib) c r (new_MapDoneConnectionMessage h n) = Inr (c', r')" "conn_live r c"
  shows "cn_handle c' = cn_handle c" "st_fd (cn_stream c') = st_fd (cn_stream c)" "reactor_inv r'"
    "reactor_nfds r' = reactor_nfds r" "mr_taskCount c' = mr_taskCount c - 1"
    "mr_seen c' = {Max (insert n (mr_seen c))}" "mr_sendCall c' = mr_sendCall c"
    "mr_taskCount c' = 0 \<Longrightarrow> mr_sendCall c = Some () \<Longrightarrow>
      sendBuf (cn_stream c') = int_bytes (Max (insert n (mr_seen c)))"
proof -
  let ?c = "c\<lparr>mr_firstCome := False, mr_taskCount := mr_taskCount c - 1,
            mr_curMaxNum := Max (insert n (mr_seen c))\<rparr>"
  have live: "reactor_inv r" "0 \<le> st_fd (cn_stream c)" "st_fd (cn_stream c) < reactor_nfds r"
    using assms(2) by (simp_all add: conn_live_def)
  have "cn_handle c' = cn_handle c \<and> st_fd (cn_stream c') = st_fd (cn_stream c) \<and> reactor_inv r' \<and>
    reactor_nfds r' = reactor_nfds r \<and> mr_taskCount c' = mr_taskCount c - 1 \<and>
    mr_seen c' = {Max (insert n (mr_seen c))} \<and> mr_sendCall c' = mr_sendCall c \<and>
    (mr_taskCount c' = 0 \<longrightarrow> mr_sendCall c = Some () \<longrightarrow>
      sendBuf (cn_stream c') = int_bytes (Max (insert n (mr_seen c))))"
  proof (cases "mr_taskCount ?c = 0")
    case True
    with assms(1) obtain b s' where a: "c' = ?c\<lparr>cn_stream := s'\<rparr>"
      "asyncSendBytes (lev_add lib) (cn_stream c) r (int_bytes (mr_curMaxNum ?c)) (mr_sendCall c) = Inr (b, s', r')"
      by (auto simp: mr_onMessage_done and_then_Inr_iff Let_def)
    moreover have "sendBuf s' = int_bytes (mr_curMaxNum ?c)" if "mr_sendCall c = Some ()"
      using asyncSendBytes_cases [OF a(2)] a(2) that
      by (auto simp: asyncSendBytes_def DEFAULT_BUFF_LEN_def int_of_size_small and_then_Inr_iff)
    ultimately show ?thesis using lev.asyncSendBytes_frame [OF a(2) live] by (simp add: mr_seen_def)
  next
    case False
    with assms(1) have "c' = ?c" "r' = r" by (simp_all add: mr_onMessage_done Let_def)
    with live False show ?thesis by (simp add: mr_seen_def)
  qed
  then show "cn_handle c' = cn_handle c" "st_fd (cn_stream c') = st_fd (cn_stream c)" "reactor_inv r'"
    "reactor_nfds r' = reactor_nfds r" "mr_taskCount c' = mr_taskCount c - 1"
    "mr_seen c' = {Max (insert n (mr_seen c))}" "mr_sendCall c' = mr_sendCall c"
    "mr_taskCount c' = 0 \<Longrightarrow> mr_sendCall c = Some () \<Longrightarrow>
      sendBuf (cn_stream c') = int_bytes (Max (insert n (mr_seen c)))" by blast+
qed

lemma step_deliver:
  assumes "mrsys_inv files s" "it_round (sy_task s) = Inr (Some (m, t))"
    and "nws_onMessage (sy_service s) m = Inr (Deliver c0 m)" "getHandle (msg_class m) = Inr h"
    and "sy_objs s h = Some c" "mr_onMessage (lev_add lib) c (sy_reactor s) m = Inr (c', r)"
    and "getMaxNum (msg_class m) = Inr n"
  shows "mrsys_inv files (s\<lparr>sy_task := t, sy_objs := (sy_objs s)(h \<mapsto> c'), sy_reactor := r,
      sy_done := (sy_done s)(h := sy_done s h @ [n])\<rparr>)"
proof -
  let ?s = "s\<lparr>sy_task := t, sy_objs := (sy_objs s)(h \<mapsto> c'), sy_reactor := r,
      sy_done := (sy_done s)(h := sy_done s h @ [n])\<rparr>"
  let ?regs = "dom (sv_connections (sy_service s))"
  note inv = mrsys_invD [OF assms(1)]
  note t = it_round_Some [OF assms(2) inv(3,5)]
  have q: "queue_ok (m # crb_items (it_queue t))" using inv(9) t(1) by (simp add: news_ok_def)
  then have m: "m = new_MapDoneConnectionMessage h n" "h \<in> ?regs" using assms(3,4,7)
    by (cases rule: queue_head, auto split: option.splits)
  have c: "cn_handle c = h" "st_fd (cn_stream c) = h" "conn_live (sy_reactor s) c"
    using objs_okD(1) [OF inv(8) assms(5)] inv(6) by (auto simp: conn_live_def)
  note eff = mr_onMessage_effect [OF assms(6) [unfolded m(1)] c(3)]
  have same: "tasks_out ?s = tasks_out s" "tasks_held ?s = tasks_held s"
    by (simp_all add: tasks_out_def tasks_held_def)
  have dom: "dom ((sy_objs s)(h \<mapsto> c')) = dom (sy_objs s)" using assms(5) by auto
  have "objs_ok (reactor_nfds r) ((sy_objs s)(h \<mapsto> c')) ?regs (tasks_held s)"
    using inv(8) eff(1,2,4,7) c(1,2) objs_okD(1) [OF inv(8) assms(5)] unfolding objs_ok_def dom by auto
  moreover have "news_ok (reactor_nfds r) ((sy_objs s)(h \<mapsto> c')) (crb_items (it_queue t))"
    using inv(9) q eff(4) unfolding news_ok_def dom by (simp add: t(1))
  moreover have "counts_ok files (the (((sy_objs s)(h \<mapsto> c')) k)) (sy_asked s k) (sy_done ?s k)
      (msg_nums k (crb_items (it_queue t))) (of_handle k (tasks_out s))" if k: "k \<in> ?regs" for k
  proof (cases "k = h")
    case False
    with inv(10) [OF k] show ?thesis by (simp add: t(1) m(1))
  next
    case True
    let ?dn = "sy_done s h"
    have co: "counts_ok files c (sy_asked s h) ?dn (add_mset n (msg_nums h (crb_items (it_queue t))))
        (of_handle h (tasks_out s))"
      using inv(10) [OF m(2)] assms(5) by (simp add: t(1) m(1))
    have "Max (insert n (mr_seen c)) = Max (set (?dn @ [n]))"
      using co by (cases "?dn = []") (simp_all add: counts_ok_def)
    moreover have "mr_sendCall c = Some ()" using objs_okD(1) [OF inv(8) assms(5)] by simp
    ultimately show ?thesis using co eff(5,6,8) True by (simp add: counts_ok_def)
  qed
  ultimately show ?thesis using inv(1-7,11) t(2-5) eff(3) same by (simp add: mrsys_inv_def)
qed

lemma accepted_head:
  assumes "mrsys_inv files s" "sy_queue s = new_NewConnectMessage fd # q"
  shows "0 < fd" "fd < reactor_nfds (sy_reactor s)" "sy_objs s fd = None"
    "of_handle fd (tasks_held s) = {#}" "sv_connections (sy_service s) fd = None"
    "mw_service (sy_world s fd) = Some (sy_service s)" "mw_refs (sy_world s fd) = 0"
proof -
  note inv = mrsys_invD [OF assms(1)]
  show fd: "0 < fd" "fd < reactor_nfds (sy_reactor s)" "sy_objs s fd = None"
    using inv(9) assms(2) by (auto simp: news_ok_def)
  show none: "of_handle fd (tasks_held s) = {#}" using objs_okD(2) [OF inv(8) fd(3)] .
  then show "mw_service (sy_world s fd) = Some (sy_service s)" "mw_refs (sy_world s fd) = 0"
    by (simp_all add: sy_world_def)
  show "sv_connections (sy_service s) fd = None" using objs_okD(3) [OF inv(8), of fd] fd(3) by auto
qed

lemma connect_head:
  assumes "mrsys_inv files s" "it_round (sy_task s) = Inr (Some (m, t))"
    and "nws_onMessage (sy_service s) m = Inr (CallNewConnection k fd)"
  shows "m = new_NewConnectMessage fd" "sy_queue s = new_NewConnectMessage fd # crb_items (it_queue t)"
    "new_NewConnectMessage fd \<notin> set (crb_items (it_queue t))" "msg_nums fd (crb_items (it_queue t)) = {#}"
proof -
  note inv = mrsys_invD [OF assms(1)]
  note t = it_round_Some(1) [OF assms(2) inv(3,5)]
  have "queue_ok (m # crb_items (it_queue t))" using inv(9) t by (simp add: news_ok_def)
  then show m: "m = new_NewConnectMessage fd" "new_NewConnectMessage fd \<notin> set (crb_items (it_queue t))"
    "msg_nums fd (crb_items (it_queue t)) = {#}"
    using assms(3) by (cases rule: queue_head, auto split: option.splits)+
  show "sy_queue s = new_NewConnectMessage fd # crb_items (it_queue t)" using t m(1) by simp
qed

lemma step_connect:
  assumes "mrsys_inv files s" "it_round (sy_task s) = Inr (Some (m, t))"
    and "nws_onMessage (sy_service s) m = Inr (CallNewConnection k fd)"
    and "mr_onConnection (lev_add lib) (removeEventHandler lib) (new_Stream fd a b) (sy_reactor s)
      (sy_world s fd) = Inr (co, r, w)" "mw_service w = Some sv"
  shows "mrsys_inv files (s\<lparr>sy_task := t, sy_service := sv, sy_objs := (sy_objs s)(fd := co),
      sy_reactor := r, sy_asked := (sy_asked s)(fd := []), sy_done := (sy_done s)(fd := [])\<rparr>)"
proof -
  let ?s = "s\<lparr>sy_task := t, sy_service := sv, sy_objs := (sy_objs s)(fd := co),
      sy_reactor := r, sy_asked := (sy_asked s)(fd := []), sy_done := (sy_done s)(fd := [])\<rparr>"
  let ?regs = "dom (sv_connections (sy_service s))"
  note inv = mrsys_invD [OF assms(1)]
  note t = it_round_Some [OF assms(2) inv(3,5)]
  have q: "queue_ok (m # crb_items (it_queue t))" using inv(9) t(1) by (simp add: news_ok_def)
  note m = connect_head(1,3,4) [OF assms(1-3)]
  note fd = accepted_head [OF assms(1) connect_head(2) [OF assms(1-3)]]
  note none = fd(4) and free = fd(5) and world = fd(6,7)
  have unreg: "fd \<notin> ?regs" using free by auto
  obtain sv' where e: "mw_service w = Some sv'" "sv_newConnectionCb sv' = sv_newConnectionCb (sy_service s)"
    "reactor_inv r" "reactor_nfds r = reactor_nfds (sy_reactor s)"
    "case co of None \<Rightarrow> dom (sv_connections sv') = ?regs
     | Some c \<Rightarrow> dom (sv_connections sv') = insert fd ?regs \<and> cn_handle c = fd \<and>
         st_fd (cn_stream c) = fd \<and> mr_sendCall c = Some () \<and> mr_taskCount c = 0 \<and> mr_firstCome c"
    by (rule mr_onConnection_effect [OF assms(4) inv(6) fd(1,2) world(1) free world(2)]) (rule that)
  have sv: "sv' = sv" using e(1) assms(5) by simp
  have same: "tasks_out ?s = tasks_out s" "tasks_held ?s = tasks_held s"
    by (simp_all add: tasks_out_def tasks_held_def)
  have "objs_ok (reactor_nfds r) ((sy_objs s)(fd := co)) (dom (sv_connections sv)) (tasks_held s)"
  proof (cases co)
    case None
    with e(4,5) inv(8) fd(3) sv show ?thesis by (simp add: fun_upd_idem)
  next
    case (Some c)
    with e(4,5) inv(8) fd sv unreg show ?thesis by (auto simp: objs_ok_def)
  qed
  moreover have "news_ok (reactor_nfds r) ((sy_objs s)(fd := co)) (crb_items (it_queue t))"
    using inv(9) q m(2) e(4) by (auto simp: news_ok_def t(1))
  moreover have "counts_ok files (the (((sy_objs s)(fd := co)) h)) (sy_asked ?s h) (sy_done ?s h)
      (msg_nums h (crb_items (it_queue t))) (of_handle h (tasks_out s))"
    if h: "h \<in> dom (sv_connections sv)" for h
  proof (cases "h = fd")
    case True
    with h e(5) sv unreg obtain c where "co = Some c" "mr_taskCount c = 0" "mr_firstCome c"
      by (cases co) auto
    with True m(3) of_handle_out [OF none] show ?thesis by (simp add: counts_ok_def mr_seen_def)
  next
    case False
    then have "h \<in> ?regs" using h e(5) sv by (cases co) auto
    from inv(10) [OF this] False m(1) show ?thesis by (simp add: t(1))
  qed
  ultimately show ?thesis using inv(1-5,7,11) t(2-5) e(2,3) sv same by (simp add: mrsys_inv_def)
qed

text \<open>The tasks a callback of the connection \<open>h\<close> makes for the paths \<open>ps\<close>.\<close>

abbreviation new_tasks :: "int \<Rightarrow> string list \<Rightarrow> mtask list" where
  "new_tasks h ps \<equiv> map (\<lambda>path. new_MapTask (Some (h, path))) ps"

lemma new_tasks_facts:
  "of_handle k (mset (new_tasks h ps)) = (if k = h then mset (new_tasks h ps) else {#})"
  "map (snd \<circ> task_of) (new_tasks h ps) = ps"
  "u \<in># mset (new_tasks h ps) \<Longrightarrow> mt_runCallback u \<noteq> None \<and> fst (task_of u) = h"
  "image_mset (path_num files \<circ> snd \<circ> task_of) (mset (new_tasks h ps)) = image_mset (path_num files) (mset ps)"
proof -
  show "of_handle k (mset (new_tasks h ps)) = (if k = h then mset (new_tasks h ps) else {#})"
    by (induction ps) (auto simp del: mset_map split: if_splits)
  show "u \<in># mset (new_tasks h ps) \<Longrightarrow> mt_runCallback u \<noteq> None \<and> fst (task_of u) = h"
    by (auto simp: new_MapTask_def task_of_def)
  show "map (snd \<circ> task_of) (new_tasks h ps) = ps" by (induction ps) simp_all
  show "image_mset (path_num files \<circ> snd \<circ> task_of) (mset (new_tasks h ps)) = image_mset (path_num files) (mset ps)"
    by (simp add: multiset.map_comp comp_def)
qed

text \<open>A connection that changes, makes tasks, and may be forgotten by the service if a task holds it.\<close>

lemma objs_ok_update:
  assumes "objs_ok n objs regs held" "objs h = Some c" "cn_handle c' = h" "st_fd (cn_stream c') = h"
    and "mr_sendCall c' = mr_sendCall c" "regs' \<subseteq> regs" "regs - {h} \<subseteq> regs'"
    and "h \<in> regs - regs' \<Longrightarrow> of_handle h (mset (new_tasks h ps) + held) \<noteq> {#}"
  shows "objs_ok n (objs(h \<mapsto> c')) regs' (mset (new_tasks h ps) + held)"
proof -
  note old = objs_okD [OF assms(1)]
  have "of_handle k (mset (new_tasks h ps) + held) \<noteq> {#}" if "k \<in> dom objs - regs'" for k
  proof (cases "k \<in> regs")
    case True
    then have "k = h" using assms(7) that by blast
    then show ?thesis using assms(8) True that by blast
  next
    case False
    then show ?thesis using old(4) [of k] that by auto
  qed
  moreover have "mt_runCallback u \<noteq> None \<and> fst (task_of u) \<in> dom objs"
    if "u \<in># mset (new_tasks h ps) + held" for u
  proof -
    from that consider "u \<in># mset (new_tasks h ps)" | "u \<in># held" by auto
    then show ?thesis using new_tasks_facts(3) [of u h ps] old(5) [of u] assms(2) by cases auto
  qed
  moreover have "regs' \<subseteq> dom objs" using assms(6) old(3) by auto
  moreover have "dom (objs(h \<mapsto> c')) = dom objs" using assms(2) by auto
  ultimately show ?thesis using old(1) assms(2-5) unfolding objs_ok_def by simp
qed

lemma counts_ok_update:
  assumes "counts_ok files c ps dn ms ts" "mr_taskCount c' = mr_taskCount c + int (length qs)"
    and "mr_seen c' = mr_seen c" "sendBuf (cn_stream c') = sendBuf (cn_stream c)"
  shows "counts_ok files c' (ps @ qs) dn ms (mset (new_tasks h qs) + ts)"
proof -
  have "0 \<le> mr_taskCount c" using counts_ok_taskCount [OF assms(1)] by simp
  then show ?thesis using assms new_tasks_facts(4) [of files h qs]
    by (simp add: counts_ok_def ac_simps)
qed

text \<open>What an event of a connection leaves, by \<open>conn_event_effect\<close>.\<close>

lemma event_effect:
  assumes "mrsys_inv files s" "sy_objs s h = Some c" "reactor_handler (sy_reactor s) (h, ev_dir ev) \<noteq> None"
    and "conn_event (lev_add lib) dispatch (mr_recv lib) (mr_send lib) c (sy_reactor s) (sy_world s h) ev =
      Inr (co, r, w, bytes)"
  obtains ps where "conn_effect ps c (sy_reactor s) (sy_world s h) co r w" "cn_handle c = h"
    "st_fd (cn_stream c) = h" "mw_posted w = new_tasks h ps"
    "mw_refs w = size (of_handle h (mset (new_tasks h ps) + tasks_held s))"
    "reactor_inv r" "reactor_nfds r = reactor_nfds (sy_reactor s)"
proof -
  note inv = mrsys_invD [OF assms(1)]
  have c: "cn_handle c = h" "st_fd (cn_stream c) = h" "conn_live (sy_reactor s) c"
    using objs_okD(1) [OF inv(8) assms(2)] inv(6) by (auto simp: conn_live_def)
  have "mw_service (sy_world s h) \<noteq> None" by (simp add: sy_world_def)
  from conn_event_effect [OF assms(4) c(3) this] assms(3) c(2)
  obtain ps where e: "conn_effect ps c (sy_reactor s) (sy_world s h) co r w" by auto
  have "size (of_handle h (mset (new_tasks h ps))) = length ps" using new_tasks_facts(1) [of h h ps] by simp
  moreover have "mw_posted w = new_tasks h ps" "mw_refs w = size (of_handle h (tasks_held s)) + length ps"
    "reactor_inv r" "reactor_nfds r = reactor_nfds (sy_reactor s)"
    using e c(1) by (simp_all add: conn_effect_def sy_world_def)
  ultimately show ?thesis using e c(1,2) by (intro that [of ps]) simp_all
qed

lemma step_event_deleted:
  assumes "mrsys_inv files s" "sy_objs s h = Some c"
    and "conn_effect ps c (sy_reactor s) (sy_world s h) None r w" "cn_handle c = h"
    and "mw_refs w = size (of_handle h (mset (new_tasks h ps) + tasks_held s))" "mw_service w = Some sv"
    and "reactor_inv r" "reactor_nfds r = reactor_nfds (sy_reactor s)"
  shows "ps = [] \<and> mrsys_inv files (s\<lparr>sy_service := sv, sy_objs := (sy_objs s)(h := None), sy_reactor := r\<rparr>)"
proof -
  let ?s = "s\<lparr>sy_service := sv, sy_objs := (sy_objs s)(h := None), sy_reactor := r\<rparr>"
  note inv = mrsys_invD [OF assms(1)]
  have n: "mw_refs w = 0" "sv = removeConnection (sy_service s) h"
    using assms(3,4,6) by (auto simp: conn_effect_def sy_world_def)
  then have gone: "ps = []" "of_handle h (tasks_held s) = {#}"
    using assms(5) new_tasks_facts(1) [of h h ps] by simp_all
  have same: "tasks_out ?s = tasks_out s" "tasks_held ?s = tasks_held s"
    by (simp_all add: tasks_out_def tasks_held_def)
  have "objs_ok (reactor_nfds r) ((sy_objs s)(h := None)) (dom (sv_connections sv)) (tasks_held s)"
    using inv(8) gone(2) n(2) assms(8)
    by (auto simp: objs_ok_def removeConnection_def of_handle_def filter_mset_eq_mempty_iff)
  moreover have "news_ok (reactor_nfds r) ((sy_objs s)(h := None)) (sy_queue s)"
    using inv(9) assms(8) by (auto simp: news_ok_def)
  moreover have "counts_ok files (the (((sy_objs s)(h := None)) k)) (sy_asked s k) (sy_done s k)
      (msg_nums k (sy_queue s)) (of_handle k (tasks_out s))" if "k \<in> dom (sv_connections sv)" for k
    using inv(10) [of k] that n(2) by (auto simp: removeConnection_def)
  moreover have "sv_newConnectionCb sv \<noteq> None" using inv(7) n(2) by (simp add: removeConnection_def)
  ultimately show ?thesis using inv(1-6,11) assms(7) gone(1) unfolding mrsys_inv_def same(1,2) by simp
qed

lemma step_event_kept:
  assumes "mrsys_inv files s" "sy_pending s = []" "sy_objs s h = Some c"
    and "conn_effect ps c (sy_reactor s) (sy_world s h) (Some c') r w" "cn_handle c = h" "st_fd (cn_stream c) = h"
    and "mw_refs w = size (of_handle h (mset (new_tasks h ps) + tasks_held s))" "mw_service w = Some sv"
    and "reactor_inv r" "reactor_nfds r = reactor_nfds (sy_reactor s)"
  shows "mrsys_inv files (s\<lparr>sy_service := sv, sy_objs := (sy_objs s)(h \<mapsto> c'), sy_reactor := r,
      sy_pending := new_tasks h ps, sy_asked := (sy_asked s)(h := sy_asked s h @ ps)\<rparr>)"
proof -
  let ?s = "s\<lparr>sy_service := sv, sy_objs := (sy_objs s)(h \<mapsto> c'), sy_reactor := r,
      sy_pending := new_tasks h ps, sy_asked := (sy_asked s)(h := sy_asked s h @ ps)\<rparr>"
  let ?regs = "dom (sv_connections (sy_service s))" and ?regs' = "dom (sv_connections sv)"
  note inv = mrsys_invD [OF assms(1)]
  have c': "cn_handle c' = h" "st_fd (cn_stream c') = h" "mr_seen c' = mr_seen c"
    "mr_taskCount c' = mr_taskCount c + int (length ps)" "mr_sendCall c' = mr_sendCall c"
    "sendBuf (cn_stream c') = sendBuf (cn_stream c)"
    "sv = sy_service s \<or> sv = removeConnection (sy_service s) h \<and> 0 < mw_refs w"
    using assms(4-6,8) by (auto simp: conn_effect_def mr_seen_def sy_world_def)
  have out: "tasks_out ?s = mset (new_tasks h ps) + tasks_out s" "tasks_held ?s = mset (new_tasks h ps) + tasks_held s"
    using assms(2) by (simp_all add: tasks_out_def tasks_held_def)
  have regs: "?regs' \<subseteq> ?regs" "?regs - {h} \<subseteq> ?regs'" "sv_newConnectionCb sv = sv_newConnectionCb (sy_service s)"
    "h \<in> ?regs - ?regs' \<Longrightarrow> of_handle h (mset (new_tasks h ps) + tasks_held s) \<noteq> {#}"
    using c'(7) assms(7) by (auto simp: removeConnection_def split: if_splits)
  have "objs_ok (reactor_nfds r) ((sy_objs s)(h \<mapsto> c')) ?regs' (tasks_held ?s)"
    unfolding out(2) assms(10)
    by (rule objs_ok_update [OF inv(8) assms(3) c'(1,2,5) regs(1,2,4)])
  moreover have "dom ((sy_objs s)(h \<mapsto> c')) = dom (sy_objs s)" using assms(3) by auto
  then have "news_ok (reactor_nfds r) ((sy_objs s)(h \<mapsto> c')) (sy_queue s)"
    using inv(9) assms(10) unfolding news_ok_def by simp
  moreover have "counts_ok files (the (((sy_objs s)(h \<mapsto> c')) k)) (sy_asked ?s k) (sy_done s k)
      (msg_nums k (sy_queue s)) (of_handle k (tasks_out ?s))" if "k \<in> ?regs'" for k
  proof (cases "k = h")
    case False
    with inv(10) [of k] that regs(1) new_tasks_facts(1) [of k h ps] show ?thesis unfolding out(1) by auto
  next
    case True
    then have "counts_ok files c (sy_asked s h) (sy_done s h) (msg_nums h (sy_queue s)) (of_handle h (tasks_out s))"
      using inv(10) [of h] that regs(1) assms(3) by auto
    from counts_ok_update [OF this c'(4,3,6), of h] True new_tasks_facts(1) [of h h ps]
    show ?thesis unfolding out(1) by simp
  qed
  ultimately show ?thesis using inv(1-7,11) assms(9) regs(3) unfolding mrsys_inv_def by simp
qed

lemma step_event:
  assumes "mrsys_inv files s" "sy_pending s = []" "sy_objs s h = Some c"
    and "reactor_handler (sy_reactor s) (h, ev_dir ev) \<noteq> None"
    and "conn_event (lev_add lib) dispatch (mr_recv lib) (mr_send lib) c (sy_reactor s) (sy_world s h) ev =
      Inr (co, r, w, bytes)" "mw_service w = Some sv"
  shows "mrsys_inv files (s\<lparr>sy_service := sv, sy_objs := (sy_objs s)(h := co), sy_reactor := r,
      sy_pending := mw_posted w,
      sy_asked := (sy_asked s)(h := sy_asked s h @ map (snd \<circ> task_of) (mw_posted w))\<rparr>)"
proof -
  obtain ps where e: "conn_effect ps c (sy_reactor s) (sy_world s h) co r w" "cn_handle c = h"
    "st_fd (cn_stream c) = h" "mw_posted w = new_tasks h ps"
    "mw_refs w = size (of_handle h (mset (new_tasks h ps) + tasks_held s))"
    "reactor_inv r" "reactor_nfds r = reactor_nfds (sy_reactor s)"
    by (rule event_effect [OF assms(1,3-5)]) (rule that)
  show ?thesis
  proof (cases co)
    case None
    let ?s = "s\<lparr>sy_service := sv, sy_objs := (sy_objs s)(h := None), sy_reactor := r\<rparr>"
    have "?s\<lparr>sy_pending := []\<rparr> = ?s" using assms(2) by (cases s) simp
    with step_event_deleted [OF assms(1,3) _ e(2,5) assms(6) e(6,7)] e(1,4) None show ?thesis by simp
  next
    case (Some c')
    with step_event_kept [OF assms(1-3) _ e(2,3,5) assms(6) e(6,7), of c'] e(1,4) new_tasks_facts(2) [of h ps]
    show ?thesis by simp
  qed
qed

lemma mrsys_step_inv: "mrsys_step files lib rc sc l s s' \<Longrightarrow> mrsys_inv files s \<Longrightarrow> mrsys_inv files s'"
  by (induction rule: mrsys_step.induct)
    (rule step_accept step_connect step_deliver step_dropped step_event step_post step_fetch step_run
      step_release; assumption)+

lemma mrsys_reach_inv:
  assumes "mrsys_reach files lib rc sc threadNum efd k r s" "0 \<le> efd" "reactor_inv r"
  shows "mrsys_inv files s"
  using assms(1)
proof (induction rule: mrsys_reach.induct)
  case start
  show ?case using assms(2,3)
    by (simp add: mrsys_init_def mrsys_inv_def pool_start_def pool_spawn_threads new_ThreadPool_def
        TASK_QUEUE_MAX_SIZE_def new_InteractiveTask_def setStat_def MSG_QUEUE_SIZE_def
        setNewConnectionCallback_def new_NetWorkService_def objs_ok_def news_ok_def tasks_held_def
        tasks_out_def Let_def)
next
  case (step s s')
  then show ?case using mrsys_step_inv by blast
qed

section \<open>The server's own steps\<close>

text \<open>
  Every step of the server's threads brings the work closer to its end: a task is handed to the pool,
  taken, run, and its connection let go; its message is handled.
\<close>

fun worker_cost :: "'t mr_worker \<Rightarrow> nat" where
  "worker_cost MFetch = 0"
| "worker_cost (MRun t) = 3"
| "worker_cost (MDone t) = 1"

definition mr_work :: "('cb, 'k) mrsys \<Rightarrow> nat" where
  "mr_work s = 5 * length (sy_pending s) + 4 * length (crb_items (tp_queue (sy_pool s))) +
     (\<Sum>w \<in># mset (sy_workers s). worker_cost w) + length (sy_queue s)"

text \<open>The tasks still to be run and the messages in the queue.\<close>

definition mr_load :: "('cb, 'k) mrsys \<Rightarrow> nat" where
  "mr_load s = size (tasks_out s) + length (sy_queue s)"

lemma post_effect:
  assumes "mrsys_inv files s" "sy_pending s = t # ts" "syncPostTask (sy_pool s) (Some t) = Inr (Some p)"
  shows "crb_items (tp_queue p) = crb_items (tp_queue (sy_pool s)) @ [Some t]"
  using post_items(1) [OF mrsys_invD(1) [OF assms(1)] assms(3)] by simp

lemma running_task:
  assumes "mrsys_inv files s" "i < length (sy_workers s)" "sy_workers s ! i = MRun t"
  obtains path c where "t \<in># tasks_out s" "mt_runCallback t = Some (fst (task_of t), path)"
    "snd (task_of t) = path" "sy_objs s (fst (task_of t)) = Some c" "cn_handle c = fst (task_of t)"
proof -
  note inv = mrsys_invD [OF assms(1)]
  have out: "t \<in># tasks_out s"
    using assms(3) nth_mem_mset [OF assms(2)] by (force simp: tasks_out_def)
  then have "mt_runCallback t \<noteq> None" "sy_objs s (fst (task_of t)) \<noteq> None"
    using objs_okD(5) [OF inv(8), of t] by (simp_all add: tasks_held_def)
  with out objs_okD(1) [OF inv(8)] that [of "snd (task_of t)"] show ?thesis by (auto simp: task_of_def)
qed

lemma run_effect:
  assumes "mrsys_inv files s" "i < length (sy_workers s)" "sy_workers s ! i = MRun t"
    and "mt_runCallback t = Some (h, path)"
    and "mapFunction files (map_option cn_handle (sy_objs s h)) path (Some (sy_task s)) = Inr (Some (Some t'))"
  shows "crb_items (it_queue t') = sy_queue s @ [new_MapDoneConnectionMessage h (path_num files path)]"
proof -
  note inv = mrsys_invD [OF assms(1)]
  obtain c where "sy_objs s h = Some c" "cn_handle c = h"
    using running_task [OF assms(1-3)] assms(4) by (metis Pair_inject option.inject)
  then show ?thesis using assms(5) map_result_path_num [of files h path] notifyMsg_Some(1) [OF _ inv(3,4)]
    by (auto simp: mapFunction_def and_then_Inr_iff)
qed

lemma server_step_work:
  assumes "mrsys_step files lib rc sc Server s s'" "mrsys_inv files s"
  shows "mr_work s' < mr_work s" "mr_load s' \<le> mr_load s" "tasks_out s' \<subseteq># tasks_out s"
    "length (sy_workers s') = length (sy_workers s)" "set (sy_asked s' h) \<subseteq> set (sy_asked s h)"
proof -
  note inv = mrsys_invD [OF assms(2)]
  note round = it_round_Some(1) [OF _ inv(3,5)]
  have "mr_work s' < mr_work s \<and> mr_load s' \<le> mr_load s \<and> tasks_out s' \<subseteq># tasks_out s \<and>
    length (sy_workers s') = length (sy_workers s) \<and> set (sy_asked s' h) \<subseteq> set (sy_asked s h)"
    using assms(1)
  proof cases
    case (connect m t k fd co r w sv)
    with round show ?thesis by (auto simp: mr_work_def mr_load_def tasks_out_def)
  next
    case (deliver m t c0 h c c' r n)
    with round show ?thesis by (auto simp: mr_work_def mr_load_def tasks_out_def)
  next
    case (dropped m t h)
    with round show ?thesis by (auto simp: mr_work_def mr_load_def tasks_out_def)
  next
    case (post t ts p)
    with post_effect [OF assms(2) post(2,3)] show ?thesis by (simp add: mr_work_def mr_load_def tasks_out_def)
  next
    case (fetch i t p)
    with threadEntry_Some(1) [OF fetch(4) inv(1,2)] sum_workers [OF fetch(2), of to_run "MRun t"]
      sum_workers [OF fetch(2), of worker_cost "MRun t"]
    show ?thesis by (simp add: mr_work_def mr_load_def tasks_out_def)
  next
    case (run i t h path t')
    have out: "tasks_out s = add_mset t (tasks_out s')"
      using sum_workers [OF run(2), of to_run "MDone t"] run(1,3) by (simp add: tasks_out_def)
    have "mr_work s' < mr_work s"
      using run_effect [OF assms(2) run(2-5)] sum_workers [OF run(2), of worker_cost "MDone t"] run(1,3)
      by (simp add: mr_work_def)
    then show ?thesis using out run_effect [OF assms(2) run(2-5)] run(1) by (simp add: mr_load_def)
  next
    case (release i t h path c co r w)
    with sum_workers [OF release(2), of to_run MFetch] sum_workers [OF release(2), of worker_cost MFetch]
    show ?thesis by (simp add: mr_work_def mr_load_def tasks_out_def)
  qed
  then show "mr_work s' < mr_work s" "mr_load s' \<le> mr_load s" "tasks_out s' \<subseteq># tasks_out s"
    "length (sy_workers s') = length (sy_workers s)" "set (sy_asked s' h) \<subseteq> set (sy_asked s h)" by blast+
qed

text \<open>The server's steps do not end a connection.\<close>

lemma server_step_keeps:
  assumes "mrsys_step files lib rc sc Server s s'" "mrsys_inv files s" "sv_connections (sy_service s) h \<noteq> None"
  shows "sv_connections (sy_service s') h \<noteq> None \<and> sy_asked s' h = sy_asked s h"
  using assms(1)
proof cases
  case (connect m t k fd co r w sv)
  note inv = mrsys_invD [OF assms(2)]
  note fd = accepted_head [OF assms(2) connect_head(2) [OF assms(2) connect(3,4)]]
  obtain sv' where "mw_service w = Some sv'"
    "case co of None \<Rightarrow> dom (sv_connections sv') = dom (sv_connections (sy_service s))
     | Some c \<Rightarrow> dom (sv_connections sv') = insert fd (dom (sv_connections (sy_service s))) \<and> cn_handle c = fd \<and>
         st_fd (cn_stream c) = fd \<and> mr_sendCall c = Some () \<and> mr_taskCount c = 0 \<and> mr_firstCome c"
    by (rule mr_onConnection_effect [OF connect(5) inv(6) fd(1,2,6,5,7)]) (rule that)
  moreover have "h \<noteq> fd" using assms(3) fd(5) by auto
  ultimately show ?thesis using connect(1,6) assms(3) by (auto split: option.splits)
qed (use assms(3) in simp_all)

section \<open>When the server can go on\<close>

text \<open>The files of the tasks under way can be opened and have a number in them.\<close>

definition files_ok :: "files \<Rightarrow> ('cb, 'k) mrsys \<Rightarrow> bool" where
  "files_ok files s \<longleftrightarrow> (\<forall>t \<in># tasks_out s. file_nums files (snd (task_of t)) \<noteq> {})"

lemma can_release:
  assumes "mrsys_inv files s" "lib_removes lib" "i < length (sy_workers s)" "sy_workers s ! i = MDone t"
  shows "\<exists>s'. mrsys_step files lib rc sc Server s s'"
proof -
  note inv = mrsys_invD [OF assms(1)]
  have "t \<in># tasks_held s"
    using assms(4) nth_mem_mset [OF assms(3)] by (force simp: tasks_held_def)
  then obtain h path c where t: "mt_runCallback t = Some (h, path)" "sy_objs s h = Some c"
    using objs_okD(5) [OF inv(8)] by (fastforce simp: task_of_def)
  have c: "0 < st_fd (cn_stream c)" "st_fd (cn_stream c) < reactor_nfds (sy_reactor s)"
    using objs_okD(1) [OF inv(8) t(2)] by auto
  obtain co r w where "mr_release (removeEventHandler lib) c (sy_reactor s) (sy_world s h) = Inr (co, r, w)"
    using delete_Stream_runs [OF assms(2) inv(6) c] by (force simp: mr_release_def Let_def)
  with mrsys_step.release [OF assms(3,4) t] show ?thesis by blast
qed

lemma can_run:
  assumes "mrsys_inv files s" "files_ok files s" "length (sy_queue s) < 49999"
    and "i < length (sy_workers s)" "sy_workers s ! i = MRun t"
  shows "\<exists>s'. mrsys_step files lib rc sc Server s s'"
proof -
  note inv = mrsys_invD [OF assms(1)]
  let ?h = "fst (task_of t)"
  obtain path c where t: "t \<in># tasks_out s" "mt_runCallback t = Some (?h, path)" "snd (task_of t) = path"
    "sy_objs s ?h = Some c" "cn_handle c = ?h" by (rule running_task [OF assms(1,4,5)])
  then have "file_nums files path \<noteq> {}" using assms(2) by (auto simp: files_ok_def)
  note msg = map_result_Max [OF this, of ?h]
  have room: "length (sy_queue s) < crb_cap (it_queue (sy_task s))" using assms(3) inv(11) by simp
  obtain t' where "mapFunction files (map_option cn_handle (sy_objs s ?h)) path (Some (sy_task s)) = Inr (Some (Some t'))"
    using notifyMsg_room [OF inv(3) room inv(4), of "new_MapDoneConnectionMessage ?h (Max (file_nums files path))"]
    by (force simp: mapFunction_def msg t)
  with mrsys_step.run [OF assms(4,5) t(2)] show ?thesis by blast
qed

lemma can_fetch:
  assumes "mrsys_inv files s" "crb_items (tp_queue (sy_pool s)) \<noteq> []"
    and "i < length (sy_workers s)" "sy_workers s ! i = MFetch"
  shows "\<exists>s'. mrsys_step files lib rc sc Server s s'"
proof -
  note inv = mrsys_invD [OF assms(1)]
  obtain x xs where x: "crb_items (tp_queue (sy_pool s)) = x # xs"
    using assms(2) by (cases "crb_items (tp_queue (sy_pool s))") auto
  with inv(2) obtain t where "crb_items (tp_queue (sy_pool s)) = Some t # xs" by (cases x) auto
  with threadEntry_run [OF inv(1)] mrsys_step.fetch [OF assms(3,4)] show ?thesis by blast
qed

lemma can_post:
  assumes "mrsys_inv files s" "sy_pending s \<noteq> []" "length (crb_items (tp_queue (sy_pool s))) \<noteq> 999"
  shows "\<exists>s'. mrsys_step files lib rc sc Server s s'"
proof -
  note inv = mrsys_invD [OF assms(1)]
  obtain t ts where t: "sy_pending s = t # ts" using assms(2) by (cases "sy_pending s") auto
  have "\<exists>p. syncPostTask (sy_pool s) (Some t) = Inr (Some p)"
    using assms(3) inv(11) by (simp add: syncPostTask_def crb_put_cases [OF inv(1)] crb_length_items)
  with mrsys_step.post [OF t] show ?thesis by blast
qed

lemma can_connect:
  assumes "mrsys_inv files s" "lib_adds lib" "sy_pending s = []" "sy_queue s = new_NewConnectMessage fd # q"
  obtains c t r sv where "mrsys_step files lib rc sc Server s (s\<lparr>sy_task := t, sy_service := sv,
      sy_objs := (sy_objs s)(fd \<mapsto> c), sy_reactor := r, sy_asked := (sy_asked s)(fd := []),
      sy_done := (sy_done s)(fd := [])\<rparr>)"
    "mr_ready lib r c" "cn_handle c = fd" "crb_items (it_queue t) = q" "sv_connections sv fd \<noteq> None"
proof -
  note inv = mrsys_invD [OF assms(1)]
  note fd = accepted_head [OF assms(1,4)]
  obtain t where t: "it_round (sy_task s) = Inr (Some (new_NewConnectMessage fd, t))" "crb_items (it_queue t) = q"
    by (rule it_round_ready [OF inv(3-5) assms(4)]) (rule that)
  obtain c r w where run: "mr_onConnection (lev_add lib) (removeEventHandler lib)
      (new_Stream fd (rc fd) (sc fd)) (sy_reactor s) (sy_world s fd) = Inr (Some c, r, w)"
    and c: "mr_ready lib r c" "cn_handle c = fd"
    by (rule mr_accepts_inv [OF assms(2) inv(6) fd(1,2,6,5)]) (rule that)
  obtain sv where sv: "mw_service w = Some sv" "sv_connections sv fd \<noteq> None"
    by (rule mr_onConnection_effect [OF run inv(6) fd(1,2,6,5,7)]) (use that in auto)
  obtain k where "sv_newConnectionCb (sy_service s) = Some k" using inv(7) by auto
  then have "nws_onMessage (sy_service s) (new_NewConnectMessage fd) = Inr (CallNewConnection k fd)" by simp
  from mrsys_step.connect [where files = files and rc = rc and sc = sc, OF assms(3) t(1) this run sv(1)] show ?thesis
    by (rule that) (use c t sv in simp_all)
qed

lemma can_handle:
  assumes "mrsys_inv files s" "lib_adds lib" "sy_pending s = []" "sy_queue s \<noteq> []"
  shows "\<exists>s'. mrsys_step files lib rc sc Server s s'"
proof -
  note inv = mrsys_invD [OF assms(1)]
  obtain m q where q: "sy_queue s = m # q" using assms(4) by (cases "sy_queue s") auto
  obtain t where t: "it_round (sy_task s) = Inr (Some (m, t))"
    using it_round_ready [OF inv(3-5) q] by metis
  have "queue_ok (m # q)" using inv(9) q by (simp add: news_ok_def)
  then show ?thesis
  proof (cases rule: queue_head)
    case (1 fd)
    with q have "sy_queue s = new_NewConnectMessage fd # q" by simp
    from can_connect [OF assms(1-3) this] show ?thesis by metis
  next
    case (2 h n)
    show ?thesis
    proof (cases "sv_connections (sy_service s) h")
      case None
      then have "nws_onMessage (sy_service s) m = Inr (UnknownHandle h)" using 2 by simp
      from mrsys_step.dropped [OF assms(3) t this] show ?thesis by blast
    next
      case (Some c0)
      then obtain c where c: "sy_objs s h = Some c" using objs_okD(3) [OF inv(8), of h] by auto
      have fd: "0 \<le> st_fd (cn_stream c)" "st_fd (cn_stream c) < reactor_nfds (sy_reactor s)"
        using objs_okD(1) [OF inv(8) c] by auto
      obtain c' r where "mr_onMessage (lev_add lib) c (sy_reactor s) m = Inr (c', r)"
        using lev.add_law [OF inv(6) fd, of lib Wr "sendOnePackCall (cn_stream c)"] 2
        by (force simp: mr_onMessage_done Let_def asyncSendBytes_def)
      moreover have "nws_onMessage (sy_service s) m = Inr (Deliver c0 m)" "getHandle (msg_class m) = Inr h"
        "getMaxNum (msg_class m) = Inr n" using 2 Some by simp_all
      ultimately show ?thesis using mrsys_step.deliver [OF assms(3) t _ _ c] by blast
    qed
  qed
qed

text \<open>What clients can do: connect, and ask for the numbers in files.\<close>

lemma can_accept:
  assumes "mrsys_inv files s" "0 < fd" "fd < reactor_nfds (sy_reactor s)" "sy_objs s fd = None"
    and "new_NewConnectMessage fd \<notin> set (sy_queue s)" "length (sy_queue s) < 49999"
  obtains t where "mrsys_step files lib rc sc Client s (s\<lparr>sy_task := t\<rparr>)"
    "crb_items (it_queue t) = sy_queue s @ [new_NewConnectMessage fd]"
proof -
  note inv = mrsys_invD [OF assms(1)]
  have "length (sy_queue s) < crb_cap (it_queue (sy_task s))" using assms(6) inv(11) by simp
  from notifyMsg_room [OF inv(3) this inv(4), of "new_NewConnectMessage fd"] obtain e t where
    t: "notifyMsg (sy_task s) (new_NewConnectMessage fd) = Inr (Some (e, t))"
    "crb_items (it_queue t) = sy_queue s @ [new_NewConnectMessage fd]" by auto
  from mrsys_step.accept [OF assms(2-5) t(1)] t(2) that show ?thesis by blast
qed

lemma event_step:
  assumes "sy_pending s = []" "sy_objs s h = Some c" "reactor_handler (sy_reactor s) (h, ev_dir ev) \<noteq> None"
    and "mr_run lib (Some c) (sy_reactor s) (sy_world s h) [ev] = Inr (co, r, w, bytes)" "mw_service w = Some sv"
  shows "mrsys_step files lib rc sc Client s (s\<lparr>sy_service := sv, sy_objs := (sy_objs s)(h := co), sy_reactor := r,
      sy_pending := mw_posted w,
      sy_asked := (sy_asked s)(h := sy_asked s h @ map (snd \<circ> task_of) (mw_posted w))\<rparr>)"
  by (rule mrsys_step.event [OF assms(1-3) _ assms(5)]) (use assms(4) in \<open>auto simp: and_then_Inr_iff\<close>)

lemma can_request:
  assumes "mrsys_inv files s" "lib_adds lib" "sy_pending s = []" "sy_objs s h = Some c"
    and "mr_ready lib (sy_reactor s) c" "request_ok paths"
  obtains s1 s' where "mrsys_step files lib rc sc Client s s1" "mrsys_step files lib rc sc Client s1 s'"
    "sy_pending s' = map (\<lambda>path. new_MapTask (Some (h, path))) paths" "sy_asked s' h = sy_asked s h @ paths"
    "sy_pool s' = sy_pool s" "sy_workers s' = sy_workers s" "sy_task s' = sy_task s"
    "sy_service s' = sy_service s" "sy_done s' = sy_done s" "\<And>k. k \<noteq> h \<Longrightarrow> sy_objs s' k = sy_objs s k"
proof -
  let ?req = "bench_request paths" and ?w = "sy_world s h"
  have h: "cn_handle c = h" "st_fd (cn_stream c) = h" using objs_okD(1) [OF mrsys_invD(8) [OF assms(1)] assms(4)] by auto
  have "join delim vec \<noteq> []" if "vec \<noteq> []" "last vec \<noteq> []" for vec delim
    using that by (cases "(delim, vec)" rule: join.cases) auto
  then have ne: "?req \<noteq> []" "length ?req \<le> 1024"
    using assms(6) by (simp_all add: request_ok_def bench_request_join)
  have "int_bytes (int (length ?req)) \<noteq> []" using length_int_bytes [of "int (length ?req)"] by force
  with ne have b: "brings [Received (int_bytes (int (length ?req)))] (int_bytes (int (length ?req)))"
    "brings [Received ?req] ?req" by (simp_all add: brings_def recv_goes_on_def)
  have len: "0 < int (length ?req)" "int (length ?req) \<le> 1024" using ne by simp_all
  obtain c1 r1 where c1: "\<And>es. mr_run lib (Some c) (sy_reactor s) ?w
        (map Readable [Received (int_bytes (int (length ?req)))] @ es) = mr_run lib (Some c1) r1 ?w es"
    "mr_awaits_body lib r1 c1 (int (length ?req))" "cn_handle c1 = h" "st_fd (cn_stream c1) = h"
    by (rule mr_head [OF assms(2,5) b(1) len, of ?w]) (rule that, simp_all add: h)
  have w: "mw_posted ?w = []" "mw_service ?w = Some (sy_service s)" by (simp_all add: sy_world_def)
  let ?s1 = "s\<lparr>sy_service := sy_service s, sy_objs := (sy_objs s)(h \<mapsto> c1), sy_reactor := r1,
    sy_pending := mw_posted ?w, sy_asked := (sy_asked s)(h := sy_asked s h @ map (snd \<circ> task_of) (mw_posted ?w))\<rparr>"
  have "mr_run lib (Some c) (sy_reactor s) ?w [Readable (Received (int_bytes (int (length ?req))))] =
      Inr (Some c1, r1, ?w, [])"
    using c1(1) [of "[]"] unfolding list.map append_Nil2 conn_run.simps(1) .
  then have head: "mrsys_step files lib rc sc Client s ?s1"
    using assms(5) h(2) w(2) by (intro event_step [OF assms(3,4)])
      (simp_all add: mr_ready_def lev.awaits_def lev.reads_def del: conn_run.simps)
  let ?w' = "?w\<lparr>mw_posted := map (\<lambda>path. new_MapTask (Some (h, path))) paths, mw_refs := mw_refs ?w + length paths\<rparr>"
  obtain c2 r2 where run: "mr_run lib (Some c1) r1 ?w (map Readable [Received ?req]) = Inr (Some c2, r2, ?w', [])"
    by (rule mr_body [OF assms(2) c1(2) assms(6) b(2), of ?w]) (rule that, simp add: c1(3) w(1))
  have "sy_world ?s1 h = ?w" by (simp add: sy_world_def tasks_held_def tasks_out_def assms(3))
  then have "mrsys_step files lib rc sc Client ?s1 (?s1\<lparr>sy_service := sy_service s,
      sy_objs := (sy_objs ?s1)(h := Some c2), sy_reactor := r2, sy_pending := mw_posted ?w',
      sy_asked := (sy_asked ?s1)(h := sy_asked ?s1 h @ map (snd \<circ> task_of) (mw_posted ?w'))\<rparr>)"
    using run c1(2,4) by (intro event_step [where c = c1 and ev = "Readable (Received ?req)" and bytes = "[]"])
      (simp_all add: mr_awaits_body_def lev.awaits_def lev.reads_def w del: conn_run.simps)
  from that [OF head this] w(1) show ?thesis by (simp add: comp_def)
qed

text \<open>
  The service's thread waits for room in the pool's queue, every thread of the pool waits for room in
  the service's queue, and both queues are full.
\<close>

definition mr_deadlock :: "('cb, 'k) mrsys \<Rightarrow> bool" where
  "mr_deadlock s \<longleftrightarrow> sy_pending s \<noteq> [] \<and> length (crb_items (tp_queue (sy_pool s))) = 999 \<and>
     (\<forall>w \<in> set (sy_workers s). \<exists>t. w = MRun t) \<and> length (sy_queue s) = 49999"

lemma deadlock_stuck:
  assumes "mrsys_inv files s" "mr_deadlock s"
  shows "\<not> mrsys_step files lib rc sc l s s'"
proof
  note inv = mrsys_invD [OF assms(1)]
  assume "mrsys_step files lib rc sc l s s'"
  then show False
  proof cases
    case (accept fd e t)
    with notifyMsg_full [OF inv(3), of "new_NewConnectMessage fd"] assms(2) inv(11)
    show ?thesis by (simp add: mr_deadlock_def)
  next
    case (post t ts p)
    with assms(2) inv(11) show ?thesis
      by (simp add: mr_deadlock_def syncPostTask_def crb_put_cases [OF inv(1)] crb_length_items)
  next
    case (fetch i t p)
    with assms(2) nth_mem [OF fetch(3)] show ?thesis by (fastforce simp: mr_deadlock_def)
  next
    case (run i t h path t')
    have "notifyMsg (sy_task s) m = Inr None" for m
      using notifyMsg_full [OF inv(3)] assms(2) inv(11) by (simp add: mr_deadlock_def)
    moreover obtain c where "sy_objs s h = Some c"
      using running_task [OF assms(1) run(3,4)] run(5) by (metis Pair_inject option.inject)
    ultimately show ?thesis using run(6) by (auto simp: mapFunction_def and_then_Inr_iff)
  next
    case (release i t h path c co r w)
    with assms(2) nth_mem [OF release(3)] show ?thesis by (fastforce simp: mr_deadlock_def)
  qed (use assms(2) in \<open>simp_all add: mr_deadlock_def\<close>)
qed

lemma server_goes_on:
  assumes "mrsys_inv files s" "lib_adds lib" "lib_removes lib" "files_ok files s" "sy_workers s \<noteq> []"
    and "0 < mr_work s" "\<not> mr_deadlock s"
  shows "\<exists>s'. mrsys_step files lib rc sc Server s s'"
proof (rule ccontr)
  assume stuck: "\<nexists>s'. mrsys_step files lib rc sc Server s s'"
  note inv = mrsys_invD [OF assms(1)]
  let ?ws = "sy_workers s" and ?q = "crb_items (tp_queue (sy_pool s))"
  have rel: "\<forall>t. MDone t \<notin> set ?ws" using can_release [OF assms(1,3)] stuck by (metis in_set_conv_nth)
  have fetch: "MFetch \<notin> set ?ws \<or> ?q = []" using can_fetch [OF assms(1)] stuck by (metis in_set_conv_nth)
  have post: "sy_pending s = [] \<or> length ?q = 999" using can_post [OF assms(1)] stuck by blast
  have handle: "sy_pending s \<noteq> [] \<or> sy_queue s = []" using can_handle [OF assms(1,2)] stuck by blast
  have run: "(\<forall>t. MRun t \<notin> set ?ws) \<or> length (sy_queue s) = 49999"
  proof (rule ccontr)
    assume n: "\<not> ?thesis"
    have "length (sy_queue s) \<le> 49999" using crb_count_bound [OF inv(3)] inv(11) by (simp add: crb_length_items)
    with n can_run [OF assms(1,4)] stuck show False by (metis in_set_conv_nth le_neq_implies_less)
  qed
  show False
  proof (cases "\<exists>t. MRun t \<in> set ?ws")
    case True
    then have "length (sy_queue s) = 49999" using run by blast
    moreover from this have "sy_pending s \<noteq> []" using handle by auto
    moreover from this have full: "length ?q = 999" using post by blast
    moreover have "\<forall>w \<in> set ?ws. \<exists>t. w = MRun t"
    proof
      fix w
      assume "w \<in> set ?ws"
      with rel fetch full show "\<exists>t. w = MRun t" by (cases w) auto
    qed
    ultimately show False using assms(7) by (simp add: mr_deadlock_def)
  next
    case False
    then have all: "\<forall>w \<in> set ?ws. w = MFetch" using rel by (metis mr_worker.exhaust)
    then have "?q = []" using fetch assms(5) by (metis last_in_set)
    moreover have "sy_pending s = []" using post calculation by auto
    moreover have "(\<Sum>w \<in># mset ?ws. worker_cost w) = 0" using all by (intro sum_mset.neutral) auto
    moreover have "sy_queue s = []" using handle calculation by blast
    ultimately have "mr_work s = 0" by (simp only: mr_work_def list.size mult_0_right add_0_right)
    then show False using assms(6) by simp
  qed
qed

lemma mrsys_reach_workers:
  assumes "mrsys_reach files lib rc sc threadNum efd k r s"
  shows "length (sy_workers s) = nat threadNum"
  using assms
proof (induction rule: mrsys_reach.induct)
  case start
  show ?case by (simp add: mrsys_init_def pool_start_def pool_spawn_threads new_ThreadPool_def Let_def)
next
  case (step s l s')
  from step.hyps(2) have "length (sy_workers s') = length (sy_workers s)" by cases simp_all
  with step.IH show ?case by simp
qed

text \<open>What a run of the server's steps does.\<close>

lemma server_run_work:
  assumes "(mrsys_step files lib rc sc Server ^^ n) s s'" "mrsys_inv files s"
  shows "mrsys_inv files s' \<and> mr_work s' + n \<le> mr_work s \<and> mr_load s' \<le> mr_load s \<and> tasks_out s' \<subseteq># tasks_out s \<and>
    length (sy_workers s') = length (sy_workers s) \<and>
    (\<forall>h. sv_connections (sy_service s) h \<noteq> None \<longrightarrow>
      sv_connections (sy_service s') h \<noteq> None \<and> sy_asked s' h = sy_asked s h)"
  using assms
proof (induction n arbitrary: s')
  case (Suc n)
  then obtain t where t: "(mrsys_step files lib rc sc Server ^^ n) s t" "mrsys_step files lib rc sc Server t s'"
    by auto
  note IH = Suc.IH [OF t(1) Suc.prems(2)]
  then have inv: "mrsys_inv files t" by blast
  from server_step_work [OF t(2) inv] mrsys_step_inv [OF t(2) inv] server_step_keeps [OF t(2) inv] IH
  show ?case by (auto intro: subset_mset.trans)
qed simp

lemma deadlock_load:
  assumes "mr_deadlock s"
  shows "50999 + length (sy_workers s) \<le> mr_load s"
proof -
  have "size (\<Sum>w \<in># mset ws. to_run w) = length ws" if "\<forall>w \<in> set ws. \<exists>t. w = MRun t"
    for ws :: "mtask mr_worker list"
    using that by (induction ws) auto
  with assms have "size (tasks_out s) \<ge> 1 + 999 + length (sy_workers s)"
    by (auto simp: mr_deadlock_def tasks_out_def Suc_le_eq)
  with assms show ?thesis by (simp add: mr_deadlock_def mr_load_def)
qed

subsection \<open>Answers on their way\<close>

text \<open>
  Either a connection still counts tasks, or its answer has been handed to its stream, none of it is
  sent yet, and the reactor calls the stream when the socket takes bytes.
\<close>

definition mr_answering :: "('cb, 'k) mrsys \<Rightarrow> int \<Rightarrow> bool" where
  "mr_answering s h \<longleftrightarrow> (\<exists>c. sy_objs s h = Some c \<and> (mr_taskCount c \<noteq> 0 \<or>
     lev.writes (sy_reactor s) (cn_stream c) \<and> sendLen (cn_stream c) = 0 \<and> needSendLen (cn_stream c) = 4 \<and>
     sendCompleteCallback (cn_stream c) = Some ()))"

lemma mr_answering_frame:
  assumes "mr_answering s h" "sy_objs s' h = sy_objs s h" "reactor_inv (sy_reactor s')"
    and "reactor_nfds (sy_reactor s') = reactor_nfds (sy_reactor s)"
    and "\<And>c. sy_objs s h = Some c \<Longrightarrow> st_fd (cn_stream c) = h"
    and "reactor_handler (sy_reactor s') (h, Wr) = reactor_handler (sy_reactor s) (h, Wr)"
  shows "mr_answering s' h"
  using assms lev.writes_frame [OF _ assms(3,4)] by (fastforce simp: mr_answering_def)

lemma mr_onConnection_other:
  assumes "mr_onConnection (lev_add lib) (removeEventHandler lib) (new_Stream fd a b) r w = Inr (co, r', w')"
    and "lib_adds lib" "reactor_inv r" "0 < fd" "fd < reactor_nfds r" "mw_service w = Some sv"
    and "sv_connections sv fd = None" "h \<noteq> fd"
  shows "reactor_handler r' (h, d) = reactor_handler r (h, d)"
proof -
  let ?s = "new_Stream fd a b :: ('a, unit) stream"
  have live: "0 \<le> st_fd ?s" "st_fd ?s < reactor_nfds r" "st_fd ?s = fd"
    using assms(4,5) by (simp_all add: new_Stream_def)
  obtain s1 r1 where ask: "asyncRecvBytes (lev_add lib) ?s r 4 (Some ()) = Inr (True, s1, r1)"
    by (rule lev.ask_recv [OF lib_adds_ok [OF assms(2)] assms(3) live(1,2) four_in_range, of "()"]) (rule that)
  have "r' = r1" using assms(1,4,6,7) ask live(3)
    by (simp add: mr_onConnection_def mr_startReadOrWriteInService_def Let_def new_MapReduceConnection_def
        new_Connection_def getFd_def addNewConnection_def Connection_getHandle_def)
  with lev.asyncRecvBytes_other [OF ask assms(3) live(1,2)] assms(8) live(3) show ?thesis by simp
qed

text \<open>The message of the last task hands the answer to the stream.\<close>

lemma mr_onMessage_answering:
  assumes "mr_onMessage (lev_add lib) c r (new_MapDoneConnectionMessage h n) = Inr (c', r')" "lib_adds lib"
    and "conn_live r c" "mr_sendCall c = Some ()"
  shows "mr_taskCount c' \<noteq> 0 \<or> lev.writes r' (cn_stream c') \<and> sendLen (cn_stream c') = 0 \<and>
      needSendLen (cn_stream c') = 4 \<and> sendCompleteCallback (cn_stream c') = Some ()"
    and "k \<noteq> st_fd (cn_stream c) \<Longrightarrow> reactor_handler r' (k, d) = reactor_handler r (k, d)"
proof -
  let ?c = "c\<lparr>mr_firstCome := False, mr_taskCount := mr_taskCount c - 1,
            mr_curMaxNum := Max (insert n (mr_seen c))\<rparr>"
  let ?bytes = "int_bytes (mr_curMaxNum ?c)"
  have live: "reactor_inv r" "0 \<le> st_fd (cn_stream c)" "st_fd (cn_stream c) < reactor_nfds r"
    using assms(3) by (simp_all add: conn_live_def)
  have len: "length ?bytes \<le> 1024" by simp
  obtain s' r1 where ask: "asyncSendBytes (lev_add lib) (cn_stream c) r ?bytes (Some ()) = Inr (True, s', r1)"
    "lev.writes r1 s'" "sendLen s' = 0" "needSendLen s' = 4" "sendCompleteCallback s' = Some ()"
    by (rule lev.ask_send [OF lib_adds_ok [OF assms(2)] live len, of "()"]) (rule that, simp_all)
  have two: "mr_taskCount ?c = 0 \<and> c' = ?c\<lparr>cn_stream := s'\<rparr> \<and> r' = r1 \<or> mr_taskCount ?c \<noteq> 0 \<and> c' = ?c \<and> r' = r"
    using assms(1,4) ask(1) by (cases "mr_taskCount ?c = 0") (auto simp: mr_onMessage_done Let_def)
  then show "mr_taskCount c' \<noteq> 0 \<or> lev.writes r' (cn_stream c') \<and> sendLen (cn_stream c') = 0 \<and>
      needSendLen (cn_stream c') = 4 \<and> sendCompleteCallback (cn_stream c') = Some ()"
    using ask(2-5) by auto
  show "reactor_handler r' (k, d) = reactor_handler r (k, d)" if "k \<noteq> st_fd (cn_stream c)"
    using two lev.asyncSendBytes_other [OF ask(1) live that] by auto
qed

lemma server_step_answering:
  assumes "mrsys_step files lib rc sc Server s s'" "mrsys_inv files s" "lib_adds lib"
    and "sv_connections (sy_service s) h \<noteq> None" "mr_answering s h"
  shows "mr_answering s' h"
proof -
  note inv = mrsys_invD [OF assms(2)] and inv' = mrsys_invD [OF mrsys_step_inv [OF assms(1,2)]]
  note obj = objs_okD(1) [OF inv(8)]
  show ?thesis
    using assms(1)
  proof cases
    case (connect m t k fd co r w sv)
    note fd = accepted_head [OF assms(2) connect_head(2) [OF assms(2) connect(3,4)]]
    have "h \<noteq> fd" using assms(4) fd(5) by auto
    moreover have "reactor_nfds r = reactor_nfds (sy_reactor s)"
      by (rule mr_onConnection_effect [OF connect(5) inv(6) fd(1,2,6,5,7)])
    ultimately show ?thesis
      using mr_onConnection_other [OF connect(5) assms(3) inv(6) fd(1,2,6,5)] inv'(6) connect(1) obj
      by (intro mr_answering_frame [OF assms(5)]) simp_all
  next
    case (deliver m t c0 k c c' r n)
    note t = it_round_Some [OF deliver(3) inv(3,5)]
    have q: "queue_ok (m # crb_items (it_queue t))" using inv(9) t(1) by (simp add: news_ok_def)
    then have m: "m = new_MapDoneConnectionMessage k n" using deliver(4,5,8)
      by (cases rule: queue_head, auto split: option.splits)
    have c: "conn_live (sy_reactor s) c" "mr_sendCall c = Some ()" "st_fd (cn_stream c) = k"
      using obj [OF deliver(6)] inv(6) by (auto simp: conn_live_def)
    note step = mr_onMessage_answering [OF deliver(7) [unfolded m] assms(3) c(1,2)]
    show ?thesis
    proof (cases "k = h")
      case True
      with step(1) deliver(1) show ?thesis by (simp add: mr_answering_def)
    next
      case False
      have "reactor_nfds r = reactor_nfds (sy_reactor s)"
        by (rule mr_onMessage_effect(4) [OF deliver(7) [unfolded m] c(1)])
      with False step(2) [of h Wr] inv'(6) deliver(1) obj c(3) show ?thesis
        by (intro mr_answering_frame [OF assms(5)]) simp_all
    qed
  next
    case (release i t k path c co r w)
    have c: "0 \<le> st_fd (cn_stream c)" "st_fd (cn_stream c) < reactor_nfds (sy_reactor s)" "st_fd (cn_stream c) = k"
      "cn_handle c = k"
      using obj [OF release(5)] by auto
    show ?thesis
    proof (cases "k = h")
      case True
      then have "co = Some c \<and> r = sy_reactor s" using release(6) assms(4) c(4)
        by (auto simp: mr_release_def Let_def sy_world_def split: if_splits)
      then show ?thesis using True release(1,5) assms(5) by (simp add: mr_answering_def)
    next
      case False
      have "reactor_handler r (h, Wr) = reactor_handler (sy_reactor s) (h, Wr) \<and>
          reactor_nfds r = reactor_nfds (sy_reactor s)"
        using release(6) lev.delete_Stream_other [OF _ inv(6) c(1,2), of _ _ _ _ h Wr]
          lev.delete_Stream_frame [OF _ inv(6) c(1,2)] False c(3)
        by (fastforce simp: mr_release_def Let_def and_then_Inr_iff split: if_splits)
      with False inv'(6) release(1) obj show ?thesis
        by (intro mr_answering_frame [OF assms(5)]) simp_all
    qed
  qed (use assms(5) in \<open>simp_all add: mr_answering_def\<close>)
qed

lemma server_run_answering:
  assumes "(mrsys_step files lib rc sc Server ^^ n) s s'" "mrsys_inv files s" "lib_adds lib"
    and "sv_connections (sy_service s) h \<noteq> None" "mr_answering s h"
  shows "mr_answering s' h"
  using assms(1)
proof (induction n arbitrary: s')
  case (Suc n)
  then obtain t where t: "(mrsys_step files lib rc sc Server ^^ n) s t" "mrsys_step files lib rc sc Server t s'"
    by auto
  from server_run_work [OF t(1) assms(2)] have "mrsys_inv files t" "sv_connections (sy_service t) h \<noteq> None"
    using assms(4) by blast+
  with server_step_answering [OF t(2) _ assms(3)] Suc.IH [OF t(1)] show ?case by blast
qed (use assms(5) in simp)

text \<open>A client that waits for the number of some file: the answer is under way.\<close>

lemma waiting_answering:
  assumes "mrsys_inv files s" "sv_connections (sy_service s) h \<noteq> None"
    and "length (sy_done s h) < length (sy_asked s h)"
  shows "mr_answering s h"
proof -
  note inv = mrsys_invD [OF assms(1)]
  obtain c where c: "sy_objs s h = Some c" using objs_okD(3) [OF inv(8)] assms(2) by blast
  then have ok: "counts_ok files c (sy_asked s h) (sy_done s h) (msg_nums h (sy_queue s)) (of_handle h (tasks_out s))"
    using inv(10) [of h] assms(2) by auto
  then have "image_mset (path_num files) (mset (sy_asked s h)) = mset (sy_done s h) + msg_nums h (sy_queue s) +
      image_mset (path_num files \<circ> snd \<circ> task_of) (of_handle h (tasks_out s))"
    by (simp add: counts_ok_def)
  from arg_cong [OF this, of size]
  have "length (sy_asked s h) = length (sy_done s h) + size (msg_nums h (sy_queue s)) + size (of_handle h (tasks_out s))"
    by simp
  with counts_ok_taskCount [OF ok] assms(3) have "mr_taskCount c \<noteq> 0" by linarith
  with c show ?thesis by (simp add: mr_answering_def)
qed

text \<open>The writable events then give the bytes of the answer to the socket.\<close>

lemma answering_sends:
  assumes "mr_answering s h" "sy_objs s h = Some c" "mr_taskCount c = 0" "lib_adds lib" "takes ss 4"
  shows "\<exists>c' r'. mr_run lib (Some c) (sy_reactor s) w (map Writable ss) =
    Inr (Some c', r', w, sendBuf (cn_stream c))"
proof -
  let ?s = "cn_stream c"
  have s: "lev.writes (sy_reactor s) ?s" "sendLen ?s = 0" "needSendLen ?s = 4" "sendCompleteCallback ?s = Some ()"
    using assms(1-3) by (auto simp: mr_answering_def)
  then have len: "int (length (sendBuf ?s)) = needSendLen ?s" by (simp add: lev.writes_def send_ready_def)
  with s(3) have tk: "takes ss (length (sendBuf ?s))" using assms(5) by simp
  have buf: "sendBuf ?s = drop (nat (sendLen ?s)) (sendBuf ?s)" using s(2) by simp
  obtain s3 r3 where "\<forall>es. mr_run lib (Some c) (sy_reactor s) w (map Writable ss @ es) =
      and_then (mr_send lib (c\<lparr>cn_stream := s3\<rparr>) r3 w SENDED) (\<lambda>(c, r, w).
        sent_first (sendBuf ?s) (mr_run lib c r w es))"
    using lev.conn_run_send [OF lib_adds_ok [OF assms(4)] s(1) tk len s(4) buf, of "mr_recv lib" "mr_send lib" w]
    by blast
  from spec [OF this, of "[]"] show ?thesis by (simp add: mr_sendCompleteCallback_def)
qed

text \<open>When nothing is left to do, every connection holds the answer to what its client asked for.\<close>

lemma work_done:
  assumes "mr_work s = 0"
  shows "tasks_held s = {#}" "sy_queue s = []"
proof -
  have "to_run w = {#} \<and> to_release w = {#}" if "w \<in> set (sy_workers s)" for w
    using assms that by (cases w) (auto simp: mr_work_def)
  with assms show "tasks_held s = {#}"
    by (auto simp: mr_work_def tasks_held_def tasks_out_def intro!: sum_mset.neutral)
  show "sy_queue s = []" using assms by (simp add: mr_work_def)
qed

lemma work_done_answered:
  assumes "mrsys_inv files s" "mr_work s = 0" "sv_connections (sy_service s) h \<noteq> None" "sy_asked s h \<noteq> []"
    and "\<forall>path \<in> set (sy_asked s h). file_nums files path \<noteq> {}"
  shows "\<exists>c. sy_objs s h = Some c \<and> mr_taskCount c = 0 \<and>
    sendBuf (cn_stream c) = int_bytes (serial_max files (sy_asked s h))"
proof -
  note inv = mrsys_invD [OF assms(1)]
  let ?ps = "sy_asked s h" and ?dn = "sy_done s h"
  obtain c where c: "sy_objs s h = Some c" using objs_okD(3) [OF inv(8)] assms(3) by blast
  have out: "tasks_out s = {#}" "sy_queue s = []" using work_done [OF assms(2)] by (simp_all add: tasks_held_def)
  then have ok: "counts_ok files c ?ps ?dn {#} {#}" using inv(10) [of h] assms(3) c by auto
  then have "set_mset (image_mset (path_num files) (mset ?ps)) = set_mset (mset ?dn)"
    by (simp add: counts_ok_def)
  moreover have "path_num files ` set ?ps = (\<lambda>path. Max (file_nums files path)) ` set ?ps"
    using assms(5) by (intro image_cong) (simp_all add: path_num_Max)
  ultimately have "set ?dn = (\<lambda>path. Max (file_nums files path)) ` set ?ps" by simp
  moreover from this have "?dn \<noteq> []" using assms(4) by auto
  moreover have "Max ((\<lambda>path. Max (file_nums files path)) ` set ?ps) = serial_max files ?ps"
    using Max_of_Max [of "set ?ps" "file_nums files" "{}"] assms(4,5) by (simp add: serial_max_Max)
  ultimately show ?thesis using ok counts_ok_taskCount [OF ok] c by (simp add: counts_ok_def)
qed

text \<open>A client connects to a server with one thread in its pool and asks for two files.\<close>

abbreviation example_reach :: "(string, nat) mrsys \<Rightarrow> bool" where
  "example_reach \<equiv> mrsys_reach files_example (\<lambda>_ _. True) (\<lambda>_. ''recv'') (\<lambda>_. ''send'') 1 4 0 reactor5"

lemma mrsys_example:
  obtains s where "example_reach s" "tasks_out s = {#new_MapTask (Some (3, ''a'')), new_MapTask (Some (3, ''b''))#}"
    "sy_queue s = []" "sv_connections (sy_service s) 3 \<noteq> None" "sy_asked s 3 = [''a'', ''b'']" "mr_work s = 10"
    "\<And>h. h \<noteq> 3 \<Longrightarrow> sv_connections (sy_service s) h = None" "sy_done s 3 = []"
proof -
  let ?lib = "\<lambda>_ _. True" and ?rc = "\<lambda>_. ''recv''" and ?sc = "\<lambda>_. ''send''"
  let ?step = "mrsys_step files_example ?lib ?rc ?sc"
  have r: "reactor_inv reactor5" "3 < reactor_nfds reactor5" using reactor5_start by (auto simp: stream_start_def)
  define s0 :: "(string, nat) mrsys" where "s0 = mrsys_init 1 4 0 reactor5"
  have s0: "example_reach s0" unfolding s0_def by (rule mrsys_reach.start)
  have init: "sy_queue s0 = []" "sy_objs s0 = Map.empty" "sy_reactor s0 = reactor5" "sy_pending s0 = []"
    "crb_items (tp_queue (sy_pool s0)) = []" "sy_workers s0 = [MFetch]" "sv_connections (sy_service s0) = Map.empty"
    by (simp_all add: s0_def mrsys_init_def pool_start_def pool_spawn_threads new_ThreadPool_def
        TASK_QUEUE_MAX_SIZE_def new_InteractiveTask_def setStat_def MSG_QUEUE_SIZE_def
        setNewConnectionCallback_def new_NetWorkService_def Let_def numeral_eq_Suc)
  note inv = mrsys_reach_inv [OF _ _ r(1)]
  obtain t where t: "?step Client s0 (s0\<lparr>sy_task := t\<rparr>)" "crb_items (it_queue t) = [new_NewConnectMessage 3]"
    by (rule can_accept [OF inv [OF s0], of 3 ?lib ?rc ?sc]) (use that init r in simp_all)
  note s1 = mrsys_reach.step [OF s0 t(1)]
  obtain c u r2 sv where c: "?step Server (s0\<lparr>sy_task := t\<rparr>) (s0\<lparr>sy_task := u, sy_service := sv,
      sy_objs := [3 \<mapsto> c], sy_reactor := r2, sy_asked := (sy_asked s0)(3 := []), sy_done := (sy_done s0)(3 := [])\<rparr>)"
    "mr_ready ?lib r2 c" "crb_items (it_queue u) = []" "sv_connections sv 3 \<noteq> None"
    by (rule can_connect [OF inv [OF s1] lib_adds_True, of 3 "[]" ?rc ?sc]) (use that init t in simp_all)
  note s2 = mrsys_reach.step [OF s1 c(1)]
  obtain s3 s4 where q: "?step Client (s0\<lparr>sy_task := u, sy_service := sv, sy_objs := [3 \<mapsto> c], sy_reactor := r2,
      sy_asked := (sy_asked s0)(3 := []), sy_done := (sy_done s0)(3 := [])\<rparr>) s3" "?step Client s3 s4"
    "sy_pending s4 = map (\<lambda>path. new_MapTask (Some (3, path))) [''a'', ''b'']" "sy_asked s4 3 = [''a'', ''b'']"
    "sy_pool s4 = sy_pool s0" "sy_workers s4 = sy_workers s0" "sy_task s4 = u" "sy_service s4 = sv"
    "sy_done s4 = (sy_done s0)(3 := [])"
    by (rule can_request [OF inv [OF s2] lib_adds_True _ _ _ request_example(1), of 3 c ?rc ?sc])
      (use that init c in simp_all)
  have "sv_connections sv h = None" if "h \<noteq> 3" for h
    using objs_okD(3) [OF mrsys_invD(8) [OF inv [OF s2]], of h] that by auto
  then show ?thesis using mrsys_reach.step [OF mrsys_reach.step [OF s2 q(1)] q(2)] q init c
    by (intro that [of s4]) (simp_all add: tasks_out_def mr_work_def)
qed

subsection \<open>An overloaded server\<close>

lemma mrsys_step_nfds:
  assumes "mrsys_step files lib rc sc l s s'" "mrsys_inv files s"
  shows "reactor_nfds (sy_reactor s') = reactor_nfds (sy_reactor s)"
proof -
  note inv = mrsys_invD [OF assms(2)]
  note obj = objs_okD(1) [OF inv(8)]
  show ?thesis
    using assms(1)
  proof cases
    case (connect m t k fd co r w sv)
    note fd = accepted_head [OF assms(2) connect_head(2) [OF assms(2) connect(4,5)]]
    have "reactor_nfds r = reactor_nfds (sy_reactor s)"
      by (rule mr_onConnection_effect [OF connect(6) inv(6) fd(1,2,6,5,7)])
    then show ?thesis using connect(2) by simp
  next
    case (deliver m t c0 k c c' r n)
    note t = it_round_Some [OF deliver(4) inv(3,5)]
    have q: "queue_ok (m # crb_items (it_queue t))" using inv(9) t(1) by (simp add: news_ok_def)
    then have m: "m = new_MapDoneConnectionMessage k n" using deliver(5,6,9)
      by (cases rule: queue_head, auto split: option.splits)
    have "conn_live (sy_reactor s) c" using obj [OF deliver(7)] inv(6) by (auto simp: conn_live_def)
    from mr_onMessage_effect(4) [OF deliver(8) [unfolded m] this] deliver(2) show ?thesis by simp
  next
    case (event h c ev co r w bytes sv)
    show ?thesis by (rule event_effect [OF assms(2) event(4-6)]) (use event(2) in simp)
  next
    case (release i t k path c co r w)
    have c: "0 \<le> st_fd (cn_stream c)" "st_fd (cn_stream c) < reactor_nfds (sy_reactor s)"
      using obj [OF release(6)] by auto
    show ?thesis using release(2,7) lev.delete_Stream_frame(2) [OF _ inv(6) c]
      by (fastforce simp: mr_release_def Let_def and_then_Inr_iff split: if_splits)
  qed simp_all
qed

lemma mrsys_reach_nfds:
  assumes "mrsys_reach files lib rc sc threadNum efd k r s" "0 \<le> efd" "reactor_inv r"
  shows "reactor_nfds (sy_reactor s) = reactor_nfds r"
  using assms(1)
proof (induction rule: mrsys_reach.induct)
  case start
  show ?case by (simp add: mrsys_init_def Let_def)
next
  case (step s l s')
  with mrsys_step_nfds [OF step.hyps(2) mrsys_reach_inv [OF step.hyps(1) assms(2,3)]] show ?case by simp
qed

text \<open>Many posts, or many accepted clients, in a row.\<close>

lemma reach_posts:
  assumes "mrsys_reach files lib rc sc threadNum efd k r s" "0 \<le> efd" "reactor_inv r"
    and "n \<le> length (sy_pending s)" "length (crb_items (tp_queue (sy_pool s))) + n \<le> 999"
  shows "\<exists>p. mrsys_reach files lib rc sc threadNum efd k r (s\<lparr>sy_pool := p, sy_pending := drop n (sy_pending s)\<rparr>) \<and>
    length (crb_items (tp_queue p)) = length (crb_items (tp_queue (sy_pool s))) + n"
  using assms(4,5)
proof (induction n)
  case 0
  show ?case by (rule exI [of _ "sy_pool s"]) (simp add: assms(1))
next
  case (Suc n)
  then obtain p where p: "mrsys_reach files lib rc sc threadNum efd k r
      (s\<lparr>sy_pool := p, sy_pending := drop n (sy_pending s)\<rparr>)" (is "mrsys_reach _ _ _ _ _ _ _ _ ?t")
    "length (crb_items (tp_queue p)) = length (crb_items (tp_queue (sy_pool s))) + n" by auto
  note inv = mrsys_invD [OF mrsys_reach_inv [OF p(1) assms(2,3)]]
  have t: "sy_pending ?t = (sy_pending s ! n) # drop (Suc n) (sy_pending s)"
    using Suc.prems(1) by (simp add: Cons_nth_drop_Suc)
  obtain p' where p': "syncPostTask p (Some (sy_pending s ! n)) = Inr (Some p')"
    using Suc.prems(2) p(2) inv(1,11) by (simp add: syncPostTask_def crb_put_cases crb_length_items)
  have "crb_items (tp_queue p') = crb_items (tp_queue p) @ [Some (sy_pending s ! n)]"
    using post_items(1) [OF _ p'] inv(1) by simp
  moreover have "mrsys_step files lib rc sc Server ?t (?t\<lparr>sy_pool := p', sy_pending := drop (Suc n) (sy_pending s)\<rparr>)"
    by (rule mrsys_step.post [OF t]) (simp add: p')
  ultimately show ?case using mrsys_reach.step [OF p(1)] p(2) by (intro exI [of _ p']) simp
qed

lemma reach_accepts:
  assumes "mrsys_reach files lib rc sc threadNum efd k r s" "0 \<le> efd" "reactor_inv r"
    and "0 < a" "a + int n \<le> reactor_nfds r" "\<And>fd. a \<le> fd \<Longrightarrow> sy_objs s fd = None"
    and "\<And>fd. a \<le> fd \<Longrightarrow> new_NewConnectMessage fd \<notin> set (sy_queue s)" "length (sy_queue s) + n \<le> 49999"
  shows "\<exists>t. mrsys_reach files lib rc sc threadNum efd k r (s\<lparr>sy_task := t\<rparr>) \<and>
    length (crb_items (it_queue t)) = length (sy_queue s) + n \<and>
    (\<forall>fd \<ge> a + int n. new_NewConnectMessage fd \<notin> set (crb_items (it_queue t)))"
  using assms(5,8)
proof (induction n)
  case 0
  show ?case by (rule exI [of _ "sy_task s"]) (use assms(1,7) in simp)
next
  case (Suc n)
  then obtain t where t: "mrsys_reach files lib rc sc threadNum efd k r (s\<lparr>sy_task := t\<rparr>)"
    "length (crb_items (it_queue t)) = length (sy_queue s) + n"
    "\<forall>fd \<ge> a + int n. new_NewConnectMessage fd \<notin> set (crb_items (it_queue t))" by auto
  note inv = mrsys_reach_inv [OF t(1) assms(2,3)] and nfds = mrsys_reach_nfds [OF assms(1-3)]
  obtain u where u: "mrsys_step files lib rc sc Client (s\<lparr>sy_task := t\<rparr>) (s\<lparr>sy_task := u\<rparr>)"
    "crb_items (it_queue u) = crb_items (it_queue t) @ [new_NewConnectMessage (a + int n)]"
    by (rule can_accept [OF inv, of "a + int n" lib rc sc])
      (use t(2,3) Suc.prems assms(4,6) nfds that in simp_all)
  show ?case
    by (rule exI [of _ u]) (use mrsys_reach.step [OF t(1) u(1)] u(2) t(2,3) in auto)
qed

text \<open>A client on a descriptor that is not open connects and asks for files.\<close>

lemma reach_client:
  assumes "mrsys_reach files lib rc sc threadNum efd k r s" "0 \<le> efd" "reactor_inv r" "lib_adds lib"
    and "0 < fd" "fd < reactor_nfds r" "sy_objs s fd = None" "sy_pending s = []" "sy_queue s = []"
    and "request_ok paths"
  obtains s' where "mrsys_reach files lib rc sc threadNum efd k r s'"
    "sy_pending s' = map (\<lambda>path. new_MapTask (Some (fd, path))) paths" "sy_pool s' = sy_pool s"
    "sy_workers s' = sy_workers s" "sy_queue s' = []" "\<And>h. h \<noteq> fd \<Longrightarrow> sy_objs s' h = sy_objs s h"
proof -
  note inv = mrsys_reach_inv [OF _ assms(2,3)]
  obtain t where t: "mrsys_step files lib rc sc Client s (s\<lparr>sy_task := t\<rparr>)"
    "crb_items (it_queue t) = [new_NewConnectMessage fd]"
    by (rule can_accept [OF inv [OF assms(1)], of fd lib rc sc])
      (use assms mrsys_reach_nfds [OF assms(1-3)] that in simp_all)
  note s1 = mrsys_reach.step [OF assms(1) t(1)]
  obtain c u r2 sv where c: "mrsys_step files lib rc sc Server (s\<lparr>sy_task := t\<rparr>) (s\<lparr>sy_task := u, sy_service := sv,
      sy_objs := (sy_objs s)(fd \<mapsto> c), sy_reactor := r2, sy_asked := (sy_asked s)(fd := []),
      sy_done := (sy_done s)(fd := [])\<rparr>)"
    "mr_ready lib r2 c" "crb_items (it_queue u) = []"
    by (rule can_connect [OF inv [OF s1] assms(4), of fd "[]" rc sc]) (use assms(8) t that in simp_all)
  note s2 = mrsys_reach.step [OF s1 c(1)]
  obtain s3 s4 where q: "mrsys_step files lib rc sc Client (s\<lparr>sy_task := u, sy_service := sv,
      sy_objs := (sy_objs s)(fd \<mapsto> c), sy_reactor := r2, sy_asked := (sy_asked s)(fd := []),
      sy_done := (sy_done s)(fd := [])\<rparr>) s3" "mrsys_step files lib rc sc Client s3 s4"
    "sy_pending s4 = map (\<lambda>path. new_MapTask (Some (fd, path))) paths" "sy_pool s4 = sy_pool s"
    "sy_workers s4 = sy_workers s" "sy_task s4 = u" "\<And>h. h \<noteq> fd \<Longrightarrow> sy_objs s4 h = sy_objs s h"
    by (rule can_request [OF inv [OF s2] assms(4) _ _ _ assms(10), of fd c rc sc])
      (use assms(8) c that in simp_all)
  show ?thesis
    by (rule that [OF mrsys_reach.step [OF mrsys_reach.step [OF s2 q(1)] q(2)] q(3-5) _ q(7)])
      (simp_all add: q(6) c(3))
qed

lemma request_many: "0 < n \<Longrightarrow> n \<le> 512 \<Longrightarrow> request_ok (replicate n ''a'')"
proof -
  assume n: "0 < n" "n \<le> 512"
  have "length (join (CHR '' '') (replicate (Suc m) ''a'')) = Suc (2 * m)" for m
    by (induction m) simp_all
  from this [of "n - 1"] n have "length (join (CHR '' '') (replicate n ''a'')) \<le> 1024" by simp
  with n show ?thesis by (simp add: request_ok_def bench_request_join)
qed

lemma overload_example:
  obtains r and s :: "(string, nat) mrsys" where "reactor_inv r"
    "mrsys_reach (\<lambda>_. Some ''5'') (\<lambda>_ _. True) (\<lambda>_. ''recv'') (\<lambda>_. ''send'') 1 4 0 r s" "mr_deadlock s"
proof -
  let ?lib = "\<lambda>_ _. True" and ?rc = "\<lambda>_ :: int. ''recv''" and ?sc = "\<lambda>_ :: int. ''send''"
  let ?files = "\<lambda>_. Some ''5''"
  obtain r :: "string reactor" where "initReactor ?lib new_LibeventReactor 60000 = Inr (True, r)"
    by (simp add: initReactor_def lib_do_eq)
  from initReactor_ok [OF this] have r: "reactor_inv r" "reactor_nfds r = 60000"
    by (simp_all add: new_LibeventReactor_def)
  let ?reach = "mrsys_reach ?files ?lib ?rc ?sc 1 4 (0::nat) r"
  define s0 :: "(string, nat) mrsys" where "s0 = mrsys_init 1 4 0 r"
  have s0: "?reach s0" unfolding s0_def by (rule mrsys_reach.start)
  have init: "sy_queue s0 = []" "sy_objs s0 = Map.empty" "sy_pending s0 = []"
    "crb_items (tp_queue (sy_pool s0)) = []" "sy_workers s0 = [MFetch]"
    by (simp_all add: s0_def mrsys_init_def pool_start_def pool_spawn_threads new_ThreadPool_def
        TASK_QUEUE_MAX_SIZE_def new_InteractiveTask_def setStat_def MSG_QUEUE_SIZE_def Let_def numeral_eq_Suc)
  obtain paths where paths: "request_ok paths" "length paths = 512"
    by (rule that [OF request_many length_replicate]) simp_all
  obtain s1 where s1: "?reach s1" "length (sy_pending s1) = 512" "sy_pool s1 = sy_pool s0" "sy_workers s1 = [MFetch]"
    "sy_queue s1 = []" "\<And>h. h \<noteq> 1 \<Longrightarrow> sy_objs s1 h = None"
    by (rule reach_client [OF s0 _ r(1) lib_adds_True _ _ _ _ _ paths(1), of 1])
      (use init r(2) paths(2) that in simp_all)
  obtain p where p: "?reach (s1\<lparr>sy_pool := p, sy_pending := drop 512 (sy_pending s1)\<rparr>)"
    "length (crb_items (tp_queue p)) = 512"
    using reach_posts [OF s1(1) _ r(1), of 512] s1(2,3) init(4) by auto
  note inv = mrsys_invD [OF mrsys_reach_inv [OF p(1) _ r(1)]]
  obtain x xs where "crb_items (tp_queue p) = x # xs" using p(2) by (cases "crb_items (tp_queue p)") auto
  with inv(2) obtain t where q: "crb_items (tp_queue p) = Some t # xs" by (cases x) auto
  then obtain p' where p': "threadEntry p = Inr (Some (t, p'))" "crb_items (tp_queue p') = xs"
    using threadEntry_run [of p t xs] inv(1) by auto
  let ?s2 = "s1\<lparr>sy_pool := p, sy_pending := drop 512 (sy_pending s1)\<rparr>"
  let ?s3 = "?s2\<lparr>sy_pool := p', sy_workers := [MRun t]\<rparr>"
  have "mrsys_step ?files ?lib ?rc ?sc Server ?s2 (?s2\<lparr>sy_pool := p', sy_workers := (sy_workers ?s2)[0 := MRun t]\<rparr>)"
    by (rule mrsys_step.fetch) (simp_all add: s1(4) p'(1))
  with mrsys_reach.step [OF p(1)] s1(4) have s3: "?reach ?s3" by simp
  obtain s4 where s4: "?reach s4" "length (sy_pending s4) = 512" "sy_pool s4 = p'" "sy_workers s4 = [MRun t]"
    "sy_queue s4 = []" "\<And>h. h \<noteq> 1 \<Longrightarrow> h \<noteq> 2 \<Longrightarrow> sy_objs s4 h = None"
    by (rule reach_client [OF s3 _ r(1) lib_adds_True _ _ _ _ _ paths(1), of 2])
      (use s1(2,5,6) r(2) paths(2) that in simp_all)
  have "length xs = 511" using p(2) q by simp
  then obtain p'' where s5: "?reach (s4\<lparr>sy_pool := p'', sy_pending := drop 488 (sy_pending s4)\<rparr>)"
    "length (crb_items (tp_queue p'')) = 999"
    using reach_posts [OF s4(1) _ r(1), of 488] s4(2,3) p'(2) by auto
  let ?s5 = "s4\<lparr>sy_pool := p'', sy_pending := drop 488 (sy_pending s4)\<rparr>"
  have "length (drop 488 (sy_pending s4)) = 24" using s4(2) by simp
  then have left: "drop 488 (sy_pending s4) \<noteq> []" by force
  obtain u where "?reach (?s5\<lparr>sy_task := u\<rparr>)" "length (crb_items (it_queue u)) = 49999"
    using reach_accepts [OF s5(1) _ r(1), of 3 49999] r(2) s4(5,6) by auto
  with s4(4) s5(2) left that [OF r(1), of "?s5\<lparr>sy_task := u\<rparr>"] show ?thesis
    by (simp add: mr_deadlock_def)
qed

section \<open>Properties\<close>

text \<open>
  C7: Clients that come and go are not mixed up. In every state the server can
  reach, however its threads and clients interleave and even when a descriptor was given to one
  client after another, the numbers of the paths a connection was asked for are those it has taken
  from messages, those in messages still queued for it and those of its tasks still to be run; its
  counter is the number of answers still to come.
\<close>

theorem clients_not_mixed:
  assumes "mrsys_reach files lib rc sc threadNum efd k r s" "0 \<le> efd" "reactor_inv r"
    and "sv_connections (sy_service s) h \<noteq> None"
  shows "\<exists>c. sy_objs s h = Some c \<and>
    image_mset (path_num files) (mset (sy_asked s h)) = mset (sy_done s h) + msg_nums h (sy_queue s) +
      image_mset (path_num files \<circ> snd \<circ> task_of) (of_handle h (tasks_out s)) \<and>
    mr_taskCount c = int (size (msg_nums h (sy_queue s))) + int (size (of_handle h (tasks_out s)))"
proof -
  note inv = mrsys_invD [OF mrsys_reach_inv [OF assms(1-3)]]
  obtain c where c: "sy_objs s h = Some c" using objs_okD(3) [OF inv(8)] assms(4) by blast
  then have "counts_ok files c (sy_asked s h) (sy_done s h) (msg_nums h (sy_queue s)) (of_handle h (tasks_out s))"
    using inv(10) [of h] assms(4) by auto
  with counts_ok_taskCount [OF this] c show ?thesis by (simp add: counts_ok_def)
qed

theorem clients_not_mixed_witness:
  "\<exists>s c. example_reach s \<and> sy_asked s 3 = [''a'', ''b''] \<and> sy_objs s 3 = Some c \<and> mr_taskCount c = 2"
proof -
  obtain s where s: "example_reach s" "tasks_out s = {#new_MapTask (Some (3, ''a'')), new_MapTask (Some (3, ''b''))#}"
    "sy_queue s = []" "sv_connections (sy_service s) 3 \<noteq> None" "sy_asked s 3 = [''a'', ''b'']"
    by (rule mrsys_example) (rule that)
  have "reactor_inv reactor5" using reactor5_start by (simp add: stream_start_def)
  from clients_not_mixed [OF s(1) _ this s(4)] s show ?thesis by auto
qed

text \<open>
  C21: No connection is used after it was deleted and none is kept for ever. In every state
  the server can reach, a connection object exists exactly as long as the service knows it or a task
  that is queued, running or about to let go is bound to it.
\<close>

theorem connection_lifetimes:
  assumes "mrsys_reach files lib rc sc threadNum efd k r s" "0 \<le> efd" "reactor_inv r"
  shows "sy_objs s h \<noteq> None \<longleftrightarrow>
    sv_connections (sy_service s) h \<noteq> None \<or> of_handle h (tasks_held s) \<noteq> {#}"
  using objs_okD(2-4) [OF mrsys_invD(8) [OF mrsys_reach_inv [OF assms]], of h] by blast

theorem connection_lifetimes_witness:
  "\<exists>s. example_reach s \<and> tasks_out s = {#new_MapTask (Some (3, ''a'')), new_MapTask (Some (3, ''b''))#} \<and>
    sy_objs s 3 \<noteq> None"
proof -
  obtain s where s: "example_reach s" "tasks_out s = {#new_MapTask (Some (3, ''a'')), new_MapTask (Some (3, ''b''))#}"
    "sv_connections (sy_service s) 3 \<noteq> None" by (rule mrsys_example) (rule that)
  have "reactor_inv reactor5" using reactor5_start by (simp add: stream_start_def)
  from connection_lifetimes [OF s(1) _ this, of 3] s show ?thesis by auto
qed

text \<open>
  C39: The casts of the service are right. In every state the server can reach, a
  message in the service's queue is of the class that its \<open>what_\<close> says: one called \<open>NEW_CONNECT\<close> is
  a \<open>NewConnectMessage\<close> with an open descriptor that no connection has, one called \<open>CONNECTION\<close> is a
  \<open>MapDoneConnectionMessage\<close> with a handle and a number, and there are no others; so
  \<open>static_pointer_cast\<close> never yields a member that does not exist, in the service or in the
  connection.
\<close>

theorem messages_keep_class:
  assumes "mrsys_reach files lib rc sc threadNum efd k r s" "0 \<le> efd" "reactor_inv r" "m \<in> set (sy_queue s)"
  shows "(\<exists>fd. getWhat m = ''NEW_CONNECT'' \<and> msg_class m = NewConnectMessage fd \<and> 0 < fd \<and>
      fd < reactor_nfds (sy_reactor s) \<and> sy_objs s fd = None) \<or>
    (\<exists>h n. getWhat m = ''CONNECTION'' \<and> msg_class m = MapDoneConnectionMessage h n)"
proof -
  note inv = mrsys_invD [OF mrsys_reach_inv [OF assms(1-3)]]
  have "(\<exists>fd. m = new_NewConnectMessage fd) \<or> (\<exists>h n. m = new_MapDoneConnectionMessage h n)"
    if "queue_ok q" "m \<in> set q" for q using that by (induction q) auto
  with inv(9) assms(4) have "(\<exists>fd. m = new_NewConnectMessage fd) \<or> (\<exists>h n. m = new_MapDoneConnectionMessage h n)"
    by (auto simp: news_ok_def)
  with inv(9) assms(4) show ?thesis
    by (auto simp: news_ok_def getWhat_def new_NewConnectMessage_def new_MapDoneConnectionMessage_def domIff)
qed

theorem messages_keep_class_witness:
  "\<exists>s m. example_reach s \<and> m \<in> set (sy_queue s) \<and> getWhat m = ''NEW_CONNECT'' \<and> sy_objs s 3 = None"
proof -
  have r: "reactor_inv reactor5" "3 < reactor_nfds reactor5" using reactor5_start by (auto simp: stream_start_def)
  let ?s = "mrsys_init 1 4 0 reactor5 :: (string, nat) mrsys"
  have s: "example_reach ?s" by (rule mrsys_reach.start)
  have init: "sy_queue ?s = []" "sy_objs ?s = Map.empty" "sy_reactor ?s = reactor5"
    by (simp_all add: mrsys_init_def new_InteractiveTask_def setStat_def MSG_QUEUE_SIZE_def Let_def)
  obtain t where t: "mrsys_step files_example (\<lambda>_ _. True) (\<lambda>_. ''recv'') (\<lambda>_. ''send'') Client ?s (?s\<lparr>sy_task := t\<rparr>)"
    "crb_items (it_queue t) = [new_NewConnectMessage 3]"
    by (rule can_accept [OF mrsys_reach_inv [OF s _ r(1)], of 3 "\<lambda>_ _. True" "\<lambda>_. ''recv''" "\<lambda>_. ''send''"])
      (use that init r in simp_all)
  have "msg_class (new_NewConnectMessage 3 :: unit message) = NewConnectMessage 3"
    by (simp add: new_NewConnectMessage_def)
  with messages_keep_class [OF mrsys_reach.step [OF s t(1)] _ r(1), of "new_NewConnectMessage 3"] t(2) init
    mrsys_reach.step [OF s t(1)]
  show ?thesis by (intro exI [of _ "?s\<lparr>sy_task := t\<rparr>"] exI [of _ "new_NewConnectMessage 3"]) auto
qed

text \<open>
  C6: The server answers everybody. From every state it can reach in which the files asked for can be
  read and its queues are not overloaded, the server's threads take at most \<open>mr_work\<close> steps, in
  whatever order, and they can take a step until nothing is left to do. Then every client that is
  still connected and has asked for something has its answer in the buffer of its stream: the four
  bytes of the largest number in all the files it has asked for, which is what the serial program
  computes. And for every client that was waiting for an answer, the stream is registered for
  writing: the writable events of its descriptor give exactly these four bytes to the socket, however
  \<open>send\<close> splits them.
\<close>

theorem all_requests_answered:
  assumes "mrsys_reach files lib rc sc threadNum efd k r s" "0 \<le> efd" "reactor_inv r" "0 < threadNum"
    and "lib_adds lib" "lib_removes lib" "\<forall>t \<in># tasks_out s. file_nums files (snd (task_of t)) \<noteq> {}"
    and "\<forall>h path. sv_connections (sy_service s) h \<noteq> None \<and> path \<in> set (sy_asked s h) \<longrightarrow> file_nums files path \<noteq> {}"
    and "mr_load s < 50999 + nat threadNum" "(mrsys_step files lib rc sc Server ^^ n) s s'"
  shows "n \<le> mr_work s \<and> ((\<exists>s''. mrsys_step files lib rc sc Server s' s'') \<or>
    tasks_held s' = {#} \<and> sy_queue s' = [] \<and>
    (\<forall>h. sv_connections (sy_service s) h \<noteq> None \<and> sy_asked s h \<noteq> [] \<longrightarrow>
      (\<exists>c M. sy_objs s' h = Some c \<and> mr_taskCount c = 0 \<and> sendBuf (cn_stream c) = int_bytes M \<and>
        M = Max (\<Union>path \<in> set (sy_asked s h). file_nums files path) \<and>
        M = serial_max files (sy_asked s h) \<and>
        (length (sy_done s h) < length (sy_asked s h) \<longrightarrow>
          reactor_handler (sy_reactor s') (h, Wr) = Some (sendOnePackCall (cn_stream c)) \<and>
          (\<forall>ss. takes ss 4 \<longrightarrow> (\<exists>c' r'.
             mr_run lib (Some c) (sy_reactor s') (sy_world s' h) (map Writable ss) =
               Inr (Some c', r', sy_world s' h, int_bytes M)))))))" (is "_ \<and> (?more \<or> ?answered)")
proof (intro conjI)
  note inv = mrsys_reach_inv [OF assms(1-3)]
  have run: "mrsys_inv files s'" "mr_work s' + n \<le> mr_work s" "mr_load s' \<le> mr_load s" "tasks_out s' \<subseteq># tasks_out s"
    "length (sy_workers s') = nat threadNum" "\<And>h. sv_connections (sy_service s) h \<noteq> None \<Longrightarrow>
      sv_connections (sy_service s') h \<noteq> None \<and> sy_asked s' h = sy_asked s h"
    using server_run_work [OF assms(10) inv] mrsys_reach_workers [OF assms(1)] by simp_all
  then show "n \<le> mr_work s" by simp
  have "files_ok files s'" using assms(7) mset_subset_eqD [OF run(4)] by (auto simp: files_ok_def)
  moreover have "\<not> mr_deadlock s'" using deadlock_load [of s'] run(3,5) assms(9) by auto
  moreover have "sy_workers s' \<noteq> []" using run(5) assms(4) by auto
  ultimately have work: "mr_work s' = 0" if "\<nexists>s''. mrsys_step files lib rc sc Server s' s''"
    using server_goes_on [OF run(1) assms(5,6)] that by blast
  have answered: "\<exists>c M. sy_objs s' h = Some c \<and> mr_taskCount c = 0 \<and> sendBuf (cn_stream c) = int_bytes M \<and>
        M = Max (\<Union>path \<in> set (sy_asked s h). file_nums files path) \<and>
        M = serial_max files (sy_asked s h) \<and>
        (length (sy_done s h) < length (sy_asked s h) \<longrightarrow>
          reactor_handler (sy_reactor s') (h, Wr) = Some (sendOnePackCall (cn_stream c)) \<and>
          (\<forall>ss. takes ss 4 \<longrightarrow> (\<exists>c' r'.
             mr_run lib (Some c) (sy_reactor s') (sy_world s' h) (map Writable ss) =
               Inr (Some c', r', sy_world s' h, int_bytes M))))"
    if w: "mr_work s' = 0" and h: "sv_connections (sy_service s) h \<noteq> None" "sy_asked s h \<noteq> []" for h
  proof -
    have files: "\<forall>path \<in> set (sy_asked s h). file_nums files path \<noteq> {}" using assms(8) h(1) by blast
    obtain c where c: "sy_objs s' h = Some c" "mr_taskCount c = 0"
      "sendBuf (cn_stream c) = int_bytes (serial_max files (sy_asked s h))"
      using work_done_answered [OF run(1) w, of h] run(6) [OF h(1)] h(2) files by auto
    have "mr_answering s' h" if "length (sy_done s h) < length (sy_asked s h)"
      using server_run_answering [OF assms(10) inv assms(5) h(1)] waiting_answering [OF inv h(1) that] .
    moreover have "st_fd (cn_stream c) = h" using objs_okD(1) [OF mrsys_invD(8) [OF run(1)] c(1)] by simp
    ultimately show ?thesis
      using c serial_max_Max [OF h(2) files] answering_sends [OF _ c(1,2) assms(5), of _ "sy_world s' h"]
      by (intro exI [of _ c] exI [of _ "serial_max files (sy_asked s h)"])
        (auto simp: mr_answering_def lev.writes_def)
  qed
  show "?more \<or> ?answered" using work answered work_done [of s'] by blast
qed

theorem all_requests_answered_witness:
  "\<exists>s n s' c. example_reach s \<and> sy_asked s 3 = [''a'', ''b''] \<and>
    (mrsys_step files_example (\<lambda>_ _. True) (\<lambda>_. ''recv'') (\<lambda>_. ''send'') Server ^^ n) s s' \<and> n \<le> 10 \<and>
    sy_objs s' 3 = Some c \<and> (\<exists>c' r'. mr_run (\<lambda>_ _. True) (Some c) (sy_reactor s') (sy_world s' 3)
      [Writable (Sent 1), Writable (Sent 3)] = Inr (Some c', r', sy_world s' 3, int_bytes 7))"
proof -
  let ?step = "mrsys_step files_example (\<lambda>_ _. True) (\<lambda>_. ''recv'') (\<lambda>_. ''send'') Server"
  obtain s where s: "example_reach s" "tasks_out s = {#new_MapTask (Some (3, ''a'')), new_MapTask (Some (3, ''b''))#}"
    "sy_queue s = []" "sv_connections (sy_service s) 3 \<noteq> None" "sy_asked s 3 = [''a'', ''b'']" "mr_work s = 10"
    "\<And>h. h \<noteq> 3 \<Longrightarrow> sv_connections (sy_service s) h = None" "sy_done s 3 = []"
    by (rule mrsys_example) (rule that)
  have r: "reactor_inv reactor5" using reactor5_start by (simp add: stream_start_def)
  have files: "\<forall>h path. sv_connections (sy_service s) h \<noteq> None \<and> path \<in> set (sy_asked s h) \<longrightarrow>
      file_nums files_example path \<noteq> {}"
  proof (intro allI impI)
    fix h path
    assume "sv_connections (sy_service s) h \<noteq> None \<and> path \<in> set (sy_asked s h)"
    with s(5,7) show "file_nums files_example path \<noteq> {}" by (cases "h = 3") (auto simp: files_example_nums)
  qed
  have tk: "takes [Sent 1, Sent 3] 4" by (simp add: takes_def send_goes_on_def)
  have fresh: "length (sy_done s 3) < length (sy_asked s 3)" using s(5,8) by simp
  let ?heard = "\<lambda>s' c. \<exists>c' r'. mr_run (\<lambda>_ _. True) (Some c) (sy_reactor s') (sy_world s' 3)
      (map Writable [Sent 1, Sent 3]) = Inr (Some c', r', sy_world s' 3, int_bytes 7)"
  have hyps: "(0::int) \<le> 4" "0 < (1::int)" "lib_removes (\<lambda>_ _. True)" "mr_load s < 50999 + nat 1"
    "\<forall>t \<in># tasks_out s. file_nums files_example (snd (task_of t)) \<noteq> {}"
    using s(2,3) by (simp_all add: lib_removes_def mr_load_def files_example_nums)
  have served: "n \<le> 10 \<and> ((\<exists>s''. ?step s' s'') \<or>
      (\<exists>c. sy_objs s' 3 = Some c \<and> ?heard s' c))" if "(?step ^^ n) s s'" for n s'
  proof -
    note all = all_requests_answered [OF s(1) hyps(1) r hyps(2) lib_adds_True hyps(3,5) files hyps(4) that]
    have asked: "sv_connections (sy_service s) 3 \<noteq> None \<and> sy_asked s 3 \<noteq> []"
      "serial_max files_example (sy_asked s 3) = 7" using s(4,5) request_example(6) by simp_all
    from conjunct2 [OF all] have "(\<exists>s''. ?step s' s'') \<or>
      (\<exists>c. sy_objs s' 3 = Some c \<and> ?heard s' c)"
      using asked fresh tk by metis
    with conjunct1 [OF all] s(6) show ?thesis by (simp only: simp_thms)
  qed
  have "m \<le> 10" if "(?step ^^ m) s t" for m t using conjunct1 [OF served [OF that]] .
  then obtain n s' where s': "(?step ^^ n) s s'" and stop: "\<nexists>s''. ?step s' s''"
    by (rule bounded_run_ends [of ?step s 10])
  with served [OF s'] s(1,5) show ?thesis unfolding list.map by blast
qed

text \<open>
  C40: Overload. When the files of the tasks that wait or run can be read, the server stops exactly
  in the states in which more than a thousand tasks wait while almost fifty thousand answers are
  queued: of the reachable states with work left, those in which its threads can not take a step are
  those in which the service's thread waits in \<open>syncPostTask\<close> for room in the pool's queue while
  every thread of the pool waits in \<open>notifyMsg\<close> for room in the service's queue. Then no client can
  be accepted or heard either, for ever. Such a state can be reached, as the witness shows.
\<close>

theorem overloaded_server_stops:
  assumes "mrsys_reach files lib rc sc threadNum efd k r s" "0 \<le> efd" "reactor_inv r" "0 < threadNum"
    and "lib_adds lib" "lib_removes lib" "\<forall>t \<in># tasks_out s. file_nums files (snd (task_of t)) \<noteq> {}"
    and "0 < mr_work s"
  shows "((\<nexists>s'. mrsys_step files lib rc sc Server s s') \<longleftrightarrow> mr_deadlock s) \<and>
    ((\<nexists>s'. mrsys_step files lib rc sc Server s s') \<longrightarrow> (\<nexists>l s'. mrsys_step files lib rc sc l s s'))"
proof -
  have inv: "mrsys_inv files s" by (rule mrsys_reach_inv [OF assms(1-3)])
  have "sy_workers s \<noteq> []" using mrsys_reach_workers [OF assms(1)] assms(4) by auto
  moreover have "files_ok files s" using assms(7) by (simp add: files_ok_def)
  ultimately have "mr_deadlock s" if "\<nexists>s'. mrsys_step files lib rc sc Server s s'"
    using server_goes_on [OF inv assms(5,6) _ _ assms(8)] that by blast
  then show ?thesis using deadlock_stuck [OF inv] by blast
qed

text \<open>
  A server with one thread in its pool is overloaded: one client asks for 512 numbers, of which one
  task is taken and 511 wait, another one asks for 512 more, of which 488 find room in the pool's
  queue, and then 49999 clients connect.
\<close>

theorem overloaded_server_stops_witness:
  "\<exists>r s. mrsys_reach (\<lambda>_. Some ''5'') (\<lambda>_ _. True) (\<lambda>_. ''recv'') (\<lambda>_. ''send'') 1 4 (0 :: nat) r s \<and>
    mr_deadlock s \<and>
    (\<nexists>l s'. mrsys_step (\<lambda>_. Some ''5'') (\<lambda>_ _. True) (\<lambda>_. ''recv'') (\<lambda>_. ''send'') l s s')"
proof -
  obtain r and s :: "(string, nat) mrsys" where s: "reactor_inv r"
    "mrsys_reach (\<lambda>_. Some ''5'') (\<lambda>_ _. True) (\<lambda>_. ''recv'') (\<lambda>_. ''send'') 1 4 0 r s" "mr_deadlock s"
    by (rule overload_example) (rule that)
  have fives: "file_nums (\<lambda>_. Some ''5'') path = {5}" for path by (simp add: file_nums_def files_example_ints)
  have "0 < mr_work s" using s(3) by (simp add: mr_deadlock_def mr_work_def)
  from overloaded_server_stops [OF s(2) _ s(1) _ lib_adds_True _ _ this] s fives show ?thesis
    by (simp add: lib_removes_def) blast
qed

end
