(* ===== verification/FrameEvents.thy ===== *)
theory FrameEvents
  imports FramedConnection
begin

text \<open>
  Messages of a connection, one event at a time: how far the reading of a message has come and what
  is left to send, and what the next event makes of it. The theories that interleave the events of
  many connections with those of their peers rest on these lemmas.
\<close>

section \<open>Sending\<close>

context event_reactor
begin

text \<open>\<open>left\<close> is what the stream still has to send.\<close>

definition sending :: "'r \<Rightarrow> ('cb, unit) stream \<Rightarrow> string \<Rightarrow> bool" where
  "sending r s left \<longleftrightarrow> writes r s \<and> sendCompleteCallback s = Some () \<and> left \<noteq> [] \<and>
     left = drop (nat (sendLen s)) (sendBuf s)"

lemma sending_left: "sending r s left \<Longrightarrow> needSendLen s = int (length left)"
  by (auto simp: sending_def writes_def send_ready_def)

lemma sending_one:
  assumes "sending r s left"
  shows "handler r (st_fd s, Wr) \<noteq> None" "send_fits s (Sent 1)"
proof -
  show "handler r (st_fd s, Wr) \<noteq> None" using assms by (simp add: sending_def writes_def)
  have "0 < length left" using assms unfolding sending_def by blast
  then show "send_fits s (Sent 1)" using sending_left [OF assms] by (simp add: Suc_le_eq)
qed

lemma sending_recv_side:
  assumes "sending r s left" "recv_side s s'" "inv r'" "nfds r' = nfds r"
    and "handler r' (st_fd s, Wr) = handler r (st_fd s, Wr)"
  shows "sending r' s' left"
  using assms writes_recv_side [OF _ assms(2-5)] by (auto simp: sending_def recv_side_iff)

lemma sending_ask:
  assumes "adds_ok add nfds inv" "inv r" "0 \<le> st_fd s" "st_fd s < nfds r" "length bytes \<le> 1024" "bytes \<noteq> []"
  obtains s' r' where "asyncSendBytes add s r bytes (Some ()) = Inr (True, s', r')" "sending r' s' bytes"
    "send_side s s'" "inv r'" "nfds r' = nfds r" "handler r' = (handler r)((st_fd s, Wr) \<mapsto> sendOnePackCall s)"
proof -
  obtain s' r' where s': "asyncSendBytes add s r bytes (Some ()) = Inr (True, s', r')" "writes r' s'"
    "sendLen s' = 0" "sendBuf s' = bytes" "sendCompleteCallback s' = Some ()" "send_side s s'" "inv r'"
    "nfds r' = nfds r" "handler r' = (handler r)((st_fd s, Wr) \<mapsto> sendOnePackCall s)"
    by (rule ask_send [OF assms(1-5), of "()"]) (rule that)
  then show ?thesis using assms(6) by (intro that [of s' r']) (simp_all add: sending_def)
qed

text \<open>The next event sends a part of what is left, or all of it.\<close>

lemma sending_event:
  assumes "adds_ok add nfds inv" "sending r (cn_stream c) left" "send_goes_on res" "send_fits (cn_stream c) res"
  obtains (more) s' r' where
      "conn_event add fire rd sd c r w (Writable res) =
        Inr (Some (c\<lparr>cn_stream := s'\<rparr>), r', w, take (result_count res) left)"
      "result_count res < length left" "sending r' s' (drop (result_count res) left)"
      "send_side (cn_stream c) s'" "inv r'" "nfds r' = nfds r" "handler r' = handler r"
  | (whole) s' r' where
      "conn_event add fire rd sd c r w (Writable res) =
        and_then (sd (c\<lparr>cn_stream := s'\<rparr>) r' w SENDED) (\<lambda>(co, r, w). Inr (co, r, w, left))"
      "result_count res = length left" "send_side (cn_stream c) s'" "inv r'" "nfds r' = nfds r"
      "handler r' = (handler r)((st_fd (cn_stream c), Wr) := None)"
proof -
  let ?s = "cn_stream c" and ?n = "result_count res"
  have s: "writes r ?s" "sendCompleteCallback ?s = Some ()" "left = drop (nat (sendLen ?s)) (sendBuf ?s)"
    using assms(2) by (simp_all add: sending_def)
  have need: "needSendLen ?s = int (length left)" using assms(2) by (rule sending_left)
  have "left \<noteq> []" using assms(2) unfolding sending_def by blast
  then have pos: "0 < needSendLen ?s" using need by simp
  have bs: "take ?n left = take ?n (drop (nat (sendLen ?s)) (sendBuf ?s))" using s(3) by simp
  have len: "0 \<le> sendLen ?s" using s(1) by (simp add: writes_def send_ready_def)
  from assms(1) s(1) assms(3,4) s(2) bs pos show ?thesis
  proof (cases rule: send_event)
    case (more s' r1 r' os)
    have n: "?n < length left" using more(4) need by simp
    have "drop (nat (sendLen s')) (sendBuf s') = drop ?n left"
      using more(7,8) s(3) len by (simp add: nat_add_distrib add.commute)
    then have "sending r' s' (drop ?n left)" using more(5,10) n by (simp add: sending_def)
    then show ?thesis using more n
      by (intro that(1) [of s' r']) (simp_all add: writes_def)
  next
    case (complete s' r1)
    have n: "?n = length left" using complete(3) need by simp
    let ?sd = "sd (c\<lparr>cn_stream := s'\<rparr>) r1 w SENDED"
    have "conn_event add fire rd sd c r w (Writable res) = and_then ?sd (\<lambda>(co, r, w). Inr (co, r, w, left))"
      using complete(1,2) n by (cases ?sd) (auto split: option.splits)
    then show ?thesis using complete n by (intro that(2) [of s' r1]) simp_all
  qed
qed

end

section \<open>Reading\<close>

context framed_reader
begin

text \<open>The connection has read the first \<open>b\<close> bytes of the message \<open>m\<close> and waits for more.\<close>

definition reading :: "'r \<Rightarrow> ('cb, unit, 'z) connection_scheme \<Rightarrow> string \<Rightarrow> nat \<Rightarrow> bool" where
  "reading r c m b \<longleftrightarrow> reads r (cn_stream c) \<and> recvCompleteCallback (cn_stream c) = Some () \<and>
     recv_call c = Some () \<and> b < length (frame m) \<and>
     (let got = take (nat (recvLen (cn_stream c))) (recvBuf (cn_stream c)) in
      if b < 4 then stat_of c = RECV_HEAD \<and> got = take b (frame m) \<and> needRecvLen (cn_stream c) = int (4 - b)
      else stat_of c = RECV_BODY \<and> got = take (b - 4) m \<and> needRecvLen (cn_stream c) = int (length (frame m) - b))"

lemma reading_awaits:
  assumes "awaits r (cn_stream c) 4 ()" "stat_of c = RECV_HEAD" "recv_call c = Some ()"
  shows "reading r c m 0"
  using assms by (simp add: reading_def awaits_def)

lemma reading_send_side:
  assumes "reading r c m b" "send_side (cn_stream c) s'" "inv r'" "nfds r' = nfds r"
    and "handler r' (st_fd (cn_stream c), Rd) = handler r (st_fd (cn_stream c), Rd)"
  shows "reading r' (c\<lparr>cn_stream := s'\<rparr>) m b"
  using assms by (auto simp: reading_def Let_def reads_def recv_ready_def send_side_iff stat_set call_set)

lemma reading_fits:
  assumes "reading r c m b" "recv_fits (cn_stream c) res"
  shows "b + length (result_bytes res) \<le> length (frame m)"
proof -
  have "b < length (frame m)" "needRecvLen (cn_stream c) \<le> int (length (frame m) - b)"
    using assms(1) by (auto simp: reading_def Let_def split: if_splits)
  moreover have "int (length (result_bytes res)) \<le> needRecvLen (cn_stream c) \<or> result_bytes res = []"
    using assms(2) by (cases res) simp_all
  ultimately show ?thesis by auto
qed

lemma reading_one:
  assumes "reading r c m b"
  shows "handler r (st_fd (cn_stream c), Rd) \<noteq> None" "recv_fits (cn_stream c) (Received [x])"
  using assms by (auto simp: reading_def reads_def recv_ready_def)

lemma frame_parts: "take 4 (frame m) = int_bytes (int (length m))" "drop 4 (frame m) = m"
  by (simp_all add: frame_def)

text \<open>What has been read, with the bytes of the next event.\<close>

lemma reading_joins:
  assumes "reading r c m b" "bs = take (length bs) (drop b (frame m))"
  shows "take (nat (recvLen (cn_stream c))) (recvBuf (cn_stream c)) @ bs =
    (if b < 4 then take (b + length bs) (frame m) else take (b + length bs - 4) m)"
proof (cases "b < 4")
  case True
  have "take b (frame m) @ bs = take (b + length bs) (frame m)" by (subst assms(2)) (simp add: take_add)
  with True assms(1) show ?thesis by (simp add: reading_def)
next
  case False
  then have "drop b (frame m) = drop (b - 4) m" by (simp add: frame_def)
  with assms(2) have "take (b - 4) m @ bs = take (b - 4) m @ take (length bs) (drop (b - 4) m)" by simp
  also have "\<dots> = take (b + length bs - 4) m" using False by (simp add: take_add [symmetric])
  finally show ?thesis using False assms(1) by (simp add: reading_def)
qed

lemma reading_goes_on:
  assumes "reading r c m b" "bs = take (length bs) (drop b (frame m))"
    and "int (length bs) < needRecvLen (cn_stream c)" "reads r' s'" "recv_side (cn_stream c) s'"
    and "needRecvLen s' = needRecvLen (cn_stream c) - int (length bs)"
    and "take (nat (recvLen s')) (recvBuf s') = take (nat (recvLen (cn_stream c))) (recvBuf (cn_stream c)) @ bs"
    and "recvCompleteCallback s' = recvCompleteCallback (cn_stream c)"
  shows "reading r' (c\<lparr>cn_stream := s'\<rparr>) m (b + length bs)"
proof (cases "b < 4")
  case True
  with assms(1,3-6,8) reading_joins [OF assms(1,2)] assms(7) show ?thesis by (simp add: reading_def stat_set call_set)
next
  case False
  with assms(1,3-6,8) reading_joins [OF assms(1,2)] assms(7) show ?thesis by (simp add: reading_def stat_set call_set)
qed

lemma reading_full:
  assumes "reading r c m b" "bs = take (length bs) (drop b (frame m))"
    and "int (length bs) = needRecvLen (cn_stream c)"
  obtains (head) "b + length bs = 4" "stat_of c = RECV_HEAD"
      "take (nat (recvLen (cn_stream c))) (recvBuf (cn_stream c)) @ bs = int_bytes (int (length m))"
    | (body) "b + length bs = length (frame m)" "stat_of c = RECV_BODY"
      "take (nat (recvLen (cn_stream c))) (recvBuf (cn_stream c)) @ bs = m"
proof (cases "b < 4")
  case True
  then have "b + length bs = 4" using assms(1,3) by (simp add: reading_def)
  with True assms(1) reading_joins [OF assms(1,2)] show thesis
    by (intro head) (simp_all add: reading_def frame_parts)
next
  case False
  then have "b + length bs = length (frame m)" using assms(1,3) by (simp add: reading_def)
  with False assms(1) reading_joins [OF assms(1,2)] show thesis
    by (intro body) (simp_all add: reading_def)
qed

text \<open>The next event brings a part of what is missing, all of it, or the rest of the head, after
  which the body is asked for.\<close>

lemma reading_event:
  assumes "adds_ok add nfds inv" "reading r c m b" "0 < length m" "length m \<le> 1024"
    and "recv_goes_on res" "recv_fits (cn_stream c) res"
    and "result_bytes res = take (length (result_bytes res)) (drop b (frame m))"
  obtains (more) c' s' r' where
      "conn_event add fire rd sd c r w (Readable res) = Inr (Some c', r', w, [])"
      "c' = c\<lparr>cn_stream := s'\<rparr> \<or> c' = set_stat RECV_BODY (c\<lparr>cn_stream := s'\<rparr>)"
      "reading r' c' m (b + length (result_bytes res))"
      "recv_side (cn_stream c) s'" "inv r'" "nfds r' = nfds r" "handler r' = handler r"
  | (whole) s' r' where
      "conn_event add fire rd sd c r w (Readable res) =
        and_then (rd (c\<lparr>cn_stream := s'\<rparr>) r' w RECVED m) (\<lambda>(co, r, w). Inr (co, r, w, []))"
      "b + length (result_bytes res) = length (frame m)" "stat_of c = RECV_BODY"
      "recv_side (cn_stream c) s'" "inv r'" "nfds r' = nfds r"
      "handler r' = (handler r)((st_fd (cn_stream c), Rd) := None)"
proof -
  let ?s = "cn_stream c" and ?k = "length (result_bytes res)" and ?fd = "st_fd (cn_stream c)"
  have s: "reads r ?s" "recvCompleteCallback ?s = Some ()" "recv_call c = Some ()" "b < length m + 4"
    using assms(2) by (simp_all add: reading_def)
  have fd: "handler r (?fd, Rd) = Some (recvOnePackCall ?s)" "0 \<le> ?fd" "?fd < nfds r"
    using s(1) by (simp_all add: reads_def)
  from assms(1) s(1) assms(5,6) s(2) show ?thesis
  proof (cases rule: recv_event)
    case (more s' r1 r')
    have step: "conn_event add fire rd sd c r w (Readable res) = Inr (Some (c\<lparr>cn_stream := s'\<rparr>), r', w, [])"
      using more(1,2) by simp
    have "reading r' (c\<lparr>cn_stream := s'\<rparr>) m (b + ?k)"
      using more(3-8) s(2) by (intro reading_goes_on [OF assms(2,7)]) simp_all
    from that(1) [OF step _ this, of s'] more show ?thesis by (simp add: reads_def)
  next
    case (complete s' r1)
    from assms(2,7) complete(3) show ?thesis
    proof (cases rule: reading_full)
      case head
      have fd1: "0 \<le> st_fd s'" "st_fd s' < nfds r1" "st_fd s' = ?fd" "recvOnePackCall s' = recvOnePackCall ?s"
        using fd complete(4,7) by (simp_all add: recv_side_iff)
      have n: "0 < int (length m)" "int (length m) \<le> 1024" using assms(3,4) by simp_all
      obtain s2 r2 where
        next_ask: "rd (c\<lparr>cn_stream := s'\<rparr>) r1 w RECVED (int_bytes (int (length m))) =
          Inr (Some (set_stat RECV_BODY (c\<lparr>cn_stream := s2\<rparr>)), r2, w)"
        and s2: "awaits r2 s2 (int (length m)) ()" "recv_side s' s2" "inv r2" "nfds r2 = nfds r1"
          "handler r2 = (handler r1)((st_fd s', Rd) \<mapsto> recvOnePackCall s')"
        by (rule head_read [OF assms(1) complete(6) fd1(1,2) head(2) s(3) n]) (rule that)
      have rd: "reading r2 (set_stat RECV_BODY (c\<lparr>cn_stream := s2\<rparr>)) m 4"
        using s2(1) s(3) assms(3) by (simp add: reading_def awaits_def stat_set stream_set call_set)
      have step: "conn_event add fire rd sd c r w (Readable res) =
          Inr (Some (set_stat RECV_BODY (c\<lparr>cn_stream := s2\<rparr>)), r2, w, [])"
        using complete(1,2) head(3) next_ask by simp
      have "handler r2 = handler r" using s2(5) complete(8) fd(1) fd1(3,4) by (auto simp: fun_eq_iff)
      with that(1) [OF step, of s2] rd s2 complete(7) head(1) recv_side_trans [OF complete(4) s2(2)] show ?thesis by simp
    next
      case body
      let ?rd = "rd (c\<lparr>cn_stream := s'\<rparr>) r1 w RECVED m"
      have "conn_event add fire rd sd c r w (Readable res) = and_then ?rd (\<lambda>(co, r, w). Inr (co, r, w, []))"
        using complete(1,2) body(3) by (cases ?rd) (auto split: option.splits)
      then show ?thesis using complete body(1,2) by (intro that(2) [of s' r1]) simp_all
    qed
  qed
qed

end

end
