(* ===== verification/EchoServer.thy ===== *)
theory EchoServer
  imports FrameEvents
begin

text \<open>
  \<open>examples/ConcurrenceEchoServer/ConcurrentConnection.cpp\<close> and
  \<open>ConcurrenceEchoServer.cpp\<close>: a connection that reads a message, a length of four bytes and as
  many bytes of text, and sends it back. The world of its callbacks is the service it belongs to,
  behind a weak pointer.
\<close>

section \<open>The connection\<close>

record 'cb concurrent_connection = "('cb, unit) connection" +
  cc_stat :: recv_state
  cc_recvBuf :: string
  cc_recvCall :: "unit option"
  cc_sendCall :: "unit option"

definition new_ConcurrentConnection :: "('cb, unit) stream \<Rightarrow> 'cb concurrent_connection outcome" where
  "new_ConcurrentConnection spStream =
     and_then (new_Connection spStream) (\<lambda>c.
       Inr \<lparr>cn_stream = cn_stream c, cn_handle = cn_handle c, cc_stat = RECV_HEAD, cc_recvBuf = [],
         cc_recvCall = None, cc_sendCall = None\<rparr>)"

text \<open>
  \<open>_destroy\<close>: the service forgets the connection; it held the only reference, so the connection
  is deleted, and its stream with it.
\<close>

definition cc_destroy :: "('r \<Rightarrow> int \<Rightarrow> event_flags \<Rightarrow> (bool \<times> 'r) outcome) \<Rightarrow>
    ('cb concurrent_connection, 'k, 'd) service option \<Rightarrow> 'cb concurrent_connection \<Rightarrow> 'r \<Rightarrow>
    ('cb concurrent_connection, 'r, ('cb concurrent_connection, 'k, 'd) service option) conn_result" where
  "cc_destroy rem wp c r =
     and_then (Connection_destroy c wp) (\<lambda>sv.
     and_then (delete_Stream rem (cn_stream c) r) (\<lambda>(_, _, r).
       Inr (None, r, Some sv)))"

definition cc_startReadOrWriteInService :: "('r \<Rightarrow> int \<Rightarrow> event_flags \<Rightarrow> 'cb \<Rightarrow> (bool \<times> 'r) outcome) \<Rightarrow>
    ('r \<Rightarrow> int \<Rightarrow> event_flags \<Rightarrow> (bool \<times> 'r) outcome) \<Rightarrow> 'cb concurrent_connection \<Rightarrow> 'r \<Rightarrow>
    ('cb concurrent_connection, 'k, 'd) service option \<Rightarrow>
    ('cb concurrent_connection, 'r, ('cb concurrent_connection, 'k, 'd) service option) conn_result" where
  "cc_startReadOrWriteInService add rem c r wp =
     (let c = c\<lparr>cc_recvCall := Some (), cc_sendCall := Some (), cc_stat := RECV_HEAD\<rparr> in
      and_then (asyncRecvBytes add (cn_stream c) r 4 (cc_recvCall c)) (\<lambda>(ok, s, r).
        let c = c\<lparr>cn_stream := s\<rparr> in
        if \<not> ok then cc_destroy rem wp c r else Inr (Some c, r, wp)))"

definition cc_recvCompleteCallback :: "('r \<Rightarrow> int \<Rightarrow> event_flags \<Rightarrow> 'cb \<Rightarrow> (bool \<times> 'r) outcome) \<Rightarrow>
    ('r \<Rightarrow> int \<Rightarrow> event_flags \<Rightarrow> (bool \<times> 'r) outcome) \<Rightarrow>
    ('cb concurrent_connection, 'r, ('cb concurrent_connection, 'k, 'd) service option) recv_done" where
  "cc_recvCompleteCallback add rem c r wp retRecvStat vecBytes =
     (if retRecvStat = RECVERR then cc_destroy rem wp c r
      else case cc_stat c of
        RECV_HEAD \<Rightarrow>
          and_then (recv_head add (cn_stream c) r (cc_recvCall c) vecBytes) (\<lambda>(st, s, r).
            Inr (Some (c\<lparr>cn_stream := s, cc_stat := st\<rparr>), r, wp))
      | RECV_BODY \<Rightarrow>
          and_then (pack_frame (cc_recvBuf c) vecBytes) (\<lambda>buf.
          let c = c\<lparr>cc_recvBuf := buf\<rparr> in
          and_then (asyncSendBytes add (cn_stream c) r (cc_recvBuf c) (cc_sendCall c)) (\<lambda>(_, s, r).
            Inr (Some (c\<lparr>cn_stream := s\<rparr>), r, wp))))"

definition cc_sendCompleteCallback :: "('r \<Rightarrow> int \<Rightarrow> event_flags \<Rightarrow> 'cb \<Rightarrow> (bool \<times> 'r) outcome) \<Rightarrow>
    ('r \<Rightarrow> int \<Rightarrow> event_flags \<Rightarrow> (bool \<times> 'r) outcome) \<Rightarrow>
    ('cb concurrent_connection, 'r, ('cb concurrent_connection, 'k, 'd) service option) send_done" where
  "cc_sendCompleteCallback add rem c r wp retSendStat =
     (if retSendStat = SENDERR then cc_destroy rem wp c r
      else let c = c\<lparr>cc_stat := RECV_HEAD\<rparr> in
        and_then (asyncRecvBytes add (cn_stream c) r 4 (cc_recvCall c)) (\<lambda>(ok, s, r).
          let c = c\<lparr>cn_stream := s\<rparr> in
          if \<not> ok then cc_destroy rem wp c r else Inr (Some c, r, wp)))"

text \<open>
  \<open>onConnection\<close> of the server. A connection the service does not take, because its handle is
  known already, is deleted when the function returns.
\<close>

definition echo_onConnection :: "('r \<Rightarrow> int \<Rightarrow> event_flags \<Rightarrow> 'cb \<Rightarrow> (bool \<times> 'r) outcome) \<Rightarrow>
    ('r \<Rightarrow> int \<Rightarrow> event_flags \<Rightarrow> (bool \<times> 'r) outcome) \<Rightarrow> ('cb, unit) stream \<Rightarrow> 'r \<Rightarrow>
    ('cb concurrent_connection, 'k, 'd) service option \<Rightarrow>
    ('cb concurrent_connection, 'r, ('cb concurrent_connection, 'k, 'd) service option) conn_result" where
  "echo_onConnection add rem spStream r wp =
     and_then (new_ConcurrentConnection spStream) (\<lambda>c.
       case wp of
         None \<Rightarrow> Inl NullDereference
       | Some sv \<Rightarrow>
           let (taken, sv) = addNewConnection sv c in
           and_then (cc_startReadOrWriteInService add rem c r (Some sv)) (\<lambda>(c, r, wp).
             case c of
               None \<Rightarrow> Inr (None, r, wp)
             | Some c \<Rightarrow>
                 if taken then Inr (Some c, r, wp)
                 else and_then (delete_Stream rem (cn_stream c) r) (\<lambda>(_, _, r). Inr (None, r, wp))))"

section \<open>The connection over libevent\<close>

abbreviation cc_recv where
  "cc_recv lib \<equiv> cc_recvCompleteCallback (lev_add lib) (removeEventHandler lib)"

abbreviation cc_send where
  "cc_send lib \<equiv> cc_sendCompleteCallback (lev_add lib) (removeEventHandler lib)"

interpretation echo: framed_reader "\<lambda>r fd ev cb. addEventHandler lib r fd ev (Some cb)"
  "removeEventHandler lib" dispatch reactor_handler reactor_nfds reactor_inv
  "cc_recvCompleteCallback (lev_add lib) (removeEventHandler lib)" cc_stat "\<lambda>st c. c\<lparr>cc_stat := st\<rparr>"
  cc_recvCall for lib
  by unfold_locales (simp_all add: cc_recvCompleteCallback_def)

text \<open>The events of a connection, with libevent below it.\<close>

abbreviation echo_run where
  "echo_run lib \<equiv> conn_run (lev_add lib) dispatch (cc_recv lib) (cc_send lib)"

text \<open>The connection waits for the head of a message and for nothing else.\<close>

definition echo_ready :: "libevent \<Rightarrow> 'cb reactor \<Rightarrow> 'cb concurrent_connection \<Rightarrow> bool" where
  "echo_ready lib r c \<longleftrightarrow> lev.awaits r (cn_stream c) 4 () \<and> cc_stat c = RECV_HEAD \<and>
     cc_recvCall c = Some () \<and> cc_sendCall c = Some () \<and>
     reactor_handler r (st_fd (cn_stream c), Wr) = None"

text \<open>
  One exchange: \<open>hs\<close> bring the length of the text, \<open>rs\<close> bring the text, and \<open>ss\<close> take the
  answer.
\<close>

type_synonym exchange = "recv_result list \<times> recv_result list \<times> send_result list \<times> string"

fun exchange_ok :: "exchange \<Rightarrow> bool" where
  "exchange_ok (hs, rs, ss, body) \<longleftrightarrow> length body \<le> 1020 \<and>
     brings hs (int_bytes (int (length body))) \<and> brings rs body \<and> takes ss (length (frame body))"

fun exchange_events :: "exchange \<Rightarrow> io_event list" where
  "exchange_events (hs, rs, ss, body) = map Readable (hs @ rs) @ map Writable ss"

fun exchange_body :: "exchange \<Rightarrow> string" where
  "exchange_body (hs, rs, ss, body) = body"

lemma echo_exchange:
  fixes wp :: "('cb concurrent_connection, 'k, 'd) service option"
  assumes "lib_adds lib" "echo_ready lib r c" "exchange_ok x"
  obtains c' r' where "\<And>es. echo_run lib (Some c) r wp (exchange_events x @ es) =
      sent_first (frame (exchange_body x)) (echo_run lib (Some c') r' wp es)"
    "echo_ready lib r' c'" "st_fd (cn_stream c') = st_fd (cn_stream c)" "cn_handle c' = cn_handle c"
proof -
  obtain hs rs ss body where x: "x = (hs, rs, ss, body)" by (cases x)
  let ?fd = "st_fd (cn_stream c)" and ?frame = "frame body"
  note ok = lib_adds_ok [OF assms(1)]
  have c: "lev.awaits r (cn_stream c) 4 ()" "cc_stat c = RECV_HEAD" "cc_recvCall c = Some ()"
    "cc_sendCall c = Some ()" "reactor_handler r (?fd, Wr) = None" "0 \<le> ?fd" "?fd < reactor_nfds r"
    using assms(2) by (auto simp: echo_ready_def lev.awaits_def lev.reads_def)
  have br: "brings hs (int_bytes (int (length body)))" "brings rs body" "length body \<le> 1024"
    "length body \<le> 1020" "takes ss (length ?frame)" using assms(3) x by auto
  obtain s1 r1 where run1: "\<And>es. echo_run lib (Some c) r wp (map Readable (hs @ rs) @ es) =
      and_then (cc_recv lib (c\<lparr>cn_stream := s1, cc_stat := RECV_BODY\<rparr>) r1 wp RECVED body)
        (\<lambda>(c, r, w). echo_run lib c r w es)"
    and s1: "recv_side (cn_stream c) s1" "reactor_inv r1" "reactor_nfds r1 = reactor_nfds r"
      "reactor_handler r1 = (reactor_handler r)((?fd, Rd) := None)"
    by (rule echo.frame_arrives [OF ok c(1-3) br(1-3), of "cc_send lib" wp]) (rule that)
  have fd1: "st_fd s1 = ?fd" "0 \<le> st_fd s1" "st_fd s1 < reactor_nfds r1"
    using s1(1,3) c(6,7) by (simp_all add: recv_side_iff)
  have len: "length ?frame \<le> 1024" using br(4) by simp
  obtain s2 r2 where ask: "asyncSendBytes (lev_add lib) s1 r1 ?frame (Some ()) = Inr (True, s2, r2)"
    and sent: "\<And>c ss (w :: ('cb concurrent_connection, 'k, 'd) service option). cn_stream c = s2 \<Longrightarrow> takes ss (length ?frame) \<Longrightarrow> \<exists>s3 r3.
      (\<forall>es. echo_run lib (Some c) r2 w (map Writable ss @ es) =
        and_then (cc_send lib (c\<lparr>cn_stream := s3\<rparr>) r3 w SENDED) (\<lambda>(c, r, w).
          sent_first ?frame (echo_run lib c r w es))) \<and>
      send_side s1 s3 \<and> reactor_inv r3 \<and> reactor_nfds r3 = reactor_nfds r1 \<and>
      reactor_handler r3 = (reactor_handler r1)((st_fd s1, Wr) := None)"
    by (rule lev.ask_send_run [OF ok s1(2) fd1(2,3) len, of "cc_recv lib" "cc_send lib"]) (rule that)
  let ?c2 = "c\<lparr>cn_stream := s2, cc_stat := RECV_BODY, cc_recvBuf := ?frame\<rparr>"
  have "pack_frame buf body = Inr ?frame" for buf using br(4) by (intro pack_frame_eq) simp
  then have recv: "cc_recv lib (c\<lparr>cn_stream := s1, cc_stat := RECV_BODY\<rparr>) r1 wp RECVED body = Inr (Some ?c2, r2, wp)"
    using ask c(4) by (simp add: cc_recvCompleteCallback_def)
  obtain s3 r3 where run2: "\<forall>es. echo_run lib (Some ?c2) r2 wp (map Writable ss @ es) =
      and_then (cc_send lib (?c2\<lparr>cn_stream := s3\<rparr>) r3 wp SENDED) (\<lambda>(c, r, w).
        sent_first ?frame (echo_run lib c r w es))"
    and s3: "send_side s1 s3" "reactor_inv r3" "reactor_nfds r3 = reactor_nfds r1"
      "reactor_handler r3 = (reactor_handler r1)((st_fd s1, Wr) := None)"
    using sent [of ?c2 ss wp] br(5) by simp blast
  have fd3: "st_fd s3 = ?fd" "0 \<le> st_fd s3" "st_fd s3 < reactor_nfds r3"
    using s3(1,3) fd1 by (simp_all add: send_side_iff)
  obtain s4 r4 where ask4: "asyncRecvBytes (lev_add lib) s3 r3 4 (Some ()) = Inr (True, s4, r4)"
    and s4: "lev.awaits r4 s4 4 ()" "recv_side s3 s4"
      "reactor_handler r4 = (reactor_handler r3)((st_fd s3, Rd) \<mapsto> recvOnePackCall s3)"
    by (rule lev.ask_recv [OF ok s3(2) fd3(2,3) four_in_range, of "()"]) (rule that)
  let ?c4 = "?c2\<lparr>cn_stream := s4, cc_stat := RECV_HEAD\<rparr>"
  have send: "cc_send lib (?c2\<lparr>cn_stream := s3\<rparr>) r3 wp SENDED = Inr (Some ?c4, r4, wp)"
    using ask4 c(3) by (simp add: cc_sendCompleteCallback_def)
  have fd4: "st_fd s4 = ?fd" using s4(2) fd3(1) by (simp add: recv_side_iff)
  have "reactor_handler r4 (?fd, Wr) = None" using s4(3) s3(4) fd3(1) fd1(1) by simp
  with s4(1) c(3,4) fd4 have "echo_ready lib r4 ?c4" by (simp add: echo_ready_def)
  then show ?thesis
    by (intro that [of ?c4 r4]) (use run1 recv run2 send x fd4 in simp_all)
qed

lemma echo_exchanges:
  assumes "lib_adds lib" "echo_ready lib r c" "\<forall>x \<in> set xs. exchange_ok x"
  shows "\<exists>c' r'. echo_run lib (Some c) r wp (concat (map exchange_events xs)) =
      Inr (Some c', r', wp, concat (map (frame \<circ> exchange_body) xs)) \<and> echo_ready lib r' c' \<and>
    cn_handle c' = cn_handle c"
  using assms(2,3)
proof (induction xs arbitrary: r c)
  case (Cons x xs)
  obtain c1 r1 where x: "\<And>es. echo_run lib (Some c) r wp (exchange_events x @ es) =
      sent_first (frame (exchange_body x)) (echo_run lib (Some c1) r1 wp es)"
    "echo_ready lib r1 c1" "cn_handle c1 = cn_handle c"
    by (rule echo_exchange [OF assms(1) Cons.prems(1), of x wp]) (use Cons.prems(2) in simp, rule that)
  from Cons.IH [OF x(2)] Cons.prems(2) obtain c' r' where
    "echo_run lib (Some c1) r1 wp (concat (map exchange_events xs)) =
      Inr (Some c', r', wp, concat (map (frame \<circ> exchange_body) xs))" "echo_ready lib r' c'"
    "cn_handle c' = cn_handle c1" by (auto simp: comp_def)
  with x show ?case by (auto simp: comp_def)
qed simp

lemma echo_accepts:
  assumes "lib_adds lib" "stream_start lib n r fd" "sv_connections sv fd = None"
  obtains c r' sv' where
    "echo_onConnection (lev_add lib) (removeEventHandler lib) (new_Stream fd rc sc) r (Some sv) =
      Inr (Some c, r', Some sv')"
    "echo_ready lib r' c" "cn_handle c = fd" "st_fd (cn_stream c) = fd"
    "dom (sv_connections sv') = insert fd (dom (sv_connections sv))"
    "reactor_inv r'" "reactor_nfds r' = reactor_nfds r"
    "\<forall>x. fst x \<noteq> fd \<longrightarrow> reactor_handler r' x = reactor_handler r x"
proof -
  let ?s = "new_Stream fd rc sc :: (_, unit) stream"
  have r: "reactor_inv r" "0 < fd" "0 \<le> st_fd ?s" "st_fd ?s < reactor_nfds r"
    "reactor_handler r (fd, Wr) = None"
    using assms(2) by (auto simp: stream_start_def new_Stream_def)
  obtain s' r' where ask: "asyncRecvBytes (lev_add lib) ?s r 4 (Some ()) = Inr (True, s', r')"
    and s': "lev.awaits r' s' 4 ()" "recv_side ?s s'"
      "reactor_handler r' = (reactor_handler r)((st_fd ?s, Rd) \<mapsto> recvOnePackCall ?s)"
      "reactor_inv r'" "reactor_nfds r' = reactor_nfds r"
    by (rule lev.ask_recv [OF lib_adds_ok [OF assms(1)] r(1,3,4) four_in_range, of "()"]) (rule that)
  let ?c = "\<lparr>cn_stream = s', cn_handle = fd, cc_stat = RECV_HEAD, cc_recvBuf = [],
    cc_recvCall = Some (), cc_sendCall = Some ()\<rparr>"
  have "st_fd s' = fd" using s'(2) by (simp add: recv_side_iff new_Stream_def)
  moreover have "echo_ready lib r' ?c"
    using s'(1,3) r(5) calculation by (simp add: echo_ready_def new_Stream_def)
  ultimately show ?thesis
    by (intro that [of ?c r'])
      (use ask r(2) assms(3) s'(3-5) in \<open>auto simp: echo_onConnection_def new_ConcurrentConnection_def
        new_Connection_def getFd_def addNewConnection_def Connection_getHandle_def
        cc_startReadOrWriteInService_def new_Stream_def\<close>)
qed

section \<open>Properties\<close>

text \<open>
  C2: The echo server echoes. A client that has been accepted and sends any number of messages,
  each the length of a text of 1 to 1020 bytes followed by the text, is sent back exactly these
  messages, in order, whatever the pieces in which \<open>recv\<close> brings and \<open>send\<close> takes the bytes and
  whatever interruptions come between; afterwards the connection is still there and waits for the
  next message.
\<close>

theorem echo_conversation:
  assumes "lib_adds lib" "stream_start lib n r fd" "sv_connections sv fd = None"
    and "\<forall>x \<in> set xs. exchange_ok x"
  shows "\<exists>c r1 sv' c' r2.
    echo_onConnection (lev_add lib) (removeEventHandler lib) (new_Stream fd rc sc) r (Some sv) =
      Inr (Some c, r1, Some sv') \<and>
    echo_run lib (Some c) r1 (Some sv') (concat (map exchange_events xs)) =
      Inr (Some c', r2, Some sv', concat (map (frame \<circ> exchange_body) xs)) \<and>
    echo_ready lib r2 c' \<and> dom (sv_connections sv') = insert fd (dom (sv_connections sv))"
proof -
  obtain c r1 sv' where
    "echo_onConnection (lev_add lib) (removeEventHandler lib) (new_Stream fd rc sc) r (Some sv) =
      Inr (Some c, r1, Some sv')" "echo_ready lib r1 c"
    "dom (sv_connections sv') = insert fd (dom (sv_connections sv))"
    using echo_accepts [OF assms(1-3), of rc sc] by metis
  with echo_exchanges [OF assms(1) this(2) assms(4), of "Some sv'"] show ?thesis by blast
qed

theorem echo_conversation_witness:
  "\<exists>c r1 sv' c' r2.
    echo_onConnection (lev_add (\<lambda>_ _. True)) (removeEventHandler (\<lambda>_ _. True))
      (new_Stream 3 ''recv'' ''send'') reactor5 (Some (new_NetWorkService :: (_, nat, nat) service)) =
      Inr (Some c, r1, Some sv') \<and>
    echo_run (\<lambda>_ _. True) (Some c) r1 (Some sv')
      [Readable (Received (int_bytes 2)), Readable (RecvFailed EAGAIN), Readable (Received ''h''),
       Readable (Received ''i''), Writable (Sent 5), Writable (Sent 1)] =
      Inr (Some c', r2, Some sv', frame ''hi'')"
proof -
  let ?x = "([Received (int_bytes 2)], [RecvFailed EAGAIN, Received ''h'', Received ''i''],
    [Sent 5, Sent 1], ''hi'') :: exchange"
  have "int_bytes 2 \<noteq> []" using length_int_bytes [of 2] by force
  then have "exchange_ok ?x"
    by (simp add: brings_def takes_def recv_goes_on_def send_goes_on_def try_again_def)
  then have "\<forall>x \<in> set [?x]. exchange_ok x" by simp
  from echo_conversation [OF lib_adds_True reactor5_start _ this,
      of "new_NetWorkService :: (_, nat, nat) service" "''recv''" "''send''"]
  show ?thesis by (simp add: new_NetWorkService_def) blast
qed

text \<open>
  C36: Messages that silence a connection. After a length that is not positive, and after a text of
  1021 to 1024 bytes, nothing is sent, the connection stays with the service, and the reactor waits
  for its descriptor in neither direction: no event will reach it again.
\<close>

theorem echo_unanswered:
  assumes "lib_adds lib" "echo_ready lib r c"
    and "(\<exists>n rs. - (2 ^ 31) \<le> n \<and> n \<le> 0 \<and> brings rs (int_bytes n) \<and> evs = map Readable rs) \<or>
      (\<exists>hs rs body. 1020 < length body \<and> length body \<le> 1024 \<and>
        brings hs (int_bytes (int (length body))) \<and> brings rs body \<and> evs = map Readable (hs @ rs))"
  shows "\<exists>c' r'. echo_run lib (Some c) r wp evs = Inr (Some c', r', wp, []) \<and>
    (\<forall>d. reactor_handler r' (st_fd (cn_stream c), d) = None)"
  using assms(3)
proof (elim disjE exE conjE)
  note ok = lib_adds_ok [OF assms(1)]
  have c: "lev.awaits r (cn_stream c) 4 ()" "cc_stat c = RECV_HEAD" "cc_recvCall c = Some ()"
    "cc_sendCall c = Some ()" "reactor_handler r (st_fd (cn_stream c), Wr) = None"
    using assms(2) by (auto simp: echo_ready_def)
  {
    fix n rs assume n: "- (2 ^ 31) \<le> n" "n \<le> 0" "brings rs (int_bytes n)" "evs = map Readable rs"
    have wait: "lev.awaits r (cn_stream c) (int (length (int_bytes n))) ()" using c(1) by simp
    obtain s' r' where run: "\<And>es. echo_run lib (Some c) r wp (map Readable rs @ es) =
        and_then (cc_recv lib (c\<lparr>cn_stream := s'\<rparr>) r' wp RECVED (int_bytes n)) (\<lambda>(c, r, w). echo_run lib c r w es)"
      and r': "reactor_handler r' = (reactor_handler r)((st_fd (cn_stream c), Rd) := None)"
      by (rule lev.conn_run_awaited [OF ok wait n(3), of "cc_recv lib" "cc_send lib" wp]) (rule that)
    have "cc_recv lib (c\<lparr>cn_stream := s'\<rparr>) r' wp RECVED (int_bytes n) =
        Inr (Some (c\<lparr>cn_stream := s', cc_stat := RECV_BODY\<rparr>), r', wp)"
      using read_int_bytes [of n "[]"] n(1,2) c(2)
      by (simp add: cc_recvCompleteCallback_def recv_head_def asyncRecvBytes_def)
    with run [of "[]"] n(4) r' c(5) show ?thesis by (simp add: all_dir)
  next
    fix hs rs body assume b: "1020 < length body" "length body \<le> 1024"
      "brings hs (int_bytes (int (length body)))" "brings rs body" "evs = map Readable (hs @ rs)"
    obtain s' r' where run: "\<And>es. echo_run lib (Some c) r wp (map Readable (hs @ rs) @ es) =
        and_then (cc_recv lib (c\<lparr>cn_stream := s', cc_stat := RECV_BODY\<rparr>) r' wp RECVED body)
          (\<lambda>(c, r, w). echo_run lib c r w es)"
      and r': "reactor_handler r' = (reactor_handler r)((st_fd (cn_stream c), Rd) := None)"
      by (rule echo.frame_arrives [OF ok c(1-3) b(3,4,2), of "cc_send lib" wp]) (rule that)
    have "cc_recv lib (c\<lparr>cn_stream := s', cc_stat := RECV_BODY\<rparr>) r' wp RECVED body =
        Inr (Some (c\<lparr>cn_stream := s', cc_stat := RECV_BODY, cc_recvBuf := frame body\<rparr>), r', wp)"
      using b(1,2) by (simp add: cc_recvCompleteCallback_def pack_frame_eq asyncSendBytes_def
          int_of_size_small DEFAULT_BUFF_LEN_def)
    with run [of "[]"] b(5) r' c(5) show ?thesis by (simp add: all_dir)
  }
qed

theorem echo_unanswered_witness:
  "\<exists>r (c :: string concurrent_connection) c' r'. echo_ready (\<lambda>_ _. True) r c \<and>
    echo_run (\<lambda>_ _. True) (Some c) r (Some (new_NetWorkService :: (_, nat, nat) service))
      [Readable (Received (int_bytes 0))] = Inr (Some c', r', Some new_NetWorkService, [])"
proof -
  let ?sv = "new_NetWorkService :: (string concurrent_connection, nat, nat) service"
  have free: "sv_connections ?sv 3 = None" by (simp add: new_NetWorkService_def)
  obtain c r where c: "echo_ready (\<lambda>_ _. True) r (c :: string concurrent_connection)"
    using echo_accepts [OF lib_adds_True reactor5_start free, of "''recv''" "''send''"] by metis
  have "int_bytes 0 \<noteq> []" using length_int_bytes [of 0] by force
  then have "brings [Received (int_bytes 0)] (int_bytes 0)" by (simp add: brings_def recv_goes_on_def)
  then have "\<exists>n rs. - (2 ^ 31) \<le> n \<and> n \<le> (0::int) \<and> brings rs (int_bytes n) \<and>
      [Readable (Received (int_bytes 0))] = map Readable rs"
    by (intro exI [of _ 0] exI [of _ "[Received (int_bytes 0)]"]) simp
  with echo_unanswered [OF lib_adds_True c, of _ "Some ?sv"] c show ?thesis by metis
qed

end
