(* ===== verification/NetAcceptService.thy ===== *)
theory NetAcceptService
  imports NetWorkService
begin

text \<open>
  \<open>network/NetAcceptService.cpp\<close>: the service that accepts clients and deals them out to the
  work services in turn.
\<close>

section \<open>The service\<close>

text \<open>\<open>vecSpWorkService_\<close>, of each service the part that receives messages, and
  \<open>curServiceIndex_\<close>.\<close>

record 'd acceptor =
  ac_workers :: "'d message itask list"
  ac_cur :: int

definition new_NetAcceptService :: "'d message itask list \<Rightarrow> 'd acceptor" where
  "new_NetAcceptService ws = \<lparr>ac_workers = ws, ac_cur = 0\<rparr>"

definition nextServiceIndex :: "'d acceptor \<Rightarrow> int \<times> 'd acceptor" where
  "nextServiceIndex a =
     (let cur = ac_cur a + 1;
          cur = (if cur = int (length (ac_workers a)) then 0 else cur)
      in (cur, a\<lparr>ac_cur := cur\<rparr>))"

text \<open>\<open>None\<close> while \<open>notifyMsg\<close> waits for a slot in the queue of the service.\<close>

definition nas_onAccept :: "'d acceptor \<Rightarrow> int \<Rightarrow> 'd acceptor option outcome" where
  "nas_onAccept a fd =
     (let (i, a) = nextServiceIndex a in
      if nat i < length (ac_workers a)
      then and_then (notifyMsg (ac_workers a ! nat i) (new_NewConnectMessage fd)) (\<lambda>ro.
        Inr (map_option (\<lambda>(_, t). a\<lparr>ac_workers := (ac_workers a)[nat i := t]\<rparr>) ro))
      else Inl OutOfBounds)"

text \<open>\<open>onStart\<close>: the result of \<open>addEventHandler\<close> is not looked at; \<open>onLoop\<close> is the virtual
  function of the server.\<close>

definition nas_onStart :: "libevent \<Rightarrow> 'cb \<Rightarrow> ('cb reactor \<Rightarrow> 'cb reactor outcome) \<Rightarrow> 'cb reactor \<Rightarrow>
    'cb reactor outcome" where
  "nas_onStart lib onAcceptCall onLoop r =
     and_then (addEventHandler lib r 0 EVENT_ACCEPT (Some onAcceptCall)) (\<lambda>(_, r). onLoop r)"

text \<open>\<open>onMessage\<close> only logs the name of the message.\<close>

definition nas_onMessage :: "'d acceptor \<Rightarrow> 'd message \<Rightarrow> 'd acceptor" where
  "nas_onMessage a m = a"

section \<open>A run of accepted clients\<close>

fun accept_run :: "'d acceptor \<Rightarrow> int list \<Rightarrow> 'd acceptor option outcome" where
  "accept_run a [] = Inr (Some a)"
| "accept_run a (fd # fds) =
     and_then (nas_onAccept a fd) (\<lambda>ao. case ao of None \<Rightarrow> Inr None | Some a' \<Rightarrow> accept_run a' fds)"

definition acceptor_ok :: "'d acceptor \<Rightarrow> bool" where
  "acceptor_ok a \<longleftrightarrow> ac_workers a \<noteq> [] \<and> 0 \<le> ac_cur a \<and> ac_cur a < int (length (ac_workers a)) \<and>
     (\<forall>t \<in> set (ac_workers a). crb_inv (it_queue t) \<and> 0 \<le> it_eventFd t)"

text \<open>The clients a service messages are for.\<close>

definition worker_items :: "'d acceptor \<Rightarrow> nat \<Rightarrow> 'd message list" where
  "worker_items a i = crb_items (it_queue (ac_workers a ! i))"

lemma nextServiceIndex_mod:
  assumes "0 \<le> ac_cur a" "ac_cur a < int (length (ac_workers a))"
  shows "nextServiceIndex a = (int (Suc (nat (ac_cur a)) mod length (ac_workers a)),
    a\<lparr>ac_cur := int (Suc (nat (ac_cur a)) mod length (ac_workers a))\<rparr>)"
  using assms by (auto simp: nextServiceIndex_def Let_def mod_Suc)

lemma onAccept_run:
  assumes "acceptor_ok a"
    and "j = Suc (nat (ac_cur a)) mod length (ac_workers a)"
    and "length (worker_items a j) < crb_cap (it_queue (ac_workers a ! j))"
  shows "\<exists>a'. nas_onAccept a fd = Inr (Some a') \<and> acceptor_ok a' \<and> ac_cur a' = int j \<and>
    length (ac_workers a') = length (ac_workers a) \<and>
    (\<forall>i < length (ac_workers a). crb_cap (it_queue (ac_workers a' ! i)) = crb_cap (it_queue (ac_workers a ! i)) \<and>
      worker_items a' i = worker_items a i @ (if i = j then [new_NewConnectMessage fd] else []))"
proof -
  let ?ws = "ac_workers a"
  have n: "0 < length ?ws" "0 \<le> ac_cur a" "ac_cur a < int (length ?ws)"
    using assms(1) by (auto simp: acceptor_ok_def)
  have j: "j < length ?ws" using n(1) by (simp add: assms(2))
  then have t: "crb_inv (it_queue (?ws ! j))" "0 \<le> it_eventFd (?ws ! j)"
    using assms(1) by (auto simp: acceptor_ok_def)
  obtain r where r: "notifyMsg (?ws ! j) (new_NewConnectMessage fd) = Inr (Some (0, (?ws ! j)\<lparr>it_queue := r,
        it_counter := Suc (it_counter (?ws ! j))\<rparr>))" "crb_inv r"
    "crb_items r = crb_items (it_queue (?ws ! j)) @ [new_NewConnectMessage fd]"
    using notifyMsg_room [OF t(1) _ t(2), of "new_NewConnectMessage fd"] assms(3)
    by (auto simp: worker_items_def)
  let ?t = "(?ws ! j)\<lparr>it_queue := r, it_counter := Suc (it_counter (?ws ! j))\<rparr>"
  let ?a = "a\<lparr>ac_workers := ?ws[j := ?t], ac_cur := int j\<rparr>"
  have "crb_cap r = crb_cap (it_queue (?ws ! j))"
    using r(1) t(1) by (auto simp: notifyMsg_def it_putMsg_def it_writeEvent_def crb_put_cases
        split: if_splits dest!: arg_cong [where f = it_queue])
  moreover have "nas_onAccept a fd = Inr (Some ?a)"
    using nextServiceIndex_mod [OF n(2,3)] j r(1) by (simp add: nas_onAccept_def assms(2))
  moreover have "acceptor_ok ?a"
    using assms(1) j r(2) t(2) by (auto simp: acceptor_ok_def dest!: set_update_subset_insert [THEN subsetD])
  ultimately show ?thesis using j r(3)
    by (intro exI [of _ ?a]) (auto simp: worker_items_def nth_list_update)
qed

section \<open>Dealing in turn\<close>

text \<open>What service \<open>i\<close> of \<open>n\<close> gets when the index was \<open>cur\<close>: the \<open>k\<close>-th client, counted from
  zero, if \<open>cur + 1 + k\<close> leaves the remainder \<open>i\<close>.\<close>

definition dealt :: "nat \<Rightarrow> nat \<Rightarrow> nat \<Rightarrow> 'a list \<Rightarrow> 'a list" where
  "dealt cur n i xs = map ((!) xs) (filter (\<lambda>k. (cur + 1 + k) mod n = i) [0..<length xs])"

lemma dealt_Nil [simp]: "dealt cur n i [] = []"
  by (simp add: dealt_def)

lemma dealt_Cons:
  "dealt cur n i (x # xs) =
     (if Suc cur mod n = i then [x] else []) @ dealt (Suc cur mod n) n i xs"
proof -
  have "(Suc cur mod n + 1 + k) mod n = (cur + 1 + Suc k) mod n" for k
    by (metis add_Suc add_Suc_shift mod_add_left_eq plus_1_eq_Suc)
  then have "dealt (Suc cur mod n) n i xs =
      map ((!) (x # xs)) (map Suc (filter (\<lambda>k. (cur + 1 + Suc k) mod n = i) [0..<length xs]))"
    by (simp add: dealt_def)
  also have "\<dots> = map ((!) (x # xs)) (filter (\<lambda>k. (cur + 1 + k) mod n = i) (map Suc [0..<length xs]))"
    by (simp add: filter_map comp_def)
  finally show ?thesis
    by (simp add: dealt_def upt_conv_Cons map_Suc_upt del: upt_Suc)
qed

text \<open>The shares differ by at most one.\<close>

lemma mod_shift_zero_iff:
  fixes i n x :: nat
  assumes "i < n"
  shows "(x + (n - i)) mod n = 0 \<longleftrightarrow> x mod n = i"
proof -
  have "x mod n < n" using assms by simp
  have "(x + (n - i)) mod n = (x mod n + (n - i)) mod n" by (simp add: mod_add_left_eq)
  also have "\<dots> = 0 \<longleftrightarrow> x mod n = i"
  proof (cases "x mod n < i")
    case True
    then have "(x mod n + (n - i)) mod n = x mod n + (n - i)" by (intro mod_less) (use assms in linarith)
    with True assms show ?thesis by linarith
  next
    case False
    then have "x mod n + (n - i) = (x mod n - i) + n" using assms by linarith
    then have "(x mod n + (n - i)) mod n = x mod n - i"
      using \<open>x mod n < n\<close> by (simp only: mod_add_self2 mod_less less_imp_diff_less)
    with False show ?thesis by linarith
  qed
  finally show ?thesis .
qed

lemma count_residue:
  assumes "i < n"
  shows "length (filter (\<lambda>k. (c + k) mod n = i) [0..<m]) = (m + (c + (n - 1 - i)) mod n) div n"
proof (induction m)
  case 0
  then show ?case using assms by simp
next
  case (Suc m)
  let ?s = "(c + (n - 1 - i)) mod n"
  have "Suc (m + ?s) mod n = (Suc m + (c + (n - 1 - i))) mod n"
    by (simp add: mod_add_right_eq flip: add_Suc)
  also have "Suc m + (c + (n - 1 - i)) = (c + m) + (n - i)" using assms by simp
  finally have "Suc (m + ?s) mod n = 0 \<longleftrightarrow> (c + m) mod n = i"
    using mod_shift_zero_iff [OF assms] by simp
  with Suc show ?case by (simp add: div_Suc)
qed

lemma dealt_length:
  assumes "i < n"
  shows "length xs div n \<le> length (dealt cur n i xs) \<and> length (dealt cur n i xs) \<le> Suc (length xs div n)"
proof -
  let ?s = "(cur + 1 + (n - 1 - i)) mod n" and ?m = "length xs"
  have len: "length (dealt cur n i xs) = (?m + ?s) div n"
    using count_residue [OF assms, of "cur + 1" ?m] by (simp add: dealt_def)
  have "?s \<le> n" using assms by (simp add: less_imp_le)
  then have "(?m + ?s) div n \<le> (?m + n) div n" by (intro div_le_mono) simp
  also have "n \<noteq> 0" using assms by simp
  then have "(?m + n) div n = Suc (?m div n)" by (simp add: div_add_self2)
  finally show ?thesis using len div_le_mono [of ?m "?m + ?s" n] by simp
qed

lemma accept_run_dealt:
  assumes "acceptor_ok a"
    and "\<forall>i < length (ac_workers a). length (worker_items a i) + length fds \<le> crb_cap (it_queue (ac_workers a ! i))"
  shows "\<exists>a'. accept_run a fds = Inr (Some a') \<and> acceptor_ok a' \<and>
    length (ac_workers a') = length (ac_workers a) \<and>
    (\<forall>i < length (ac_workers a). worker_items a' i = worker_items a i @
      map new_NewConnectMessage (dealt (nat (ac_cur a)) (length (ac_workers a)) i fds))"
  using assms
proof (induction fds arbitrary: a)
  case (Cons fd fds)
  let ?n = "length (ac_workers a)"
  let ?j = "Suc (nat (ac_cur a)) mod ?n"
  have "?j < ?n" using Cons.prems(1) by (simp add: acceptor_ok_def)
  with Cons.prems(2) have room: "length (worker_items a ?j) < crb_cap (it_queue (ac_workers a ! ?j))"
    by fastforce
  obtain a1 where a1: "nas_onAccept a fd = Inr (Some a1)" "acceptor_ok a1" "ac_cur a1 = int ?j"
    "length (ac_workers a1) = ?n"
    "\<And>i. i < ?n \<Longrightarrow> crb_cap (it_queue (ac_workers a1 ! i)) = crb_cap (it_queue (ac_workers a ! i)) \<and>
      worker_items a1 i = worker_items a i @ (if i = ?j then [new_NewConnectMessage fd] else [])"
    using onAccept_run [OF Cons.prems(1) refl room, of fd] by blast
  have "\<forall>i < length (ac_workers a1).
      length (worker_items a1 i) + length fds \<le> crb_cap (it_queue (ac_workers a1 ! i))"
    using Cons.prems(2) a1(4,5) by auto
  from Cons.IH [OF a1(2) this] obtain a2 where "accept_run a1 fds = Inr (Some a2)" "acceptor_ok a2"
    "length (ac_workers a2) = ?n"
    "\<forall>i < ?n. worker_items a2 i = worker_items a1 i @ map new_NewConnectMessage (dealt ?j ?n i fds)"
    using a1(3,4) by auto
  with a1(1,5) show ?case by (auto simp: dealt_Cons)
qed simp

section \<open>Properties\<close>

text \<open>
  C16: Clients are dealt out in turn. As long as the queues have room, accepting any sequence of
  clients returns; the \<open>k\<close>-th client goes to the service whose index is \<open>cur + 1 + k\<close> modulo the
  number of services, each service has its clients queued in the order they came, after what it
  had, and the numbers of clients of any two services differ by at most one.
\<close>

theorem accept_round_robin:
  assumes "acceptor_ok a"
    and "\<forall>i < length (ac_workers a). length (worker_items a i) + length fds \<le> crb_cap (it_queue (ac_workers a ! i))"
  shows "\<exists>a'. accept_run a fds = Inr (Some a') \<and> length (ac_workers a') = length (ac_workers a) \<and>
    (\<forall>i < length (ac_workers a).
      worker_items a' i = worker_items a i @
        map new_NewConnectMessage (dealt (nat (ac_cur a)) (length (ac_workers a)) i fds) \<and>
      length fds div length (ac_workers a) \<le> length (worker_items a' i) - length (worker_items a i) \<and>
      length (worker_items a' i) - length (worker_items a i) \<le> Suc (length fds div length (ac_workers a)))"
proof -
  obtain a' where a': "accept_run a fds = Inr (Some a')" "length (ac_workers a') = length (ac_workers a)"
    "\<And>i. i < length (ac_workers a) \<Longrightarrow> worker_items a' i = worker_items a i @
      map new_NewConnectMessage (dealt (nat (ac_cur a)) (length (ac_workers a)) i fds)"
    using accept_run_dealt [OF assms] by blast
  with dealt_length [where xs = fds and n = "length (ac_workers a)" and cur = "nat (ac_cur a)"]
  show ?thesis by auto
qed

definition worker_example :: "nat message itask" where
  "worker_example = (new_InteractiveTask default_Message [] True)\<lparr>it_eventFd := 5\<rparr>"

theorem accept_round_robin_witness:
  "\<exists>a'. accept_run (new_NetAcceptService [worker_example, worker_example]) [7, 8, 9] = Inr (Some a') \<and>
     worker_items a' 1 = [new_NewConnectMessage 7, new_NewConnectMessage 9] \<and>
     worker_items a' 0 = [new_NewConnectMessage 8]"
proof -
  let ?a = "new_NetAcceptService [worker_example, worker_example]"
  have w: "crb_inv (it_queue worker_example)" "crb_items (it_queue worker_example) = []"
    "crb_cap (it_queue worker_example) = 49999" "it_eventFd worker_example = 5"
    by (simp_all add: worker_example_def new_InteractiveTask_def MSG_QUEUE_SIZE_def)
  have ok: "acceptor_ok ?a" using w by (simp add: acceptor_ok_def new_NetAcceptService_def)
  have "\<forall>i < length (ac_workers ?a). length (worker_items ?a i) + length [7, 8, 9 :: int] \<le>
      crb_cap (it_queue (ac_workers ?a ! i))"
    using w by (auto simp: worker_items_def new_NetAcceptService_def less_Suc_eq)
  from accept_round_robin [OF ok this] show ?thesis
    using w(2) by (auto simp: new_NetAcceptService_def worker_items_def dealt_Cons)
qed

text \<open>
  Without a work service the first client ends the program: the index is counted up to 1 before
  it is compared with the size 0, and the access leaves the vector.
\<close>

theorem accept_without_workers:
  "nas_onAccept (new_NetAcceptService []) fd = Inl OutOfBounds"
  by (simp add: nas_onAccept_def nextServiceIndex_def new_NetAcceptService_def)

end
