(* ===== verification/NetSystem.thy ===== *)
theory NetSystem
  imports NetAcceptService ConnectionFrames
begin

text \<open>
  A whole server of the framework, for any class of connections that works for itself: the accept
  service and its work services, each with its queue, reactor and connections, while clients come,
  send, and go. What the class of connections has to promise is a locale; the echo server is its
  instance.
\<close>

section \<open>The state\<close>

text \<open>
  A work service with its reactor and its connection objects by descriptor; \<open>ns_opened\<close> records the
  descriptors its \<open>onConnection\<close> was called with.
\<close>

record ('c, 'cb, 'k) net_service =
  ns_service :: "('c, 'k, unit) service"
  ns_objs :: "int \<rightharpoonup> 'c"
  ns_reactor :: "'cb reactor"
  ns_opened :: "int list"

text \<open>The message queues of the work services are part of the acceptor; \<open>nt_accepted\<close> records the
  descriptors accepted.\<close>

record ('c, 'cb, 'k) netsys =
  nt_acceptor :: "unit acceptor"
  nt_services :: "('c, 'cb, 'k) net_service list"
  nt_accepted :: "int list"

text \<open>The descriptor in a message, and the descriptors a work service is responsible for: those still
  in its queue and those of its connections.\<close>

definition msg_fd :: "'d message \<Rightarrow> int" where
  "msg_fd m = (case msg_class m of NewConnectMessage fd \<Rightarrow> fd | _ \<Rightarrow> 0)"

definition nt_queued :: "('c, 'cb, 'k) netsys \<Rightarrow> nat \<Rightarrow> int list" where
  "nt_queued s j = map msg_fd (worker_items (nt_acceptor s) j)"

definition nt_held :: "('c, 'cb, 'k) netsys \<Rightarrow> nat \<Rightarrow> int set" where
  "nt_held s j = set (nt_queued s j) \<union> dom (ns_objs (nt_services s ! j))"

section \<open>The steps\<close>

type_synonym ('c, 'cb, 'k) open_call = "int \<Rightarrow> 'cb reactor \<Rightarrow> ('c, 'k, unit) service option \<Rightarrow>
    ('c, 'cb reactor, ('c, 'k, unit) service option) conn_result"

type_synonym ('c, 'cb, 'k) event_call = "'c \<Rightarrow> 'cb reactor \<Rightarrow> ('c, 'k, unit) service option \<Rightarrow> io_event \<Rightarrow>
    ('c option \<times> 'cb reactor \<times> ('c, 'k, unit) service option \<times> string) outcome"

text \<open>
  A client is accepted on a descriptor that is not open; a work service handles its next message, or
  an event of one of its connections. \<open>onConn\<close> is \<open>onConnection\<close> on a new stream for a descriptor,
  \<open>onEvent\<close> what an event of a connection's socket does.
\<close>

datatype net_side = FromClient | OfService

inductive net_step :: "('c, 'cb, 'k) open_call \<Rightarrow> ('c, 'cb, 'k) event_call \<Rightarrow> net_side \<Rightarrow>
    ('c, 'cb, 'k) netsys \<Rightarrow> ('c, 'cb, 'k) netsys \<Rightarrow> bool" for onConn onEvent where
  accept: "0 < fd \<Longrightarrow> \<forall>w \<in> set (nt_services s). fd < reactor_nfds (ns_reactor w) \<Longrightarrow>
    \<forall>j < length (nt_services s). fd \<notin> nt_held s j \<Longrightarrow> nas_onAccept (nt_acceptor s) fd = Inr (Some a) \<Longrightarrow>
    net_step onConn onEvent FromClient s (s\<lparr>nt_acceptor := a, nt_accepted := nt_accepted s @ [fd]\<rparr>)"
| connect: "j < length (nt_services s) \<Longrightarrow> w = nt_services s ! j \<Longrightarrow>
    it_round (ac_workers (nt_acceptor s) ! j) = Inr (Some (m, t)) \<Longrightarrow>
    nws_onMessage (ns_service w) m = Inr (CallNewConnection k fd) \<Longrightarrow>
    onConn fd (ns_reactor w) (Some (ns_service w)) = Inr (co, r, Some sv) \<Longrightarrow>
    net_step onConn onEvent OfService s (s\<lparr>
      nt_acceptor := (nt_acceptor s)\<lparr>ac_workers := (ac_workers (nt_acceptor s))[j := t]\<rparr>,
      nt_services := (nt_services s)[j := \<lparr>ns_service = sv, ns_objs = (ns_objs w)(fd := co),
        ns_reactor = r, ns_opened = ns_opened w @ [fd]\<rparr>]\<rparr>)"
| event: "j < length (nt_services s) \<Longrightarrow> w = nt_services s ! j \<Longrightarrow> ns_objs w h = Some c \<Longrightarrow>
    reactor_handler (ns_reactor w) (h, ev_dir ev) \<noteq> None \<Longrightarrow>
    onEvent c (ns_reactor w) (Some (ns_service w)) ev = Inr (co, r, Some sv, bytes) \<Longrightarrow>
    net_step onConn onEvent FromClient s (s\<lparr>nt_services := (nt_services s)[j := w\<lparr>ns_service := sv,
      ns_objs := (ns_objs w)(h := co), ns_reactor := r\<rparr>]\<rparr>)"

text \<open>The only thing a service does of its own is to connect a client.\<close>

inductive_cases net_serviceE: "net_step onConn onEvent OfService s s'"

text \<open>The work services have started, each with a reactor and the descriptor of its events.\<close>

definition net_init :: "'k \<Rightarrow> (int \<times> 'cb reactor) list \<Rightarrow> ('c, 'cb, 'k) netsys" where
  "net_init k ers =
     \<lparr>nt_acceptor = new_NetAcceptService (map (\<lambda>(efd, _).
        setStat ((new_InteractiveTask default_Message ''WorkService'' True)\<lparr>it_eventFd := efd\<rparr>) RUNNING) ers),
      nt_services = map (\<lambda>(_, r). \<lparr>ns_service = setNewConnectionCallback new_NetWorkService (Some k),
        ns_objs = Map.empty, ns_reactor = r, ns_opened = []\<rparr>) ers,
      nt_accepted = []\<rparr>"

inductive net_reach :: "('c, 'cb, 'k) open_call \<Rightarrow> ('c, 'cb, 'k) event_call \<Rightarrow> 'k \<Rightarrow> (int \<times> 'cb reactor) list \<Rightarrow>
    ('c, 'cb, 'k) netsys \<Rightarrow> bool" for onConn onEvent k ers where
  start: "net_reach onConn onEvent k ers (net_init k ers)"
| step: "net_reach onConn onEvent k ers s \<Longrightarrow> net_step onConn onEvent l s s' \<Longrightarrow>
    net_reach onConn onEvent k ers s'"

section \<open>The contract of a class of connections\<close>

text \<open>
  \<open>live c fd\<close>: the connection object \<open>c\<close> keeps the descriptor \<open>fd\<close> open. Opening a connection on a
  free descriptor registers it or leaves nothing behind; an event of a connection leaves it
  registered and alive, or forgotten and deleted. Nothing else in the service changes.
\<close>

locale connection_class =
  fixes onConn :: "('c, 'cb, 'k) open_call" and onEvent :: "('c, 'cb, 'k) event_call"
    and live :: "'c \<Rightarrow> int \<Rightarrow> bool"
  assumes open_law: "reactor_inv r \<Longrightarrow> 0 < fd \<Longrightarrow> fd < reactor_nfds r \<Longrightarrow> sv_connections sv fd = None \<Longrightarrow>
      onConn fd r (Some sv) = Inr (co, r', wp) \<Longrightarrow>
      reactor_inv r' \<and> reactor_nfds r' = reactor_nfds r \<and>
      (\<exists>sv'. wp = Some sv' \<and> sv_newConnectionCb sv' = sv_newConnectionCb sv \<and>
        (case co of None \<Rightarrow> dom (sv_connections sv') = dom (sv_connections sv)
         | Some c \<Rightarrow> live c fd \<and> dom (sv_connections sv') = insert fd (dom (sv_connections sv))))"
    and event_law: "reactor_inv r \<Longrightarrow> 0 < fd \<Longrightarrow> fd < reactor_nfds r \<Longrightarrow> live c fd \<Longrightarrow>
      reactor_handler r (fd, ev_dir ev) \<noteq> None \<Longrightarrow> onEvent c r (Some sv) ev = Inr (co, r', wp, bytes) \<Longrightarrow>
      reactor_inv r' \<and> reactor_nfds r' = reactor_nfds r \<and>
      (\<exists>sv'. wp = Some sv' \<and> sv_newConnectionCb sv' = sv_newConnectionCb sv \<and>
        (case co of None \<Rightarrow> dom (sv_connections sv') = dom (sv_connections sv) - {fd}
         | Some c' \<Rightarrow> live c' fd \<and> dom (sv_connections sv') = dom (sv_connections sv)))"

section \<open>The invariant\<close>

text \<open>Of one work service, its queue, and the messages in it.\<close>

definition ns_ok :: "('c \<Rightarrow> int \<Rightarrow> bool) \<Rightarrow> ('c, 'cb, 'k) net_service \<Rightarrow> bool" where
  "ns_ok live w \<longleftrightarrow> reactor_inv (ns_reactor w) \<and> sv_newConnectionCb (ns_service w) \<noteq> None \<and>
     dom (sv_connections (ns_service w)) = dom (ns_objs w) \<and>
     (\<forall>h c. ns_objs w h = Some c \<longrightarrow> live c h \<and> 0 < h \<and> h < reactor_nfds (ns_reactor w))"

definition inbox_ok :: "int \<Rightarrow> unit message itask \<Rightarrow> bool" where
  "inbox_ok n t \<longleftrightarrow> crb_inv (it_queue t) \<and> 0 \<le> it_eventFd t \<and> it_counter t = length (crb_items (it_queue t)) \<and>
     (\<forall>m \<in> set (crb_items (it_queue t)). \<exists>fd. m = new_NewConnectMessage fd \<and> 0 < fd \<and> fd < n)"

text \<open>Each work service, its queue with the share of the clients it was dealt, and no descriptor at
  two places.\<close>

definition net_inv :: "('c \<Rightarrow> int \<Rightarrow> bool) \<Rightarrow> nat \<Rightarrow> ('c, 'cb, 'k) netsys \<Rightarrow> bool" where
  "net_inv live n s \<longleftrightarrow> length (nt_services s) = n \<and> length (ac_workers (nt_acceptor s)) = n \<and>
     ac_cur (nt_acceptor s) = int (length (nt_accepted s) mod n) \<and>
     (\<forall>j < n. ns_ok live (nt_services s ! j) \<and>
       inbox_ok (reactor_nfds (ns_reactor (nt_services s ! j))) (ac_workers (nt_acceptor s) ! j) \<and>
       ns_opened (nt_services s ! j) @ nt_queued s j = dealt 0 n j (nt_accepted s) \<and>
       distinct (nt_queued s j) \<and> set (nt_queued s j) \<inter> dom (ns_objs (nt_services s ! j)) = {} \<and>
       (\<forall>i < n. i \<noteq> j \<longrightarrow> nt_held s i \<inter> nt_held s j = {}))"


lemma net_invD:
  assumes "net_inv live n s"
  shows "length (nt_services s) = n" "length (ac_workers (nt_acceptor s)) = n"
    "ac_cur (nt_acceptor s) = int (length (nt_accepted s) mod n)"
    "j < n \<Longrightarrow> ns_ok live (nt_services s ! j)"
    "j < n \<Longrightarrow> inbox_ok (reactor_nfds (ns_reactor (nt_services s ! j))) (ac_workers (nt_acceptor s) ! j)"
    "j < n \<Longrightarrow> ns_opened (nt_services s ! j) @ nt_queued s j = dealt 0 n j (nt_accepted s)"
    "j < n \<Longrightarrow> distinct (nt_queued s j)"
    "j < n \<Longrightarrow> set (nt_queued s j) \<inter> dom (ns_objs (nt_services s ! j)) = {}"
    "j < n \<Longrightarrow> i < n \<Longrightarrow> i \<noteq> j \<Longrightarrow> nt_held s i \<inter> nt_held s j = {}"
  using assms by (auto simp: net_inv_def)

lemma msg_fd_new [simp]: "msg_fd (new_NewConnectMessage fd) = fd"
  by (simp add: msg_fd_def new_NewConnectMessage_def)

lemma dealt_append:
  "dealt cur n i (xs @ [x]) = dealt cur n i xs @ (if (cur + 1 + length xs) mod n = i then [x] else [])"
proof -
  have "map ((!) (xs @ [x])) (filter (\<lambda>k. (cur + 1 + k) mod n = i) [0..<length xs]) = dealt cur n i xs"
    unfolding dealt_def by (intro map_cong refl) (auto simp: nth_append)
  then show ?thesis by (simp add: dealt_def)
qed

text \<open>A step replaces one service and its queue.\<close>

definition nt_put :: "('c, 'cb, 'k) netsys \<Rightarrow> nat \<Rightarrow> unit message itask \<Rightarrow> ('c, 'cb, 'k) net_service \<Rightarrow> int \<Rightarrow>
    int list \<Rightarrow> ('c, 'cb, 'k) netsys" where
  "nt_put s j t w cur acc =
     \<lparr>nt_acceptor = \<lparr>ac_workers = (ac_workers (nt_acceptor s))[j := t], ac_cur = cur\<rparr>,
      nt_services = (nt_services s)[j := w], nt_accepted = acc\<rparr>"

lemma nt_put_parts:
  assumes "net_inv live n s" "j < n" "i < n"
  shows "nt_queued (nt_put s j t w cur acc) i =
      (if i = j then map msg_fd (crb_items (it_queue t)) else nt_queued s i)"
    "nt_held (nt_put s j t w cur acc) i =
      (if i = j then set (map msg_fd (crb_items (it_queue t))) \<union> dom (ns_objs w) else nt_held s i)"
  using net_invD(1,2) [OF assms(1)] assms(2,3)
  by (simp_all add: nt_put_def nt_queued_def nt_held_def worker_items_def nth_list_update)

lemma net_inv_put:
  assumes "net_inv live n s" "j < n" "ns_ok live w" "inbox_ok (reactor_nfds (ns_reactor w)) t"
    and "cur = int (length acc mod n)" "\<And>i. i < n \<Longrightarrow> i \<noteq> j \<Longrightarrow> dealt 0 n i acc = dealt 0 n i (nt_accepted s)"
    and "ns_opened w @ map msg_fd (crb_items (it_queue t)) = dealt 0 n j acc"
    and "distinct (map msg_fd (crb_items (it_queue t)))"
    and "set (map msg_fd (crb_items (it_queue t))) \<inter> dom (ns_objs w) = {}"
    and "\<And>i. i < n \<Longrightarrow> i \<noteq> j \<Longrightarrow> nt_held s i \<inter> (set (map msg_fd (crb_items (it_queue t))) \<union> dom (ns_objs w)) = {}"
  shows "net_inv live n (nt_put s j t w cur acc)"
proof -
  let ?s = "nt_put s j t w cur acc"
  note inv = net_invD [OF assms(1)]
  note parts = nt_put_parts [OF assms(1,2), of _ t w cur acc]
  have at: "nt_services ?s ! i = (if i = j then w else nt_services s ! i)"
    "ac_workers (nt_acceptor ?s) ! i = (if i = j then t else ac_workers (nt_acceptor s) ! i)" if "i < n" for i
    using inv(1,2) assms(2) that by (simp_all add: nt_put_def nth_list_update)
  have "nt_held ?s i \<inter> nt_held ?s k = {}" if "k < n" "i < n" "i \<noteq> k" for i k
    using parts(2) that assms(10) inv(9) by (cases "i = j"; cases "k = j") (auto simp: Int_commute)
  moreover have "nt_accepted ?s = acc" "ac_cur (nt_acceptor ?s) = cur"
    "length (nt_services ?s) = n" "length (ac_workers (nt_acceptor ?s)) = n"
    using inv(1,2) by (simp_all add: nt_put_def)
  moreover have "ns_ok live (nt_services ?s ! i) \<and>
      inbox_ok (reactor_nfds (ns_reactor (nt_services ?s ! i))) (ac_workers (nt_acceptor ?s) ! i) \<and>
      ns_opened (nt_services ?s ! i) @ nt_queued ?s i = dealt 0 n i acc \<and>
      distinct (nt_queued ?s i) \<and> set (nt_queued ?s i) \<inter> dom (ns_objs (nt_services ?s ! i)) = {}"
    if i: "i < n" for i
    using assms(3,4,6-9) inv(4-8) [OF i] by (simp add: at [OF i] parts(1) [OF i] i)
  ultimately show ?thesis using assms(5) unfolding net_inv_def by simp
qed

section \<open>The invariant is kept\<close>

lemma onAccept_Some:
  assumes "nas_onAccept a fd = Inr (Some a')" "0 \<le> ac_cur a" "ac_cur a < int (length (ac_workers a))"
    and "j = Suc (nat (ac_cur a)) mod length (ac_workers a)"
  obtains e t where "notifyMsg (ac_workers a ! j) (new_NewConnectMessage fd) = Inr (Some (e, t))"
    "a' = \<lparr>ac_workers = (ac_workers a)[j := t], ac_cur = int j\<rparr>"
proof -
  have "0 < length (ac_workers a)" using assms(2,3) by linarith
  then have "j < length (ac_workers a)" by (simp add: assms(4))
  moreover have turn: "nextServiceIndex a = (int j, a\<lparr>ac_cur := int j\<rparr>)"
    using nextServiceIndex_mod [OF assms(2,3)] assms(4) by simp
  ultimately obtain e t where "notifyMsg (ac_workers a ! j) (new_NewConnectMessage fd) = Inr (Some (e, t))"
    "a' = a\<lparr>ac_cur := int j, ac_workers := (ac_workers a)[j := t]\<rparr>"
    using assms(1) by (auto simp: nas_onAccept_def and_then_Inr_iff)
  with that show ?thesis by (cases a) simp
qed

lemma net_accept:
  assumes "net_inv live n s" "0 < n" "0 < fd" "\<forall>w \<in> set (nt_services s). fd < reactor_nfds (ns_reactor w)"
    and "\<forall>j < length (nt_services s). fd \<notin> nt_held s j" "nas_onAccept (nt_acceptor s) fd = Inr (Some a)"
  shows "net_inv live n (s\<lparr>nt_acceptor := a, nt_accepted := nt_accepted s @ [fd]\<rparr>)"
proof -
  note inv = net_invD [OF assms(1)]
  let ?acc = "nt_accepted s" and ?ws = "ac_workers (nt_acceptor s)"
  let ?j = "Suc (length ?acc) mod n"
  have j: "?j = Suc (nat (ac_cur (nt_acceptor s))) mod length ?ws" "?j < n"
    using inv(2,3) assms(2) by (simp_all add: mod_Suc_eq)
  have cur: "0 \<le> ac_cur (nt_acceptor s)" "ac_cur (nt_acceptor s) < int (length ?ws)"
    using inv(2,3) assms(2) by simp_all
  obtain e t where t: "notifyMsg (?ws ! ?j) (new_NewConnectMessage fd) = Inr (Some (e, t))"
    "a = \<lparr>ac_workers = ?ws[?j := t], ac_cur = int ?j\<rparr>"
    by (rule onAccept_Some [OF assms(6) cur j(1)]) (rule that)
  let ?w = "nt_services s ! ?j"
  have box: "inbox_ok (reactor_nfds (ns_reactor ?w)) (?ws ! ?j)" using inv(5) j(2) by blast
  then have "crb_inv (it_queue (?ws ! ?j))" "0 \<le> it_eventFd (?ws ! ?j)" by (simp_all add: inbox_ok_def)
  note n = notifyMsg_Some [OF t(1) this]
  have fd: "fd < reactor_nfds (ns_reactor ?w)" "fd \<notin> nt_held s i" if "i < n" for i
    using assms(4,5) inv(1) j(2) that by auto
  have items: "map msg_fd (crb_items (it_queue t)) = nt_queued s ?j @ [fd]"
    using n(1) by (simp add: nt_queued_def worker_items_def)
  have eq: "s\<lparr>nt_acceptor := a, nt_accepted := ?acc @ [fd]\<rparr> = nt_put s ?j t ?w (int ?j) (?acc @ [fd])"
    using t(2) j(2) inv(1) by (cases s) (simp add: nt_put_def list_update_id)
  show ?thesis unfolding eq
  proof (rule net_inv_put [OF assms(1) j(2) inv(4) [OF j(2)]])
    show "inbox_ok (reactor_nfds (ns_reactor ?w)) t"
      using box n fd(1) [OF j(2)] assms(3) by (auto simp: inbox_ok_def)
    show "ns_opened ?w @ map msg_fd (crb_items (it_queue t)) = dealt 0 n ?j (?acc @ [fd])"
      using inv(6) [OF j(2)] by (simp add: items dealt_append)
  qed (use inv(7-9) j(2) fd(2) in \<open>auto simp: items dealt_append nt_held_def\<close>)
qed


lemma connect_inbox:
  assumes "inbox_ok n t" "it_round t = Inr (Some (m, t'))" "nws_onMessage sv m = Inr (CallNewConnection k fd)"
  shows "m = new_NewConnectMessage fd" "crb_items (it_queue t) = new_NewConnectMessage fd # crb_items (it_queue t')"
    "inbox_ok n t'" "0 < fd" "fd < n"
proof -
  have t: "crb_inv (it_queue t)" "it_counter t = length (crb_items (it_queue t))"
    using assms(1) by (simp_all add: inbox_ok_def)
  note round = it_round_Some [OF assms(2) t]
  obtain fd' where fd': "m = new_NewConnectMessage fd'" "0 < fd'" "fd' < n"
    using assms(1) round(1) by (auto simp: inbox_ok_def)
  with assms(3) have "fd' = fd"
    by (auto simp: nws_onMessage_def getWhat_def new_NewConnectMessage_def newStream_def split: option.splits)
  with fd' round assms(1) show "m = new_NewConnectMessage fd" "0 < fd" "fd < n" "inbox_ok n t'"
    "crb_items (it_queue t) = new_NewConnectMessage fd # crb_items (it_queue t')"
    by (auto simp: inbox_ok_def)
qed

text \<open>A step of one service that keeps its queue or takes a message from it.\<close>

lemma net_inv_service:
  assumes "net_inv live n s" "j < n" "ns_ok live w" "inbox_ok (reactor_nfds (ns_reactor w)) t"
    and "ns_opened w @ map msg_fd (crb_items (it_queue t)) = dealt 0 n j (nt_accepted s)"
    and "distinct (map msg_fd (crb_items (it_queue t)))"
    and "set (map msg_fd (crb_items (it_queue t))) \<inter> dom (ns_objs w) = {}"
    and "set (map msg_fd (crb_items (it_queue t))) \<union> dom (ns_objs w) \<subseteq> nt_held s j"
  shows "net_inv live n (nt_put s j t w (ac_cur (nt_acceptor s)) (nt_accepted s))"
proof (rule net_inv_put [OF assms(1-4) net_invD(3) [OF assms(1)] refl assms(5-7)])
  fix i
  assume "i < n" "i \<noteq> j"
  then show "nt_held s i \<inter> (set (map msg_fd (crb_items (it_queue t))) \<union> dom (ns_objs w)) = {}"
    using net_invD(9) [OF assms(1,2)] assms(8) by blast
qed

context connection_class
begin

lemma net_connect:
  assumes "net_inv live n s" "j < n" "w = nt_services s ! j"
    and "it_round (ac_workers (nt_acceptor s) ! j) = Inr (Some (m, t))"
    and "nws_onMessage (ns_service w) m = Inr (CallNewConnection k fd)"
    and "onConn fd (ns_reactor w) (Some (ns_service w)) = Inr (co, r, Some sv)"
  shows "net_inv live n (s\<lparr>
      nt_acceptor := (nt_acceptor s)\<lparr>ac_workers := (ac_workers (nt_acceptor s))[j := t]\<rparr>,
      nt_services := (nt_services s)[j := \<lparr>ns_service = sv, ns_objs = (ns_objs w)(fd := co),
        ns_reactor = r, ns_opened = ns_opened w @ [fd]\<rparr>]\<rparr>)"
proof -
  note inv = net_invD [OF assms(1)]
  let ?w = "\<lparr>ns_service = sv, ns_objs = (ns_objs w)(fd := co), ns_reactor = r, ns_opened = ns_opened w @ [fd]\<rparr>"
  have eq: "s\<lparr>nt_acceptor := (nt_acceptor s)\<lparr>ac_workers := (ac_workers (nt_acceptor s))[j := t]\<rparr>,
      nt_services := (nt_services s)[j := ?w]\<rparr> = nt_put s j t ?w (ac_cur (nt_acceptor s)) (nt_accepted s)"
    by (cases s, cases "nt_acceptor s") (simp add: nt_put_def)
  note box = connect_inbox [OF inv(5) [OF assms(2)] assms(4,5)]
  have w: "ns_ok live w" using inv(4) assms(2,3) by blast
  have q: "nt_queued s j = fd # map msg_fd (crb_items (it_queue t))"
    using box(2) by (simp add: nt_queued_def worker_items_def)
  have free: "fd \<notin> dom (ns_objs w)" using inv(8) [OF assms(2)] q assms(3) by auto
  then have "fd \<notin> dom (sv_connections (ns_service w))" using w by (simp add: ns_ok_def)
  then have "sv_connections (ns_service w) fd = None" by (simp add: domIff)
  from open_law [OF _ box(4) _ this assms(6)] w box(5) assms(3)
  have e: "reactor_inv r" "reactor_nfds r = reactor_nfds (ns_reactor w)"
    "sv_newConnectionCb sv = sv_newConnectionCb (ns_service w)"
    "case co of None \<Rightarrow> dom (sv_connections sv) = dom (ns_objs w)
     | Some c \<Rightarrow> live c fd \<and> dom (sv_connections sv) = insert fd (dom (ns_objs w))"
    by (auto simp: ns_ok_def split: option.splits)
  have "ns_ok live ?w"
    using w e free box(4,5) assms(3) by (cases co) (auto simp: ns_ok_def)
  moreover have "dom (ns_objs ?w) \<subseteq> insert fd (dom (ns_objs w))" by (auto split: if_splits)
  ultimately show ?thesis unfolding eq
    using inv(6-8) [OF assms(2)] box(3) e(2) q assms(3)
    by (intro net_inv_service [OF assms(1,2)]) (auto simp: nt_held_def)
qed

lemma net_event:
  assumes "net_inv live n s" "j < n" "w = nt_services s ! j" "ns_objs w h = Some c"
    and "reactor_handler (ns_reactor w) (h, ev_dir ev) \<noteq> None"
    and "onEvent c (ns_reactor w) (Some (ns_service w)) ev = Inr (co, r, Some sv, bytes)"
  shows "net_inv live n (s\<lparr>nt_services := (nt_services s)[j := w\<lparr>ns_service := sv,
      ns_objs := (ns_objs w)(h := co), ns_reactor := r\<rparr>]\<rparr>)"
proof -
  note inv = net_invD [OF assms(1)]
  let ?w = "w\<lparr>ns_service := sv, ns_objs := (ns_objs w)(h := co), ns_reactor := r\<rparr>"
  let ?t = "ac_workers (nt_acceptor s) ! j"
  have eq: "s\<lparr>nt_services := (nt_services s)[j := ?w]\<rparr> = nt_put s j ?t ?w (ac_cur (nt_acceptor s)) (nt_accepted s)"
    by (cases s, cases "nt_acceptor s") (simp add: nt_put_def)
  have w: "ns_ok live w" using inv(4) assms(2,3) by blast
  then have h: "live c h" "0 < h" "h < reactor_nfds (ns_reactor w)" "reactor_inv (ns_reactor w)"
    using assms(4) by (auto simp: ns_ok_def)
  from event_law [OF h(4,2,3,1) assms(5,6)] w
  have e: "reactor_inv r" "reactor_nfds r = reactor_nfds (ns_reactor w)"
    "sv_newConnectionCb sv = sv_newConnectionCb (ns_service w)"
    "case co of None \<Rightarrow> dom (sv_connections sv) = dom (ns_objs w) - {h}
     | Some c' \<Rightarrow> live c' h \<and> dom (sv_connections sv) = dom (ns_objs w)"
    by (auto simp: ns_ok_def split: option.splits)
  have "ns_ok live ?w"
    using w e h(2,3) assms(4) by (cases co) (auto simp: ns_ok_def)
  moreover have "dom (ns_objs ?w) \<subseteq> dom (ns_objs w)" using assms(4) by (auto split: if_splits)
  ultimately show ?thesis unfolding eq
    using inv(5-8) [OF assms(2)] e(2) assms(3)
    by (intro net_inv_service [OF assms(1,2)]) (auto simp: nt_held_def nt_queued_def worker_items_def)
qed

lemma net_step_inv:
  assumes "net_step onConn onEvent l s s'" "net_inv live n s" "0 < n"
  shows "net_inv live n s'"
  using assms(1)
proof cases
  case (accept fd a)
  from net_accept [OF assms(2,3) accept(3-6)] show ?thesis using accept(2) by simp
next
  case (connect j w m t k fd co r sv)
  with net_invD(1) [OF assms(2)] net_connect [OF assms(2) _ connect(4-7)] show ?thesis by simp
next
  case (event j w h c ev co r sv bytes)
  with net_invD(1) [OF assms(2)] net_event [OF assms(2) _ event(4-7)] show ?thesis by simp
qed

lemma net_reach_inv:
  assumes "net_reach onConn onEvent k ers s" "ers \<noteq> []" "\<forall>(efd, r) \<in> set ers. 0 \<le> efd \<and> reactor_inv r"
  shows "net_inv live (length ers) s"
  using assms(1)
proof (induction rule: net_reach.induct)
  case start
  have "\<forall>x \<in> set ers. 0 \<le> fst x \<and> reactor_inv (snd x)" using assms(3) by (simp add: case_prod_unfold)
  then have "0 \<le> fst (ers ! j)" "reactor_inv (snd (ers ! j))" if "j < length ers" for j
    using nth_mem [OF that] by blast+
  then show ?case
    by (simp add: net_inv_def net_init_def new_NetAcceptService_def ns_ok_def inbox_ok_def nt_queued_def
        nt_held_def worker_items_def new_InteractiveTask_def setStat_def MSG_QUEUE_SIZE_def
        setNewConnectionCallback_def new_NetWorkService_def case_prod_unfold)
next
  case (step s l s')
  then show ?case using net_step_inv assms(2) by blast
qed

text \<open>A service with a message in its queue can always handle it, when opening a connection succeeds.\<close>

lemma net_can_connect:
  assumes "net_inv live n s" "j < n" "nt_queued s j \<noteq> []"
    and "\<And>r fd sv. reactor_inv r \<Longrightarrow> 0 < fd \<Longrightarrow> fd < reactor_nfds r \<Longrightarrow> sv_connections sv fd = None \<Longrightarrow>
      \<exists>co r' sv'. onConn fd r (Some sv) = Inr (co, r', Some sv')"
  shows "\<exists>s'. net_step onConn onEvent OfService s s'"
proof -
  note inv = net_invD [OF assms(1)]
  let ?w = "nt_services s ! j" and ?t = "ac_workers (nt_acceptor s) ! j"
  have box: "inbox_ok (reactor_nfds (ns_reactor ?w)) ?t" and w: "ns_ok live ?w"
    using inv(4,5) assms(2) by blast+
  obtain m q where q: "crb_items (it_queue ?t) = m # q"
    using assms(3) by (cases "crb_items (it_queue ?t)") (auto simp: nt_queued_def worker_items_def)
  obtain t' where t': "it_round ?t = Inr (Some (m, t'))"
    using it_round_ready [OF _ _ _ q] box unfolding inbox_ok_def by metis
  obtain fd where fd: "m = new_NewConnectMessage fd" "0 < fd" "fd < reactor_nfds (ns_reactor ?w)"
    using box q by (auto simp: inbox_ok_def)
  obtain k where "sv_newConnectionCb (ns_service ?w) = Some k" using w by (auto simp: ns_ok_def)
  then have call: "nws_onMessage (ns_service ?w) m = Inr (CallNewConnection k fd)"
    by (simp add: fd(1) nws_onMessage_def getWhat_def new_NewConnectMessage_def newStream_def)
  have "fd \<in> set (nt_queued s j)" using q fd(1) by (simp add: nt_queued_def worker_items_def)
  then have "fd \<notin> dom (sv_connections (ns_service ?w))" using inv(8) [OF assms(2)] w by (auto simp: ns_ok_def)
  then have free: "sv_connections (ns_service ?w) fd = None" by (simp add: domIff)
  have "reactor_inv (ns_reactor ?w)" using w by (simp add: ns_ok_def)
  from assms(4) [OF this fd(2,3) free] obtain co r' sv' where
    "onConn fd (ns_reactor ?w) (Some (ns_service ?w)) = Inr (co, r', Some sv')" by blast
  from net_step.connect [where onConn = onConn and s = s and j = j, OF _ refl t' call this] assms(2) inv(1)
  show ?thesis by blast
qed

text \<open>A client can be accepted when the queue of the service whose turn it is has room.\<close>

lemma net_can_accept:
  assumes "net_inv live n s" "0 < n" "0 < fd" "\<forall>w \<in> set (nt_services s). fd < reactor_nfds (ns_reactor w)"
    and "\<forall>j < n. fd \<notin> nt_held s j" "j = Suc (length (nt_accepted s)) mod n"
    and "length (worker_items (nt_acceptor s) j) < crb_cap (it_queue (ac_workers (nt_acceptor s) ! j))"
  obtains a where "net_step onConn onEvent FromClient s (s\<lparr>nt_acceptor := a, nt_accepted := nt_accepted s @ [fd]\<rparr>)"
proof -
  note inv = net_invD [OF assms(1)]
  have "crb_inv (it_queue t) \<and> 0 \<le> it_eventFd t" if "t \<in> set (ac_workers (nt_acceptor s))" for t
    using inv(2,5) that by (auto simp: in_set_conv_nth inbox_ok_def)
  moreover have "j = Suc (nat (ac_cur (nt_acceptor s))) mod length (ac_workers (nt_acceptor s))"
    using inv(2,3) assms(6) by (simp add: mod_Suc_eq)
  ultimately obtain a where a: "nas_onAccept (nt_acceptor s) fd = Inr (Some a)"
    using onAccept_run [OF _ _ assms(7), of fd] inv(2,3) assms(2) by (auto simp: acceptor_ok_def)
  show ?thesis by (rule that, rule net_step.accept [OF assms(3,4) _ a]) (use assms(5) inv(1) in simp)
qed

text \<open>Every step of a service takes one client out of a queue.\<close>

lemma net_service_step:
  assumes "net_step onConn onEvent OfService s s'" "net_inv live n s"
  shows "(\<Sum>j<n. length (nt_queued s j)) = Suc (\<Sum>j<n. length (nt_queued s' j))" "nt_accepted s' = nt_accepted s"
proof -
  note inv = net_invD [OF assms(2)]
  from assms(1) have "(\<Sum>j<n. length (nt_queued s j)) = Suc (\<Sum>j<n. length (nt_queued s' j)) \<and> nt_accepted s' = nt_accepted s"
  proof (cases rule: net_serviceE [consumes 1, case_names connect])
    case (connect j m t k fd co r sv)
    have j: "j < n" using connect(2) inv(1) by simp
    have "nt_queued s j = fd # map msg_fd (crb_items (it_queue t))"
      using connect_inbox(2) [OF inv(5) [OF j] connect(3,4)] by (simp add: nt_queued_def worker_items_def)
    moreover have "nt_queued s' i = (if i = j then map msg_fd (crb_items (it_queue t)) else nt_queued s i)"
      if "i < n" for i
      using connect(1) inv(2) j that by (simp add: nt_queued_def worker_items_def nth_list_update)
    ultimately have "(\<Sum>i<n. length (nt_queued s i)) = (\<Sum>i<n. length (nt_queued s' i) + (if i = j then 1 else 0))"
      by (intro sum.cong) auto
    also have "\<dots> = Suc (\<Sum>i<n. length (nt_queued s' i))" using j by (simp add: sum.distrib)
    finally show ?thesis using connect(1) by simp
  qed
  then show "(\<Sum>j<n. length (nt_queued s j)) = Suc (\<Sum>j<n. length (nt_queued s' j))" "nt_accepted s' = nt_accepted s"
    by blast+
qed

lemma net_service_run:
  assumes "(net_step onConn onEvent OfService ^^ m) s s'" "net_inv live n s" "0 < n"
  shows "net_inv live n s' \<and> nt_accepted s' = nt_accepted s \<and>
    m + (\<Sum>j<n. length (nt_queued s' j)) = (\<Sum>j<n. length (nt_queued s j))"
  using assms(1)
proof (induction m arbitrary: s')
  case (Suc m)
  then obtain t where t: "(net_step onConn onEvent OfService ^^ m) s t" "net_step onConn onEvent OfService t s'"
    by auto
  note IH = Suc.IH [OF t(1)]
  then have inv: "net_inv live n t" by blast
  from net_step_inv [OF t(2) inv assms(3)] net_service_step [OF t(2) inv] IH show ?case by simp
qed (use assms(2) in simp)

end

end
