(* ===== verification/EchoSystem.thy ===== *)
theory EchoSystem
  imports EchoServer NetSystem
begin

text \<open>
  The whole echo server: the connections of \<^theory_text>\<open>EchoServer\<close> under the work services of \<^theory_text>\<open>NetSystem\<close>.
\<close>

section \<open>The echo server's connections keep the contract\<close>

abbreviation echo_open where
  "echo_open lib rc sc \<equiv> \<lambda>fd r wp. echo_onConnection (lev_add lib) (removeEventHandler lib)
     (new_Stream fd (rc fd) (sc fd)) r wp"

abbreviation echo_event where
  "echo_event lib \<equiv> \<lambda>c r wp ev. conn_event (lev_add lib) dispatch (cc_recv lib) (cc_send lib) c r wp ev"

definition echo_live :: "'cb concurrent_connection \<Rightarrow> int \<Rightarrow> bool" where
  "echo_live c fd \<longleftrightarrow> cn_handle c = fd \<and> st_fd (cn_stream c) = fd"

text \<open>What callbacks of a connection do: it stays registered, or the service forgets it and it is deleted.\<close>

definition echo_effect :: "int \<Rightarrow> 'cb reactor \<Rightarrow> ('cb concurrent_connection, 'k, 'd) service \<Rightarrow>
    'cb concurrent_connection option \<Rightarrow> 'cb reactor \<Rightarrow> ('cb concurrent_connection, 'k, 'd) service option \<Rightarrow> bool" where
  "echo_effect fd r sv co r' wp \<longleftrightarrow> reactor_inv r' \<and> reactor_nfds r' = reactor_nfds r \<and>
     (case co of None \<Rightarrow> wp = Some (removeConnection sv fd) | Some c \<Rightarrow> echo_live c fd \<and> wp = Some sv)"

lemma cc_destroy_effect:
  assumes "cc_destroy (removeEventHandler lib) (Some sv) c r = Inr (co, r', wp)"
    and "reactor_inv r" "0 < fd" "fd < reactor_nfds r" "echo_live c fd"
  shows "echo_effect fd r sv co r' wp"
proof -
  obtain x s where d: "delete_Stream (removeEventHandler lib) (cn_stream c) r = Inr (x, s, r')"
    "co = None" "wp = Some (removeConnection sv fd)"
    using assms(1,5) by (auto simp: cc_destroy_def Connection_destroy_def and_then_Inr_iff echo_live_def)
  have "0 \<le> st_fd (cn_stream c)" "st_fd (cn_stream c) < reactor_nfds r"
    using assms(3-5) by (simp_all add: echo_live_def)
  from lev.delete_Stream_frame [OF d(1) assms(2) this] d(2,3) show ?thesis by (simp add: echo_effect_def)
qed

lemma echo_effect_frame:
  assumes "echo_effect fd r1 sv co r' wp" "reactor_nfds r1 = reactor_nfds r"
  shows "echo_effect fd r sv co r' wp"
  using assms by (simp add: echo_effect_def)

lemma cc_ask_effect:
  assumes "and_then (asyncRecvBytes (lev_add lib) (cn_stream c) r n cb) (\<lambda>(ok, s, r).
      let c = c\<lparr>cn_stream := s\<rparr> in
      if \<not> ok then cc_destroy (removeEventHandler lib) (Some sv) c r else Inr (Some c, r, Some sv)) = Inr (co, r', wp)"
    and "reactor_inv r" "0 < fd" "fd < reactor_nfds r" "echo_live c fd"
  shows "echo_effect fd r sv co r' wp"
proof -
  have fd: "0 \<le> st_fd (cn_stream c)" "st_fd (cn_stream c) < reactor_nfds r"
    using assms(3-5) by (simp_all add: echo_live_def)
  obtain ok s r1 where ask: "asyncRecvBytes (lev_add lib) (cn_stream c) r n cb = Inr (ok, s, r1)"
    using assms(1) by (auto simp: and_then_Inr_iff)
  note f = lev.asyncRecvBytes_frame [OF ask assms(2) fd]
  have live: "echo_live (c\<lparr>cn_stream := s\<rparr>) fd" using assms(5) f(1) by (simp add: echo_live_def)
  show ?thesis
  proof (cases ok)
    case True
    with assms(1) ask live f show ?thesis by (auto simp: echo_effect_def)
  next
    case False
    with assms(1) ask have "cc_destroy (removeEventHandler lib) (Some sv) (c\<lparr>cn_stream := s\<rparr>) r1 = Inr (co, r', wp)"
      by simp
    from cc_destroy_effect [OF this f(2) assms(3) _ live] assms(4) f(3) echo_effect_frame show ?thesis by metis
  qed
qed

lemma cc_recv_effect:
  assumes "cc_recv lib c r (Some sv) st bs = Inr (co, r', wp)"
    and "reactor_inv r" "0 < fd" "fd < reactor_nfds r" "echo_live c fd"
  shows "echo_effect fd r sv co r' wp"
proof (cases "st = RECVERR")
  case True
  with assms(1) cc_destroy_effect [OF _ assms(2-5)] show ?thesis by (simp add: cc_recvCompleteCallback_def)
next
  case False
  have fd: "0 \<le> st_fd (cn_stream c)" "st_fd (cn_stream c) < reactor_nfds r"
    using assms(3-5) by (simp_all add: echo_live_def)
  show ?thesis
  proof (cases "cc_stat c")
    case RECV_HEAD
    with False assms(1) obtain x s where h: "recv_head (lev_add lib) (cn_stream c) r (cc_recvCall c) bs = Inr (x, s, r')"
      "co = Some (c\<lparr>cn_stream := s, cc_stat := x\<rparr>)" "wp = Some sv"
      by (auto simp: cc_recvCompleteCallback_def and_then_Inr_iff)
    from lev.recv_head_frame [OF h(1) assms(2) fd] h(2,3) assms(5) show ?thesis
      by (simp add: echo_effect_def echo_live_def)
  next
    case RECV_BODY
    with False assms(1) obtain buf b s where h:
      "asyncSendBytes (lev_add lib) (cn_stream c) r buf (cc_sendCall c) = Inr (b, s, r')"
      "co = Some (c\<lparr>cc_recvBuf := buf, cn_stream := s\<rparr>)" "wp = Some sv"
      by (auto simp: cc_recvCompleteCallback_def and_then_Inr_iff Let_def)
    from lev.asyncSendBytes_frame [OF h(1) assms(2) fd] h(2,3) assms(5) show ?thesis
      by (simp add: echo_effect_def echo_live_def)
  qed
qed

lemma cc_send_effect:
  assumes "cc_send lib c r (Some sv) st = Inr (co, r', wp)"
    and "reactor_inv r" "0 < fd" "fd < reactor_nfds r" "echo_live c fd"
  shows "echo_effect fd r sv co r' wp"
proof (cases "st = SENDERR")
  case True
  with assms(1) cc_destroy_effect [OF _ assms(2-5)] show ?thesis by (simp add: cc_sendCompleteCallback_def)
next
  case False
  have "echo_live (c\<lparr>cc_stat := RECV_HEAD\<rparr>) fd" using assms(5) by (simp add: echo_live_def)
  from cc_ask_effect [OF _ assms(2-4) this, of lib 4 "cc_recvCall c" sv co r' wp] False assms(1)
  show ?thesis by (simp add: cc_sendCompleteCallback_def Let_def)
qed

lemma echo_calls_effect:
  assumes "conn_calls (cc_recv lib) (cc_send lib) c r (Some sv) os = Inr (co, r', wp, bytes)"
    and "reactor_inv r" "0 < fd" "fd < reactor_nfds r" "echo_live c fd"
  shows "echo_effect fd r sv co r' wp"
  using assms
proof (induction os arbitrary: c r bytes)
  case Nil
  then show ?case by (auto simp: echo_effect_def)
next
  case (Cons x os)
  have go: "echo_effect fd r sv co r' wp"
    if "echo_effect fd r sv co1 r1 wp1"
      "(case co1 of None \<Rightarrow> Inr (None, r1, wp1, []) | Some c \<Rightarrow> conn_calls (cc_recv lib) (cc_send lib) c r1 wp1 os) =
        Inr (co, r', wp, bytes)" for co1 r1 wp1
  proof (cases co1)
    case None
    with that show ?thesis by simp
  next
    case (Some c1)
    with that have e: "reactor_inv r1" "reactor_nfds r1 = reactor_nfds r" "echo_live c1 fd"
      "conn_calls (cc_recv lib) (cc_send lib) c1 r1 (Some sv) os = Inr (co, r', wp, bytes)"
      by (auto simp: echo_effect_def)
    from Cons.IH [OF e(4,1) Cons.prems(3) _ e(3)] e(2) Cons.prems(4) echo_effect_frame show ?thesis by metis
  qed
  show ?case
  proof (cases x)
    case (CallRecv u st buf)
    with Cons.prems(1) obtain co1 r1 wp1 where "cc_recv lib c r (Some sv) st buf = Inr (co1, r1, wp1)"
      "(case co1 of None \<Rightarrow> Inr (None, r1, wp1, []) | Some c \<Rightarrow> conn_calls (cc_recv lib) (cc_send lib) c r1 wp1 os) =
        Inr (co, r', wp, bytes)" by (auto simp: and_then_Inr_iff)
    then show ?thesis using go cc_recv_effect [OF _ Cons.prems(2-5)] by blast
  next
    case (CallSend u st)
    with Cons.prems(1) obtain co1 r1 wp1 where "cc_send lib c r (Some sv) st = Inr (co1, r1, wp1)"
      "(case co1 of None \<Rightarrow> Inr (None, r1, wp1, []) | Some c \<Rightarrow> conn_calls (cc_recv lib) (cc_send lib) c r1 wp1 os) =
        Inr (co, r', wp, bytes)" by (auto simp: and_then_Inr_iff)
    then show ?thesis using go cc_send_effect [OF _ Cons.prems(2-5)] by blast
  next
    case (OutBytes bs)
    with Cons.prems Cons.IH show ?thesis by (auto simp: sent_first_def and_then_Inr_iff)
  next
    case (CallClose u fd')
    with Cons.prems Cons.IH show ?thesis by auto
  qed
qed

lemma echo_event_effect:
  assumes "echo_event lib c r (Some sv) ev = Inr (co, r', wp, bytes)" "reactor_inv r" "0 < fd" "fd < reactor_nfds r"
    and "echo_live c fd" "reactor_handler r (fd, ev_dir ev) \<noteq> None"
  shows "echo_effect fd r sv co r' wp"
proof -
  have fd: "0 \<le> st_fd (cn_stream c)" "st_fd (cn_stream c) < reactor_nfds r"
    "reactor_handler r (st_fd (cn_stream c), ev_dir ev) \<noteq> None"
    using assms(3-6) by (simp_all add: echo_live_def)
  obtain s r2 os where pass: "conn_calls (cc_recv lib) (cc_send lib) (c\<lparr>cn_stream := s\<rparr>) r2 (Some sv) os =
      Inr (co, r', wp, bytes)" "st_fd s = st_fd (cn_stream c)" "reactor_inv r2" "reactor_nfds r2 = reactor_nfds r"
    by (rule lev.conn_event_pass [OF assms(1,2) fd]) (rule that)
  have "fd < reactor_nfds r2" "echo_live (c\<lparr>cn_stream := s\<rparr>) fd"
    using assms(4,5) pass(2,4) by (simp_all add: echo_live_def)
  from echo_calls_effect [OF pass(1,3) assms(3) this] pass(4) show ?thesis by (rule echo_effect_frame)
qed

lemma echo_open_effect:
  assumes "echo_open lib rc sc fd r (Some sv) = Inr (co, r', wp)"
    and "reactor_inv r" "0 < fd" "fd < reactor_nfds r" "sv_connections sv fd = None"
  obtains c where "cn_handle c = fd" "echo_effect fd r (sv\<lparr>sv_connections := (sv_connections sv)(fd \<mapsto> c)\<rparr>) co r' wp"
proof -
  let ?fresh = "\<lparr>cn_stream = new_Stream fd (rc fd) (sc fd), cn_handle = fd, cc_stat = RECV_HEAD, cc_recvBuf = [],
    cc_recvCall = None, cc_sendCall = None\<rparr>"
  let ?c = "?fresh\<lparr>cc_recvCall := Some (), cc_sendCall := Some (), cc_stat := RECV_HEAD\<rparr>"
  let ?sv = "sv\<lparr>sv_connections := (sv_connections sv)(fd \<mapsto> ?fresh)\<rparr>"
  have new: "new_ConcurrentConnection (new_Stream fd (rc fd) (sc fd)) = Inr ?fresh"
    using assms(3) by (simp add: new_ConcurrentConnection_def new_Connection_def getFd_def Let_def new_Stream_def)
  have "addNewConnection sv ?fresh = (True, ?sv)"
    using assms(5) by (simp add: addNewConnection_def Connection_getHandle_def)
  with assms(1) new have start: "cc_startReadOrWriteInService (lev_add lib) (removeEventHandler lib) ?fresh r (Some ?sv) =
      Inr (co, r', wp)"
    by (auto simp: echo_onConnection_def and_then_Inr_iff split: option.splits)
  have live: "echo_live ?c fd" by (simp add: echo_live_def new_Stream_def)
  have "echo_effect fd r ?sv co r' wp"
    by (rule cc_ask_effect [OF _ assms(2-4) live, of lib 4 "Some ()"])
      (use start in \<open>simp add: cc_startReadOrWriteInService_def Let_def cong: if_cong\<close>)
  then show ?thesis by (intro that [of ?fresh]) simp_all
qed

interpretation echo_net: connection_class "\<lambda>fd r wp. echo_onConnection (lev_add lib) (removeEventHandler lib)
    (new_Stream fd (rc fd) (sc fd)) r wp"
  "\<lambda>c r wp ev. conn_event (lev_add lib) dispatch (cc_recv lib) (cc_send lib) c r wp ev" echo_live for lib rc sc
proof unfold_locales
  fix r fd sv co r' wp
  assume h: "reactor_inv r" "0 < fd" "fd < reactor_nfds r" "sv_connections sv fd = None"
    "echo_open lib rc sc fd r (Some sv) = Inr (co, r', wp)"
  obtain c where c: "echo_effect fd r (sv\<lparr>sv_connections := (sv_connections sv)(fd \<mapsto> c)\<rparr>) co r' wp"
    by (rule echo_open_effect [where rc = rc and sc = sc, OF h(5,1-4)]) (rule that)
  show "reactor_inv r' \<and> reactor_nfds r' = reactor_nfds r \<and>
      (\<exists>sv'. wp = Some sv' \<and> sv_newConnectionCb sv' = sv_newConnectionCb sv \<and>
        (case co of None \<Rightarrow> dom (sv_connections sv') = dom (sv_connections sv)
         | Some c \<Rightarrow> echo_live c fd \<and> dom (sv_connections sv') = insert fd (dom (sv_connections sv))))"
    using c h(4) by (cases co) (auto simp: echo_effect_def removeConnection_def)
next
  fix r fd c ev sv co r' wp bytes
  assume h: "reactor_inv r" "0 < fd" "fd < reactor_nfds r" "echo_live c fd"
    "reactor_handler r (fd, ev_dir ev) \<noteq> None" "echo_event lib c r (Some sv) ev = Inr (co, r', wp, bytes)"
  from echo_event_effect [OF h(6,1-5)]
  show "reactor_inv r' \<and> reactor_nfds r' = reactor_nfds r \<and>
      (\<exists>sv'. wp = Some sv' \<and> sv_newConnectionCb sv' = sv_newConnectionCb sv \<and>
        (case co of None \<Rightarrow> dom (sv_connections sv') = dom (sv_connections sv) - {fd}
         | Some c' \<Rightarrow> echo_live c' fd \<and> dom (sv_connections sv') = dom (sv_connections sv)))"
    by (cases co) (auto simp: echo_effect_def removeConnection_def)
qed


text \<open>When libevent takes what it is given, a connection on a free descriptor is opened and waits.\<close>

lemma echo_open_runs:
  assumes "lib_adds lib" "reactor_inv r" "0 < fd" "fd < reactor_nfds r" "sv_connections sv fd = None"
  shows "\<exists>c r' sv'. echo_open lib rc sc fd r (Some sv) = Inr (Some c, r', Some sv') \<and> lev.awaits r' (cn_stream c) 4 ()"
proof -
  let ?s = "new_Stream fd (rc fd) (sc fd) :: (_, unit) stream"
  have fd: "0 \<le> st_fd ?s" "st_fd ?s < reactor_nfds r" using assms(3,4) by (simp_all add: new_Stream_def)
  obtain s' r' where "asyncRecvBytes (lev_add lib) ?s r 4 (Some ()) = Inr (True, s', r')" "lev.awaits r' s' 4 ()"
    by (rule lev.ask_recv [OF lib_adds_ok [OF assms(1)] assms(2) fd four_in_range, of "()"]) (rule that)
  with assms(3,5) show ?thesis
    by (auto simp: echo_onConnection_def new_ConcurrentConnection_def new_Connection_def getFd_def
        addNewConnection_def Connection_getHandle_def cc_startReadOrWriteInService_def new_Stream_def)
qed

section \<open>An example\<close>

abbreviation echo_net_step where
  "echo_net_step lib rc sc \<equiv> net_step (echo_open lib rc sc) (echo_event lib)"

abbreviation echo_net_reach where
  "echo_net_reach lib rc sc \<equiv> net_reach (echo_open lib rc sc) (echo_event lib)"

text \<open>Two work services, and a client that was accepted; its turn is the second's.\<close>

abbreviation echo_example_reach :: "(string concurrent_connection, string, nat) netsys \<Rightarrow> bool" where
  "echo_example_reach \<equiv> echo_net_reach (\<lambda>_ _. True) (\<lambda>_. ''recv'') (\<lambda>_. ''send'') 0 [(4, reactor5), (4, reactor5)]"

lemma echo_net_example:
  obtains s where "echo_example_reach s" "nt_accepted s = [3]" "nt_queued s 1 = [3]" "nt_queued s 0 = []"
proof -
  let ?ers = "[(4, reactor5), (4, reactor5)] :: (int \<times> string reactor) list"
  have r5: "reactor_inv reactor5" "3 < reactor_nfds reactor5" using reactor5_start by (auto simp: stream_start_def)
  define s0 :: "(string concurrent_connection, string, nat) netsys" where "s0 = net_init 0 ?ers"
  have s0: "echo_example_reach s0" unfolding s0_def by (rule net_reach.start)
  note inv = echo_net.net_reach_inv [where lib = "\<lambda>_ _. True" and rc = "\<lambda>_. ''recv''" and sc = "\<lambda>_. ''send''"]
  have ok: "?ers \<noteq> []" "\<forall>(efd, r) \<in> set ?ers. 0 \<le> efd \<and> reactor_inv r" using r5(1) by simp_all
  have n: "length ?ers = 2" by simp
  have init: "worker_items (nt_acceptor s0) 1 = []" "nt_accepted s0 = []"
    "crb_cap (it_queue (ac_workers (nt_acceptor s0) ! 1)) = 49999"
    "\<forall>w \<in> set (nt_services s0). 3 < reactor_nfds (ns_reactor w)"
    using r5(2) by (simp_all add: s0_def net_init_def new_NetAcceptService_def worker_items_def
        new_InteractiveTask_def setStat_def MSG_QUEUE_SIZE_def)
  have "3 \<notin> nt_held s0 j" if "j < 2" for j
    using less_2_cases [OF that] by (auto simp: s0_def net_init_def new_NetAcceptService_def worker_items_def
        new_InteractiveTask_def setStat_def MSG_QUEUE_SIZE_def nt_held_def nt_queued_def)
  then have free: "\<forall>j < 2. 3 \<notin> nt_held s0 j" by blast
  obtain a where a: "echo_net_step (\<lambda>_ _. True) (\<lambda>_. ''recv'') (\<lambda>_. ''send'') FromClient s0
      (s0\<lparr>nt_acceptor := a, nt_accepted := nt_accepted s0 @ [3]\<rparr>)"
    by (rule echo_net.net_can_accept [OF inv [OF s0 ok, unfolded n], of 3 1]) (use that init free in simp_all)
  let ?s = "s0\<lparr>nt_acceptor := a, nt_accepted := [3]\<rparr>"
  have s: "echo_example_reach ?s" using net_reach.step [OF s0 a] init(2) by simp
  have opened: "ns_opened (nt_services ?s ! j) = []" if "j < 2" for j
    using less_2_cases [OF that] by (auto simp: s0_def net_init_def)
  have "nt_queued ?s j = dealt 0 2 j [3]" if "j < 2" for j
    using net_invD(6) [OF inv [OF s ok, unfolded n] that] opened [OF that] by simp
  from this [of 0] this [of 1] show ?thesis by (intro that [of ?s] s) (simp_all add: dealt_Cons)
qed

section \<open>Properties\<close>

text \<open>
  C8: Work services do not get into each other's way. In every state an echo server with any number of
  work services can reach, however clients come and go and descriptors are used again: no descriptor
  belongs to two services, whether as a connection or as a client still in a queue; none is twice in
  a queue or queued while a connection has it; a service knows exactly its live connections, each
  under the descriptor it keeps open; and the clients it has called \<open>onConnection\<close> for, followed by
  those in its queue, are exactly its share of the clients accepted, dealt in turn, in the order they
  came.
\<close>

theorem services_keep_apart:
  assumes "echo_net_reach lib rc sc k ers s" "ers \<noteq> []" "\<forall>(efd, r) \<in> set ers. 0 \<le> efd \<and> reactor_inv r"
    and "j < length ers" "w = nt_services s ! j"
  shows "(\<forall>i < length ers. i \<noteq> j \<longrightarrow> nt_held s i \<inter> nt_held s j = {}) \<and>
    distinct (nt_queued s j) \<and> set (nt_queued s j) \<inter> dom (ns_objs w) = {} \<and>
    dom (sv_connections (ns_service w)) = dom (ns_objs w) \<and>
    (\<forall>h c. ns_objs w h = Some c \<longrightarrow> cn_handle c = h \<and> st_fd (cn_stream c) = h) \<and>
    ns_opened w @ nt_queued s j = dealt 0 (length ers) j (nt_accepted s)"
proof -
  note inv = net_invD [OF echo_net.net_reach_inv [OF assms(1-3)]]
  have "ns_ok echo_live w" using inv(4) assms(4,5) by blast
  then have "dom (sv_connections (ns_service w)) = dom (ns_objs w) \<and>
    (\<forall>h c. ns_objs w h = Some c \<longrightarrow> cn_handle c = h \<and> st_fd (cn_stream c) = h)"
    by (simp add: ns_ok_def echo_live_def)
  with inv(6-9) assms(4,5) show ?thesis by blast
qed

theorem services_keep_apart_witness:
  "\<exists>s. echo_example_reach s \<and> nt_accepted s = [3] \<and> nt_held s 0 \<inter> nt_held s 1 = {} \<and>
    ns_opened (nt_services s ! 1) @ nt_queued s 1 = [3]"
proof -
  obtain s where s: "echo_example_reach s" "nt_accepted s = [3]" by (rule echo_net_example) (rule that)
  have "reactor_inv reactor5" using reactor5_start by (simp add: stream_start_def)
  with services_keep_apart [OF s(1), of 1] s show ?thesis by (auto simp: dealt_Cons)
qed

text \<open>
  C9: Every client gets its connection. When libevent takes what it is given, the work services can
  go on, in any order, until the queues are empty; each of their steps takes one client out of a
  queue, so they take exactly as many steps as clients wait, and then every client accepted has been
  given to \<open>onConnection\<close> by the service whose turn it was. A client whose descriptor the service can
  watch gets a connection that waits for its first message.
\<close>

theorem every_client_gets_connection:
  assumes "echo_net_reach lib rc sc k ers s" "ers \<noteq> []" "\<forall>(efd, r) \<in> set ers. 0 \<le> efd \<and> reactor_inv r"
    and "lib_adds lib" "(echo_net_step lib rc sc OfService ^^ m) s s'"
  shows "m + (\<Sum>j<length ers. length (nt_queued s' j)) = (\<Sum>j<length ers. length (nt_queued s j)) \<and>
    ((\<exists>s''. echo_net_step lib rc sc OfService s' s'') \<or>
      (\<forall>j < length ers. ns_opened (nt_services s' ! j) = dealt 0 (length ers) j (nt_accepted s)))"
proof -
  have n: "0 < length ers" using assms(2) by simp
  note run = echo_net.net_service_run [OF assms(5) echo_net.net_reach_inv [OF assms(1-3)] n]
  then have inv: "net_inv echo_live (length ers) s'" by blast
  have "ns_opened (nt_services s' ! j) = dealt 0 (length ers) j (nt_accepted s)"
    if "\<nexists>s''. echo_net_step lib rc sc OfService s' s''" "j < length ers" for j
  proof -
    have runs: "\<exists>co r' sv'. echo_open lib rc sc fd r (Some sv) = Inr (co, r', Some sv')"
      if "reactor_inv r" "0 < fd" "fd < reactor_nfds r" "sv_connections sv fd = None" for r fd sv
      using echo_open_runs [OF assms(4) that] by blast
    have "nt_queued s' j = []"
      by (rule ccontr) (rule notE [OF that(1)], rule echo_net.net_can_connect [OF inv that(2) _ runs])
    then show ?thesis using net_invD(6) [OF inv that(2)] run by simp
  qed
  then show ?thesis using run by blast
qed


theorem every_client_gets_connection_witness:
  "\<exists>s m s'. echo_example_reach s \<and> nt_queued s 1 = [3] \<and>
    (echo_net_step (\<lambda>_ _. True) (\<lambda>_. ''recv'') (\<lambda>_. ''send'') OfService ^^ m) s s' \<and>
    ns_opened (nt_services s' ! 1) = [3]"
proof -
  let ?step = "echo_net_step (\<lambda>_ _. True) (\<lambda>_. ''recv'') (\<lambda>_. ''send'') OfService"
  let ?ers = "[(4, reactor5), (4, reactor5)] :: (int \<times> string reactor) list"
  obtain s where s: "echo_example_reach s" "nt_accepted s = [3]" "nt_queued s 1 = [3]" "nt_queued s 0 = []"
    by (rule echo_net_example) (rule that)
  have ers: "?ers \<noteq> []" "\<forall>(efd, r) \<in> set ?ers. 0 \<le> efd \<and> reactor_inv r"
    using reactor5_start by (simp_all add: stream_start_def)
  have one: "(\<Sum>j<length ?ers. length (nt_queued s j)) = 1" using s(3,4) by (simp add: numeral_2_eq_2)
  have d: "dealt 0 (length ?ers) 1 (nt_accepted s) = [3]" using s(2) by (simp add: dealt_Cons)
  note serve = every_client_gets_connection [OF s(1) ers lib_adds_True, unfolded one]
  have "m \<le> 1" if "(?step ^^ m) s s'" for m s' using conjunct1 [OF serve [OF that]] by linarith
  then obtain m s' where run: "(?step ^^ m) s s'" and stop: "\<nexists>s''. ?step s' s''"
    by (rule bounded_run_ends [of ?step s 1])
  have "1 < length ?ers" by simp
  with disjE [OF conjunct2 [OF serve [OF run]]] stop
  have "ns_opened (nt_services s' ! 1) = dealt 0 (length ?ers) 1 (nt_accepted s)" by blast
  then have "ns_opened (nt_services s' ! 1) = [3]" using d by (rule trans)
  with s(1,3) run show ?thesis by (intro exI conjI)
qed

end
