(* ===== verification/TcpServer.thy ===== *)
theory TcpServer
  imports NetAcceptService ThreadPool TaskLifecycle
begin

text \<open>
  \<open>network/TcpServer.cpp\<close>: a server starts the pool, posts one work service per reactor thread to
  it, waits until all of them have registered, and then runs the accept service on its own thread.
  The threads of the pool take the services and start them meanwhile: the start of a server is a
  system of threads that interleave.
\<close>

section \<open>The server\<close>

record tcp_server =
  tcp_netWorkServiceNum :: int
  tcp_listenPort :: "16 word"
  tcp_threadPoolNum :: int

definition new_TcpServer :: "int \<Rightarrow> 16 word \<Rightarrow> int \<Rightarrow> tcp_server" where
  "new_TcpServer n port k =
     \<lparr>tcp_netWorkServiceNum = n, tcp_listenPort = port, tcp_threadPoolNum = k\<rparr>"

text \<open>\<open>ss << "WorkService-" << i\<close>.\<close>

definition service_name :: "nat \<Rightarrow> string" where
  "service_name i = ''WorkService-'' @ decimal i"

definition startThreadPool :: "tcp_server \<Rightarrow> 't pool outcome" where
  "startThreadPool s =
     and_then (assert_that (tcp_threadPoolNum s \<ge> 0)) (\<lambda>_.
       case initInstance None (tcp_threadPoolNum s + tcp_netWorkServiceNum s) 1000 of
         None \<Rightarrow> Inl NullDereference
       | Some p \<Rightarrow> Inr (pool_start p))"

section \<open>The threads of a server that starts\<close>

text \<open>
  The thread that calls \<open>start\<close> is in the loop of \<open>_startNetWorkService\<close>; or in the loop of
  \<open>_startNetAcceptService\<close>, with so many services found; or inside \<open>start\<close> of the accept service,
  which has registered; or in the event loop of the accept service. A thread of the pool takes its next
  task; or has taken the service of a number; or is inside \<open>start\<close> of the service, which has
  registered; or in its event loop. Of the task that a thread runs the reactor is kept.
\<close>

datatype 'cb boot_main = Posting | Waiting nat | AcceptUp "'cb reactor" | Accepting "'cb reactor"

datatype 'cb boot_thread = BFetch | BStart nat | BUp nat "'cb reactor" | BLoop nat "'cb reactor"

text \<open>
  \<open>bt_vec\<close> is \<open>vecSpNetWorkService_\<close>, later moved to the accept service; a service is its number.
  \<open>bt_failed\<close> is the error that has ended the program, if one has.
\<close>

record 'cb boot =
  bt_main :: "'cb boot_main"
  bt_pool :: "nat pool"
  bt_vec :: "nat list"
  bt_threads :: "'cb boot_thread list"
  bt_map :: task_map
  bt_failed :: "cpp_error option"

text \<open>
  What the code finds outside: the results of \<open>prctl\<close> and \<open>eventfd\<close> (a service calls the latter in
  \<open>start\<close> and again in \<open>onStart\<close>) for the task of a name, libevent, the hash function, the callbacks that are
  bound, the virtual \<open>onLoop\<close>, and whether the compiled \<open>_startNetWorkService\<close>, whose source has no
  return statement, returns to its caller.
\<close>

record 'cb boot_env =
  be_prctl :: "string \<Rightarrow> int"
  be_eventFd :: "string \<Rightarrow> int"
  be_acceptFd :: "string \<Rightarrow> int"
  be_lib :: libevent
  be_hasher :: "string \<Rightarrow> size_t"
  be_onMessage :: 'cb
  be_onNewCon :: 'cb
  be_onAccept :: 'cb
  be_onLoop :: "'cb reactor \<Rightarrow> 'cb reactor outcome"
  be_offEnd :: bool

text \<open>A task that was made and not started, in a program with the message center \<open>tm\<close>.\<close>

definition new_task_env :: "string \<Rightarrow> 'cb reactor \<Rightarrow> task_map \<Rightarrow> (unit message, 'cb) tenv" where
  "new_task_env name r tm = \<lparr>te_task = new_InteractiveTask default_Message name True, te_reactor = r,
     te_map = tm, te_thread = [], te_closed = []\<rparr>"

definition boot_prepare :: "'cb boot_env \<Rightarrow> string \<Rightarrow> nat \<Rightarrow> 'cb reactor \<Rightarrow> task_map \<Rightarrow>
    (unit message, 'cb) tenv outcome" where
  "boot_prepare e name me r tm =
     it_prepare (be_prctl e) (be_eventFd e name) (be_lib e) (be_hasher e) me (be_onMessage e)
       (new_task_env name r tm)"

text \<open>From the registration to the event loop, for a work service and for the accept service.\<close>

definition boot_service :: "'cb boot_env \<Rightarrow> string \<Rightarrow> 'cb reactor \<Rightarrow> 'cb reactor outcome" where
  "boot_service e name r =
     and_then (nws_onStart (be_acceptFd e name) (be_lib e) (be_onNewCon e)
         (new_NetWorkService :: (unit, unit, unit) service) r) (\<lambda>(_, r).
     and_then (startEventLoop r) (\<lambda>_. Inr r))"

definition boot_accept :: "'cb boot_env \<Rightarrow> 'cb reactor \<Rightarrow> 'cb reactor outcome" where
  "boot_accept e r =
     and_then (nas_onStart (be_lib e) (be_onAccept e) (be_onLoop e) r) (\<lambda>r.
     and_then (startEventLoop r) (\<lambda>_. Inr r))"

text \<open>The effect of a call: an error ends the program.\<close>

definition boot_do :: "'a outcome \<Rightarrow> ('a \<Rightarrow> 'cb boot) \<Rightarrow> 'cb boot \<Rightarrow> 'cb boot" where
  "boot_do m f t = (case m of Inl err \<Rightarrow> t\<lparr>bt_failed := Some err\<rparr> | Inr x \<Rightarrow> f x)"

lemma boot_do_Inr [simp]: "boot_do (Inr x) f t = f x"
  by (simp add: boot_do_def)

text \<open>
  The steps: the loop of \<open>_startNetWorkService\<close> posts a service, unless the pool's queue is full; the
  function comes to its end; the loop of \<open>_startNetAcceptService\<close> finds the next service, once it
  has registered; the accept service starts, up to its registration and up to its loop; a
  thread of the pool takes a service, and starts it likewise.
\<close>

inductive boot_step :: "'cb boot_env \<Rightarrow> tcp_server \<Rightarrow> 'cb boot \<Rightarrow> 'cb boot \<Rightarrow> bool" for e s where
  post: "bt_failed t = None \<Longrightarrow> bt_main t = Posting \<Longrightarrow>
    int (length (bt_vec t)) < tcp_netWorkServiceNum s \<Longrightarrow>
    syncPostTask (bt_pool t) (Some (length (bt_vec t))) \<noteq> Inr None \<Longrightarrow>
    boot_step e s t (boot_do (syncPostTask (bt_pool t) (Some (length (bt_vec t))))
      (\<lambda>po. t\<lparr>bt_pool := the po, bt_vec := bt_vec t @ [length (bt_vec t)]\<rparr>) t)"
| posted: "bt_failed t = None \<Longrightarrow> bt_main t = Posting \<Longrightarrow>
    \<not> int (length (bt_vec t)) < tcp_netWorkServiceNum s \<Longrightarrow>
    boot_step e s t (boot_do (if be_offEnd e then Inr () else Inl MissingReturn)
      (\<lambda>_. t\<lparr>bt_main := Waiting 0\<rparr>) t)"
| wait: "bt_failed t = None \<Longrightarrow> bt_main t = Waiting w \<Longrightarrow> w < length (bt_vec t) \<Longrightarrow>
    waitGetTaskRef (be_hasher e) (bt_map t) (service_name (bt_vec t ! w)) \<noteq> None \<Longrightarrow>
    boot_step e s t (t\<lparr>bt_main := Waiting (Suc w)\<rparr>)"
| accept: "bt_failed t = None \<Longrightarrow> bt_main t = Waiting w \<Longrightarrow> \<not> w < length (bt_vec t) \<Longrightarrow>
    boot_step e s t (boot_do (boot_prepare e ''AcceptService'' (length (bt_vec t))
        (snd (bindPort new_LibeventReactor (tcp_listenPort s))) (bt_map t))
      (\<lambda>env. t\<lparr>bt_main := AcceptUp (te_reactor env), bt_map := te_map env\<rparr>) t)"
| listen: "bt_failed t = None \<Longrightarrow> bt_main t = AcceptUp r \<Longrightarrow>
    boot_step e s t (boot_do (boot_accept e r) (\<lambda>r. t\<lparr>bt_main := Accepting r\<rparr>) t)"
| fetch: "bt_failed t = None \<Longrightarrow> i < length (bt_threads t) \<Longrightarrow> bt_threads t ! i = BFetch \<Longrightarrow>
    threadEntry (bt_pool t) \<noteq> Inr None \<Longrightarrow>
    boot_step e s t (boot_do (threadEntry (bt_pool t))
      (\<lambda>go. t\<lparr>bt_pool := snd (the go), bt_threads := (bt_threads t)[i := BStart (fst (the go))]\<rparr>) t)"
| prepare: "bt_failed t = None \<Longrightarrow> i < length (bt_threads t) \<Longrightarrow> bt_threads t ! i = BStart k \<Longrightarrow>
    boot_step e s t (boot_do (boot_prepare e (service_name k) k new_LibeventReactor (bt_map t))
      (\<lambda>env. t\<lparr>bt_threads := (bt_threads t)[i := BUp k (te_reactor env)], bt_map := te_map env\<rparr>) t)"
| serve: "bt_failed t = None \<Longrightarrow> i < length (bt_threads t) \<Longrightarrow> bt_threads t ! i = BUp k r \<Longrightarrow>
    boot_step e s t (boot_do (boot_service e (service_name k) r)
      (\<lambda>r. t\<lparr>bt_threads := (bt_threads t)[i := BLoop k r]\<rparr>) t)"

text \<open>\<open>start\<close>: the pool is started, then the system runs, with an empty message center.\<close>

definition tcp_start :: "tcp_server \<Rightarrow> 'cb boot outcome" where
  "tcp_start s = and_then (startThreadPool s) (\<lambda>p.
     Inr \<lparr>bt_main = Posting, bt_pool = p, bt_vec = [], bt_threads = replicate (tp_threads p) BFetch,
       bt_map = new_MessageCenter, bt_failed = None\<rparr>)"

section \<open>Names\<close>

lemma service_name_inject [simp]: "service_name i = service_name j \<longleftrightarrow> i = j"
  by (simp add: service_name_def decimal_inject)

lemma service_name_short: "length (service_name i) \<le> 15 \<longleftrightarrow> i < 1000"
proof -
  have "length (service_name i) \<le> 15 \<longleftrightarrow> length (decimal i) \<le> Suc 2"
    by (simp add: service_name_def)
  then show ?thesis using decimal_length [of i 2] by simp
qed

lemma service_name_accept [simp]: "service_name i \<noteq> ''AcceptService''" "''AcceptService'' \<noteq> service_name i"
  by (simp_all add: service_name_def)

text \<open>
  Two services never have the same name, so none is refused by the message center, and a name is
  short enough for a thread exactly for the first thousand services; the start of the thousand and
  first ends the program in an assertion.
\<close>

lemma service_names:
  "(service_name i = service_name j \<longleftrightarrow> i = j) \<and> (setThreadName 0 (service_name i) \<longleftrightarrow> i < 1000)"
  using service_name_short [of i] by (auto simp: setThreadName_def not_less)

section \<open>The invariant\<close>

text \<open>The services a thread has taken and not registered, and those it has registered.\<close>

fun th_new :: "'cb boot_thread \<Rightarrow> nat multiset" where
  "th_new (BStart k) = {#k#}"
| "th_new _ = {#}"

fun th_reg :: "'cb boot_thread \<Rightarrow> nat multiset" where
  "th_reg (BUp k r) = {#k#}"
| "th_reg (BLoop k r) = {#k#}"
| "th_reg _ = {#}"

definition boot_new :: "'cb boot \<Rightarrow> nat multiset" where
  "boot_new t = (\<Sum>x \<in># mset (bt_threads t). th_new x)"

definition boot_reg :: "'cb boot \<Rightarrow> nat multiset" where
  "boot_reg t = (\<Sum>x \<in># mset (bt_threads t). th_reg x)"

text \<open>What a reactor has to be for its task to go on.\<close>

fun th_ok :: "'cb boot_env \<Rightarrow> 'cb boot_thread \<Rightarrow> bool" where
  "th_ok e (BUp k r) \<longleftrightarrow> reactor_inv r \<and> reactor_nfds r = MAX_CLIENT_NUM \<and> pBase r \<and>
     reactor_handler r (be_eventFd e (service_name k), Rd) = Some (be_onMessage e)"
| "th_ok e (BLoop k r) \<longleftrightarrow> pBase r \<and>
     reactor_handler r (be_eventFd e (service_name k), Rd) = Some (be_onMessage e) \<and>
     reactor_handler r (be_acceptFd e (service_name k), Rd) = Some (be_onNewCon e)"
| "th_ok e _ \<longleftrightarrow> True"

fun accept_named :: "'cb boot_main \<Rightarrow> bool" where
  "accept_named (AcceptUp r) = True"
| "accept_named (Accepting r) = True"
| "accept_named _ = False"

fun main_ok :: "'cb boot_env \<Rightarrow> 16 word \<Rightarrow> nat \<Rightarrow> nat \<Rightarrow> nat multiset \<Rightarrow> 'cb boot_main \<Rightarrow> bool" where
  "main_ok e port n len regs Posting \<longleftrightarrow> True"
| "main_ok e port n len regs (Waiting w) \<longleftrightarrow> len = n \<and> w \<le> n \<and> (\<forall>i < w. i \<in># regs)"
| "main_ok e port n len regs (AcceptUp r) \<longleftrightarrow> len = n \<and> (\<forall>i < n. i \<in># regs) \<and> pBase r \<and>
     pAcceptCallback r = Null \<and> sin_port r = Some port"
| "main_ok e port n len regs (Accepting r) \<longleftrightarrow> len = n \<and> (\<forall>i < n. i \<in># regs) \<and> pListener r \<and>
     sin_port r = Some port \<and> pAcceptCallback r = Owns (Some (be_onAccept e))"

definition boot_map_ok :: "(string \<Rightarrow> size_t) \<Rightarrow> task_map \<Rightarrow> nat multiset \<Rightarrow> bool \<Rightarrow> bool" where
  "boot_map_ok hasher tm regs acc \<longleftrightarrow> chm_inv hasher tm \<and>
     (\<forall>i. chm_find hasher tm (service_name i) = (if i \<in># regs then Some i else None)) \<and>
     (acc \<or> chm_find hasher tm ''AcceptService'' = None)"

definition boot_inv :: "'cb boot_env \<Rightarrow> tcp_server \<Rightarrow> 'cb boot \<Rightarrow> bool" where
  "boot_inv e s t \<longleftrightarrow> bt_failed t = None \<and>
     crb_inv (tp_queue (bt_pool t)) \<and> crb_cap (tp_queue (bt_pool t)) = 999 \<and>
     length (bt_threads t) = nat (tcp_threadPoolNum s + tcp_netWorkServiceNum s) \<and>
     bt_vec t = [0..<length (bt_vec t)] \<and> length (bt_vec t) \<le> nat (tcp_netWorkServiceNum s) \<and>
     (\<exists>f \<le> length (bt_vec t). crb_items (tp_queue (bt_pool t)) = map Some [f..<length (bt_vec t)] \<and>
        boot_new t + boot_reg t = mset [0..<f]) \<and>
     boot_map_ok (be_hasher e) (bt_map t) (boot_reg t) (accept_named (bt_main t)) \<and>
     (\<forall>x \<in> set (bt_threads t). th_ok e x) \<and>
     main_ok e (tcp_listenPort s) (nat (tcp_netWorkServiceNum s)) (length (bt_vec t)) (boot_reg t) (bt_main t)"

section \<open>Each call succeeds\<close>

text \<open>
  What is asked of the environment: the system calls and libevent succeed, the descriptors fit into
  the reactors and are different, \<open>onLoop\<close> returns and leaves the listener alone, and the compiler
  lets \<open>_startNetWorkService\<close> return.
\<close>

definition boot_env_ok :: "'cb boot_env \<Rightarrow> bool" where
  "boot_env_ok e \<longleftrightarrow> (\<forall>name. be_prctl e name = 0 \<and> 0 < be_eventFd e name \<and> be_eventFd e name < MAX_CLIENT_NUM \<and>
       0 < be_acceptFd e name \<and> be_acceptFd e name < MAX_CLIENT_NUM \<and> be_acceptFd e name \<noteq> be_eventFd e name) \<and>
     lib_adds (be_lib e) \<and> (\<forall>l. be_lib e l EventBaseNew) \<and> (\<forall>l port. be_lib e l (ListenerNew port)) \<and>
     (\<forall>r. \<exists>r'. be_onLoop e r = Inr r' \<and> pBase r' = pBase r \<and> pListener r' = pListener r \<and>
        sin_port r' = sin_port r \<and> pAcceptCallback r' = pAcceptCallback r) \<and> be_offEnd e"

lemma boot_prepare_ok:
  assumes "boot_env_ok e" "length name \<le> 15" "chm_inv (be_hasher e) tm"
    and "chm_find (be_hasher e) tm name = None" "\<forall>k. \<not> pending (lib_calls r) k" "pAcceptCallback r = Null"
  obtains env where "boot_prepare e name me r tm = Inr env"
    "chm_inv (be_hasher e) (te_map env)"
    "chm_find (be_hasher e) (te_map env) = (chm_find (be_hasher e) tm)(name \<mapsto> me)"
    "reactor_inv (te_reactor env)" "reactor_nfds (te_reactor env) = MAX_CLIENT_NUM" "pBase (te_reactor env)"
    "reactor_handler (te_reactor env) (be_eventFd e name, Rd) = Some (be_onMessage e)"
    "sin_port (te_reactor env) = sin_port r" "pAcceptCallback (te_reactor env) = Null"
proof -
  let ?env = "new_task_env name r tm" and ?efd = "be_eventFd e name"
  have f: "it_name (te_task ?env) = name" "it_hasReactor (te_task ?env)" "te_map ?env = tm" "te_reactor ?env = r"
    by (simp_all add: new_task_env_def new_InteractiveTask_def)
  have can: "can_start (be_prctl e) ?efd (be_lib e) (be_hasher e) ?env"
    using assms(1,2,4) by (simp add: can_start_def f boot_env_ok_def)
  have "chm_inv (be_hasher e) (te_map ?env)" "\<forall>k. \<not> pending (lib_calls (te_reactor ?env)) k"
    "?efd < MAX_CLIENT_NUM" "pAcceptCallback (te_reactor ?env) \<noteq> Dangling"
    using assms by (simp_all add: f boot_env_ok_def)
  from task_prepare_spec [OF this, of "be_prctl e" "be_lib e" me "be_onMessage e", unfolded if_P [OF can] f(1,3,4)] assms(1) f(2)
  obtain env where run: "boot_prepare e name me r tm = Inr env" and env:
    "chm_find (be_hasher e) (te_map env) = (chm_find (be_hasher e) tm)(name \<mapsto> me)"
    "te_task env = (te_task ?env)\<lparr>it_eventFd := ?efd, it_stat := RUNNING\<rparr>"
    "reactor_handler (te_reactor env) (?efd, Rd) = Some (be_onMessage e)"
    "reactor_nfds (te_reactor env) = MAX_CLIENT_NUM" "sin_port (te_reactor env) = sin_port r"
    "pAcceptCallback (te_reactor env) = pAcceptCallback r" "task_kept (be_hasher e) env env"
    by (auto simp: boot_prepare_def boot_env_ok_def)
  have "it_hasReactor (te_task env)" using env(2) f(2) by simp
  then have "chm_inv (be_hasher e) (te_map env)" "reactor_inv (te_reactor env)" "pBase (te_reactor env)"
    using env(7) by (simp_all add: task_kept_def)
  with run env(1,3-6) assms(6) show ?thesis by (intro that [of env]) simp_all
qed

lemma boot_service_ok:
  assumes "boot_env_ok e" "th_ok e (BUp k r)"
  obtains r' where "boot_service e (service_name k) r = Inr r'" "th_ok e (BLoop k r')"
proof -
  let ?fd = "be_acceptFd e (service_name k)"
  have fd: "0 < ?fd" "?fd < reactor_nfds r" "?fd \<noteq> be_eventFd e (service_name k)" "lib_adds (be_lib e)"
    using assms by (simp_all add: boot_env_ok_def)
  have r: "reactor_inv r" "pBase r"
    "reactor_handler r (be_eventFd e (service_name k), Rd) = Some (be_onMessage e)"
    using assms(2) by simp_all
  obtain r' where add: "addEventHandler (be_lib e) r ?fd EVENT_READ (Some (be_onNewCon e)) = Inr (True, r')"
    using lib_adds_add [OF fd(4) r(1), of ?fd Rd "be_onNewCon e"] fd(1,2) by auto
  have "reactor_handler r' = (reactor_handler r)((?fd, Rd) \<mapsto> be_onNewCon e)"
    using lev.add_law [OF r(1), of ?fd "be_lib e" Rd "be_onNewCon e"] add fd(1,2) by auto
  moreover have "pBase r'" using addEventHandler_keeps [OF add] r(2) by simp
  ultimately show ?thesis using add r fd(1,3)
    by (intro that [of r']) (simp_all add: boot_service_def nws_onStart_def createEventFd_def startEventLoop_def
        assert_that_def Let_def)
qed

lemma boot_accept_ok:
  assumes "boot_env_ok e" "pBase r" "pAcceptCallback r = Null" "sin_port r = Some port"
  obtains r' where "boot_accept e r = Inr r'" "pListener r'" "sin_port r' = Some port"
    "pAcceptCallback r' = Owns (Some (be_onAccept e))"
proof -
  let ?r = "r\<lparr>pAcceptCallback := Owns (Some (be_onAccept e)), pListener := True,
    lib_calls := (ListenerNew (Some port), True) # lib_calls r\<rparr>"
  have "addEventHandler (be_lib e) r 0 EVENT_ACCEPT (Some (be_onAccept e)) = Inr (True, ?r)"
    using assms by (simp add: addEventHandler_def add_accept_def add_dir_def lib_do_eq boot_env_ok_def)
  moreover obtain r' where "be_onLoop e ?r = Inr r'" "pBase r'" "pListener r'" "sin_port r' = Some port"
    "pAcceptCallback r' = Owns (Some (be_onAccept e))"
  proof -
    have "\<exists>r'. be_onLoop e ?r = Inr r' \<and> pBase r' = pBase ?r \<and> pListener r' = pListener ?r \<and>
        sin_port r' = sin_port ?r \<and> pAcceptCallback r' = pAcceptCallback ?r"
      using assms(1) unfolding boot_env_ok_def by blast
    with assms(2,4) that show ?thesis by auto
  qed
  ultimately show ?thesis
    by (intro that [of r']) (simp_all add: boot_accept_def nas_onStart_def startEventLoop_def assert_that_def)
qed

section \<open>Every step goes on\<close>

text \<open>The number of steps left.\<close>

fun main_rank :: "nat \<Rightarrow> nat \<Rightarrow> 'cb boot_main \<Rightarrow> nat" where
  "main_rank n len Posting = (n - len) + n + 3"
| "main_rank n len (Waiting w) = (n - w) + 2"
| "main_rank n len (AcceptUp r) = 1"
| "main_rank n len (Accepting r) = 0"

fun th_rank :: "'cb boot_thread \<Rightarrow> nat" where
  "th_rank (BStart k) = 2"
| "th_rank (BUp k r) = 1"
| "th_rank _ = 0"

definition boot_rank :: "tcp_server \<Rightarrow> 'cb boot \<Rightarrow> nat" where
  "boot_rank s t = main_rank (nat (tcp_netWorkServiceNum s)) (length (bt_vec t)) (bt_main t) +
     3 * (nat (tcp_netWorkServiceNum s) - size (boot_new t + boot_reg t)) +
     (\<Sum>x \<in># mset (bt_threads t). th_rank x)"

definition boot_fine :: "'cb boot_env \<Rightarrow> tcp_server \<Rightarrow> 'cb boot \<Rightarrow> 'cb boot \<Rightarrow> bool" where
  "boot_fine e s t t' \<longleftrightarrow> boot_inv e s t' \<and> Suc (boot_rank s t') = boot_rank s t"

text \<open>The thread that calls \<open>start\<close>.\<close>

lemma boot_new_keep [simp]:
  "boot_new (t\<lparr>bt_main := m\<rparr>) = boot_new t" "boot_reg (t\<lparr>bt_main := m\<rparr>) = boot_reg t"
  "boot_new (t\<lparr>bt_pool := p\<rparr>) = boot_new t" "boot_reg (t\<lparr>bt_pool := p\<rparr>) = boot_reg t"
  "boot_new (t\<lparr>bt_vec := v\<rparr>) = boot_new t" "boot_reg (t\<lparr>bt_vec := v\<rparr>) = boot_reg t"
  "boot_new (t\<lparr>bt_map := tm\<rparr>) = boot_new t" "boot_reg (t\<lparr>bt_map := tm\<rparr>) = boot_reg t"
  by (simp_all add: boot_new_def boot_reg_def)

lemma fine_post:
  assumes "boot_inv e s t" "bt_main t = Posting" "int (length (bt_vec t)) < tcp_netWorkServiceNum s"
    and "syncPostTask (bt_pool t) (Some (length (bt_vec t))) = Inr (Some p)"
  shows "boot_fine e s t (t\<lparr>bt_pool := p, bt_vec := bt_vec t @ [length (bt_vec t)]\<rparr>)"
proof -
  let ?len = "length (bt_vec t)"
  have q: "crb_inv (tp_queue p)" "crb_items (tp_queue p) = crb_items (tp_queue (bt_pool t)) @ [Some ?len]"
    "crb_cap (tp_queue p) = crb_cap (tp_queue (bt_pool t))"
    using post_items(1) [OF _ assms(4)] assms(1) by (simp_all add: boot_inv_def)
  obtain f where f: "f \<le> ?len" "crb_items (tp_queue (bt_pool t)) = map Some [f..<?len]"
    "boot_new t + boot_reg t = mset [0..<f]" using assms(1) by (auto simp: boot_inv_def)
  have "\<exists>f \<le> Suc ?len. crb_items (tp_queue p) = map Some [f..<Suc ?len] \<and> boot_new t + boot_reg t = mset [0..<f]"
    by (rule exI [of _ f]) (use f q(2) in simp)
  moreover have "bt_vec t @ [?len] = [0..<Suc ?len]" "Suc ?len \<le> nat (tcp_netWorkServiceNum s)"
    using assms(1,3) by (simp_all add: boot_inv_def) 
  ultimately show ?thesis using assms(1,2) q(1,3)
    by (simp add: boot_fine_def boot_inv_def boot_rank_def del: upt_Suc)
qed

lemma fine_posted:
  assumes "boot_inv e s t" "bt_main t = Posting" "\<not> int (length (bt_vec t)) < tcp_netWorkServiceNum s"
  shows "boot_fine e s t (t\<lparr>bt_main := Waiting 0\<rparr>)"
  using assms by (auto simp: boot_fine_def boot_inv_def boot_rank_def)

lemma fine_wait:
  assumes "boot_inv e s t" "bt_main t = Waiting w" "w < length (bt_vec t)"
    and "waitGetTaskRef (be_hasher e) (bt_map t) (service_name (bt_vec t ! w)) \<noteq> None"
  shows "boot_fine e s t (t\<lparr>bt_main := Waiting (Suc w)\<rparr>)"
proof -
  have "bt_vec t = [0..<length (bt_vec t)]" using assms(1) by (simp add: boot_inv_def)
  then have "bt_vec t ! w = w" using assms(3) by (metis add_0 nth_upt)
  moreover have "chm_find (be_hasher e) (bt_map t) (service_name w) = (if w \<in># boot_reg t then Some w else None)"
    using assms(1) by (simp add: boot_inv_def boot_map_ok_def)
  ultimately have "w \<in># boot_reg t"
    using assms(4) by (simp add: waitGetTaskRef_def chm_waitFind_find split: if_splits)
  with assms(1-3) show ?thesis
    by (auto simp: boot_fine_def boot_inv_def boot_rank_def less_Suc_eq) arith
qed

lemma fine_accept:
  assumes "boot_inv e s t" "bt_main t = Waiting w" "\<not> w < length (bt_vec t)" "boot_env_ok e"
  obtains env where "boot_prepare e ''AcceptService'' (length (bt_vec t))
        (snd (bindPort new_LibeventReactor (tcp_listenPort s))) (bt_map t) = Inr env"
    "boot_fine e s t (t\<lparr>bt_main := AcceptUp (te_reactor env), bt_map := te_map env\<rparr>)"
proof -
  let ?r = "snd (bindPort new_LibeventReactor (tcp_listenPort s)) :: 'a reactor"
  have m: "boot_map_ok (be_hasher e) (bt_map t) (boot_reg t) False"
    using assms(1,2) by (simp add: boot_inv_def)
  have r: "\<forall>k. \<not> pending (lib_calls ?r) k" "pAcceptCallback ?r = Null" "sin_port ?r = Some (tcp_listenPort s)"
    by (simp_all add: bindPort_def new_LibeventReactor_def)
  have name: "length ''AcceptService'' \<le> 15" "chm_find (be_hasher e) (bt_map t) ''AcceptService'' = None"
    "chm_inv (be_hasher e) (bt_map t)" using m by (simp_all add: boot_map_ok_def)
  obtain env where env: "boot_prepare e ''AcceptService'' (length (bt_vec t)) ?r (bt_map t) = Inr env"
    "chm_inv (be_hasher e) (te_map env)"
    "chm_find (be_hasher e) (te_map env) = (chm_find (be_hasher e) (bt_map t))(''AcceptService'' \<mapsto> length (bt_vec t))"
    "pBase (te_reactor env)" "sin_port (te_reactor env) = sin_port ?r" "pAcceptCallback (te_reactor env) = Null"
    by (rule boot_prepare_ok [OF assms(4) name(1,3,2) r(1,2), of "length (bt_vec t)"]) (rule that)
  have "boot_map_ok (be_hasher e) (te_map env) (boot_reg t) True"
    using m env(2,3) by (simp add: boot_map_ok_def)
  with assms(1-3) env(4-6) r(3) show ?thesis
    by (intro that [OF env(1)]) (auto simp: boot_fine_def boot_inv_def boot_rank_def)
qed

lemma fine_listen:
  assumes "boot_inv e s t" "bt_main t = AcceptUp r" "boot_env_ok e"
  obtains r' where "boot_accept e r = Inr r'" "boot_fine e s t (t\<lparr>bt_main := Accepting r'\<rparr>)"
proof -
  have r: "pBase r" "pAcceptCallback r = Null" "sin_port r = Some (tcp_listenPort s)"
    using assms(1,2) by (simp_all add: boot_inv_def)
  obtain r' where r': "boot_accept e r = Inr r'" "pListener r'" "sin_port r' = Some (tcp_listenPort s)"
    "pAcceptCallback r' = Owns (Some (be_onAccept e))"
    by (rule boot_accept_ok [OF assms(3) r]) (rule that)
  with assms(1,2) show ?thesis
    by (intro that [OF r'(1)]) (auto simp: boot_fine_def boot_inv_def boot_rank_def)
qed

text \<open>The threads of the pool. Each service is taken once.\<close>

lemma boot_threads_update:
  assumes "i < length (bt_threads t)"
  shows "boot_new (t\<lparr>bt_threads := (bt_threads t)[i := x]\<rparr>) + th_new (bt_threads t ! i) = boot_new t + th_new x"
    "boot_reg (t\<lparr>bt_threads := (bt_threads t)[i := x]\<rparr>) + th_reg (bt_threads t ! i) = boot_reg t + th_reg x"
    "(\<Sum>y \<in># mset ((bt_threads t)[i := x]). th_rank y) + th_rank (bt_threads t ! i) =
       (\<Sum>y \<in># mset (bt_threads t). th_rank y) + th_rank x"
  using sum_workers [OF assms, of th_new x] sum_workers [OF assms, of th_reg x]
    sum_workers [OF assms, of th_rank x] by (simp_all add: boot_new_def boot_reg_def)

lemma boot_thread_ok:
  "boot_inv e s t \<Longrightarrow> i < length (bt_threads t) \<Longrightarrow> th_ok e (bt_threads t ! i)"
  using nth_mem [of i "bt_threads t"] by (auto simp: boot_inv_def)

lemma boot_threads_ok:
  "boot_inv e s t \<Longrightarrow> th_ok e x \<Longrightarrow> \<forall>y \<in> set ((bt_threads t)[i := x]). th_ok e y"
  using set_update_subset_insert [of "bt_threads t" i x] by (auto simp: boot_inv_def)

lemma main_ok_mono: "main_ok e port n len regs m \<Longrightarrow> regs \<subseteq># regs' \<Longrightarrow> main_ok e port n len regs' m"
  by (cases m) (auto dest: mset_subset_eqD)

lemma fine_fetch:
  assumes "boot_inv e s t" "i < length (bt_threads t)" "bt_threads t ! i = BFetch"
    and "threadEntry (bt_pool t) = Inr (Some (k, p))"
  shows "boot_fine e s t (t\<lparr>bt_pool := p, bt_threads := (bt_threads t)[i := BStart k]\<rparr>)"
proof -
  let ?t = "t\<lparr>bt_pool := p, bt_threads := (bt_threads t)[i := BStart k]\<rparr>" and ?len = "length (bt_vec t)"
  obtain f where f: "f \<le> ?len" "crb_items (tp_queue (bt_pool t)) = map Some [f..<?len]"
    "boot_new t + boot_reg t = mset [0..<f]" using assms(1) by (auto simp: boot_inv_def)
  have "crb_inv (tp_queue (bt_pool t))" "None \<notin> set (crb_items (tp_queue (bt_pool t)))"
    using assms(1) by (auto simp: boot_inv_def f(2))
  note q = threadEntry_Some [OF assms(4) this]
  then have less: "f < ?len" using f(1,2) by (cases "f = ?len") simp_all
  then have items: "k = f" "crb_items (tp_queue p) = map Some [Suc f..<?len]"
    using q(1) f(2) by (auto simp: upt_conv_Cons)
  have upd: "boot_new ?t = boot_new t + {#k#}" "boot_reg ?t = boot_reg t"
    "(\<Sum>y \<in># mset (bt_threads ?t). th_rank y) = (\<Sum>y \<in># mset (bt_threads t). th_rank y) + 2"
    using boot_threads_update [OF assms(2), of "BStart k"] assms(3) by (simp_all add: boot_new_def boot_reg_def)
  have taken: "boot_new ?t + boot_reg ?t = mset [0..<Suc f]" using upd(1,2) f(3) items(1) by simp
  then have "\<exists>f \<le> ?len. crb_items (tp_queue p) = map Some [f..<?len] \<and> boot_new ?t + boot_reg ?t = mset [0..<f]"
    using less items(2) by (intro exI [of _ "Suc f"]) simp
  then have "boot_inv e s ?t"
    using assms(1) q(2,3) upd(2) boot_threads_ok [OF assms(1), of "BStart k" i] by (simp add: boot_inv_def)
  moreover have "size (boot_new ?t + boot_reg ?t) = Suc f" "size (boot_new t + boot_reg t) = f"
    unfolding taken f(3) by simp_all
  moreover have "?len \<le> nat (tcp_netWorkServiceNum s)" using assms(1) by (simp add: boot_inv_def)
  ultimately show ?thesis using less upd(3) by (simp add: boot_fine_def boot_rank_def)
qed

lemma fine_prepare:
  assumes "boot_inv e s t" "i < length (bt_threads t)" "bt_threads t ! i = BStart k"
    and "boot_env_ok e" "tcp_netWorkServiceNum s \<le> 1000"
  obtains env where "boot_prepare e (service_name k) k new_LibeventReactor (bt_map t) = Inr env"
    "boot_fine e s t (t\<lparr>bt_threads := (bt_threads t)[i := BUp k (te_reactor env)], bt_map := te_map env\<rparr>)"
proof -
  let ?tm = "bt_map t"
  obtain f where f: "f \<le> length (bt_vec t)" "boot_new t + boot_reg t = mset [0..<f]"
    using assms(1) by (auto simp: boot_inv_def)
  have new: "boot_new (t\<lparr>bt_threads := (bt_threads t)[i := x]\<rparr>) + {#k#} = boot_new t + th_new x" for x
    using boot_threads_update(1) [OF assms(2), of x] assms(3) by simp
  then have "k \<in># boot_new t" using new [of BFetch] by (metis add.right_neutral multi_member_last th_new.simps(2) union_iff)
  moreover from this have k: "k < f" using arg_cong [OF f(2), of set_mset] by auto
  moreover have "count (boot_new t + boot_reg t) k \<le> 1" unfolding f(2) by (simp add: count_mset_set')
  ultimately have unreg: "k \<notin># boot_reg t" by (auto simp: count_greater_zero_iff [symmetric] simp del: count_greater_zero_iff)
  have m: "boot_map_ok (be_hasher e) ?tm (boot_reg t) (accept_named (bt_main t))"
    using assms(1) by (simp add: boot_inv_def)
  have "length (bt_vec t) \<le> nat (tcp_netWorkServiceNum s)" using assms(1) by (simp add: boot_inv_def)
  then have "k < 1000" using k f(1) assms(5) by linarith
  then have name: "length (service_name k) \<le> 15" by (simp add: service_name_short)
  have free: "chm_inv (be_hasher e) ?tm" "chm_find (be_hasher e) ?tm (service_name k) = None"
    using m unreg by (simp_all add: boot_map_ok_def)
  have r: "\<forall>k. \<not> pending (lib_calls (new_LibeventReactor :: 'a reactor)) k"
    "pAcceptCallback (new_LibeventReactor :: 'a reactor) = Null" by (simp_all add: new_LibeventReactor_def)
  obtain env where env: "boot_prepare e (service_name k) k new_LibeventReactor ?tm = Inr env"
    "chm_inv (be_hasher e) (te_map env)"
    "chm_find (be_hasher e) (te_map env) = (chm_find (be_hasher e) ?tm)(service_name k \<mapsto> k)"
    "reactor_inv (te_reactor env)" "reactor_nfds (te_reactor env) = MAX_CLIENT_NUM" "pBase (te_reactor env)"
    "reactor_handler (te_reactor env) (be_eventFd e (service_name k), Rd) = Some (be_onMessage e)"
    by (rule boot_prepare_ok [OF assms(4) name free r, of k]) (rule that)
  let ?x = "BUp k (te_reactor env)"
  let ?t = "t\<lparr>bt_threads := (bt_threads t)[i := ?x], bt_map := te_map env\<rparr>"
  have upd: "boot_new t = boot_new ?t + {#k#}" "boot_reg ?t = boot_reg t + {#k#}"
    "(\<Sum>y \<in># mset (bt_threads t). th_rank y) = (\<Sum>y \<in># mset (bt_threads ?t). th_rank y) + 1"
    using boot_threads_update [OF assms(2), of ?x] assms(3) by simp_all
  then have all: "boot_new ?t + boot_reg ?t = boot_new t + boot_reg t" by simp
  have "boot_map_ok (be_hasher e) (te_map env) (boot_reg ?t) (accept_named (bt_main t))"
    using m env(2,3) upd(2) by (auto simp: boot_map_ok_def)
  moreover have "main_ok e (tcp_listenPort s) (nat (tcp_netWorkServiceNum s)) (length (bt_vec t)) (boot_reg ?t) (bt_main t)"
    using assms(1) upd(2) by (auto simp: boot_inv_def intro: main_ok_mono)
  moreover have "\<forall>y \<in> set ((bt_threads t)[i := ?x]). th_ok e y"
    by (rule boot_threads_ok [OF assms(1)]) (use env(4-7) in simp)
  ultimately have "boot_inv e s ?t" using assms(1) all by (simp add: boot_inv_def)
  then show ?thesis using all upd(3) by (intro that [OF env(1)]) (simp add: boot_fine_def boot_rank_def)
qed

lemma fine_serve:
  assumes "boot_inv e s t" "i < length (bt_threads t)" "bt_threads t ! i = BUp k r" "boot_env_ok e"
  obtains r' where "boot_service e (service_name k) r = Inr r'"
    "boot_fine e s t (t\<lparr>bt_threads := (bt_threads t)[i := BLoop k r']\<rparr>)"
proof -
  have "th_ok e (BUp k r)" using boot_thread_ok [OF assms(1,2)] assms(3) by simp
  then obtain r' where r': "boot_service e (service_name k) r = Inr r'" "th_ok e (BLoop k r')"
    using boot_service_ok [OF assms(4)] by blast
  let ?t = "t\<lparr>bt_threads := (bt_threads t)[i := BLoop k r']\<rparr>"
  have upd: "boot_new ?t = boot_new t" "boot_reg ?t = boot_reg t"
    "(\<Sum>y \<in># mset (bt_threads t). th_rank y) = (\<Sum>y \<in># mset (bt_threads ?t). th_rank y) + 1"
    using boot_threads_update [OF assms(2), of "BLoop k r'"] assms(3) by simp_all
  have "boot_inv e s ?t" using assms(1) upd(1,2) boot_threads_ok [OF assms(1) r'(2), of i]
    by (simp add: boot_inv_def)
  then show ?thesis using upd by (intro that [OF r'(1)]) (simp add: boot_fine_def boot_rank_def)
qed

lemma boot_step_fine:
  assumes "boot_step e s t t'" "boot_inv e s t" "boot_env_ok e" "tcp_netWorkServiceNum s \<le> 1000"
  shows "boot_fine e s t t'"
  using assms(1)
proof cases
  case post
  have "crb_inv (tp_queue (bt_pool t))" using assms(2) by (simp add: boot_inv_def)
  with post(5) obtain p where p: "syncPostTask (bt_pool t) (Some (length (bt_vec t))) = Inr (Some p)"
    by (auto simp: syncPostTask_def crb_put_cases split: if_splits)
  from fine_post [OF assms(2) post(3,4) p] post(1) p show ?thesis by simp
next
  case posted
  with fine_posted [OF assms(2) posted(3,4)] assms(3) show ?thesis by (simp add: boot_env_ok_def)
next
  case (wait w)
  with fine_wait [OF assms(2) wait(3-5)] show ?thesis by simp
next
  case (accept w)
  show ?thesis by (rule fine_accept [OF assms(2) accept(3,4) assms(3)]) (simp add: accept(1))
next
  case (listen r)
  show ?thesis by (rule fine_listen [OF assms(2) listen(3) assms(3)]) (simp add: listen(1))
next
  case (fetch i)
  obtain f where f: "crb_inv (tp_queue (bt_pool t))" "crb_items (tp_queue (bt_pool t)) = map Some [f..<length (bt_vec t)]"
    using assms(2) by (auto simp: boot_inv_def)
  have "f < length (bt_vec t)" using fetch(5) threadEntry_empty [OF f(1)] f(2) by fastforce
  with f(2) have "crb_items (tp_queue (bt_pool t)) = Some f # map Some [Suc f..<length (bt_vec t)]"
    by (simp add: upt_conv_Cons)
  from threadEntry_run [OF f(1) this] obtain p where p: "threadEntry (bt_pool t) = Inr (Some (f, p))" by blast
  from fine_fetch [OF assms(2) fetch(3,4) p] fetch(1) p show ?thesis by simp
next
  case (prepare i k)
  show ?thesis by (rule fine_prepare [OF assms(2) prepare(3,4) assms(3,4)]) (simp add: prepare(1))
next
  case (serve i k r)
  show ?thesis by (rule fine_serve [OF assms(2) serve(3,4) assms(3)]) (simp add: serve(1))
qed

section \<open>The start goes on until it is done\<close>

text \<open>A thread of the pool that has taken a service can go on; if none has one to start, each service
  taken is in its event loop, and there is a thread for each that waits in the queue.\<close>

lemma boot_fetch_possible:
  assumes "boot_inv e s t" "0 \<le> tcp_threadPoolNum s" "crb_items (tp_queue (bt_pool t)) \<noteq> []"
  shows "\<exists>t'. boot_step e s t t'"
proof -
  let ?ts = "bt_threads t"
  obtain f where f: "f \<le> length (bt_vec t)" "crb_items (tp_queue (bt_pool t)) = map Some [f..<length (bt_vec t)]"
    "boot_new t + boot_reg t = mset [0..<f]" using assms(1) by (auto simp: boot_inv_def)
  have inv: "bt_failed t = None" "crb_inv (tp_queue (bt_pool t))"
    "length (bt_vec t) \<le> nat (tcp_netWorkServiceNum s)"
    "length ?ts = nat (tcp_threadPoolNum s + tcp_netWorkServiceNum s)"
    using assms(1) by (simp_all add: boot_inv_def)
  have "size (\<Sum>x \<in># mset xs. th_new x) + size (\<Sum>x \<in># mset xs. th_reg x) = tally ((\<noteq>) BFetch) xs"
    for xs :: "'a boot_thread list"
  proof (induction xs)
    case (Cons x xs)
    then show ?case by (cases x) simp_all
  qed simp
  then have "tally ((\<noteq>) BFetch) ?ts = size (boot_new t + boot_reg t)" by (simp add: boot_new_def boot_reg_def)
  also have "\<dots> = f" by (simp add: f(3))
  finally have "tally ((\<noteq>) BFetch) ?ts < length ?ts" using f(1,2) assms(2,3) inv(3,4) by (cases "f = length (bt_vec t)") simp_all
  from tally_less_length [OF this] obtain i where i: "i < length ?ts" "?ts ! i = BFetch" by auto
  have "f < length (bt_vec t)" using f(1,2) assms(3) by (cases "f = length (bt_vec t)") simp_all
  then have "crb_items (tp_queue (bt_pool t)) = Some f # map Some [Suc f..<length (bt_vec t)]"
    using f(2) by (simp add: upt_conv_Cons)
  from threadEntry_run [OF inv(2) this] have "threadEntry (bt_pool t) \<noteq> Inr None" by auto
  from boot_step.fetch [OF inv(1) i this] show ?thesis by blast
qed

lemma boot_goes_on:
  assumes "boot_inv e s t" "0 \<le> tcp_threadPoolNum s" "boot_rank s t \<noteq> 0"
  shows "\<exists>t'. boot_step e s t t'"
proof (rule ccontr)
  assume stuck: "\<nexists>t'. boot_step e s t t'"
  let ?len = "length (bt_vec t)" and ?n = "nat (tcp_netWorkServiceNum s)" and ?ts = "bt_threads t"
  obtain f where f: "f \<le> ?len" "crb_items (tp_queue (bt_pool t)) = map Some [f..<?len]"
    "boot_new t + boot_reg t = mset [0..<f]" using assms(1) by (auto simp: boot_inv_def)
  have inv: "bt_failed t = None" "crb_inv (tp_queue (bt_pool t))" "crb_cap (tp_queue (bt_pool t)) = 999"
    "bt_vec t = [0..<?len]" "?len \<le> ?n"
    "main_ok e (tcp_listenPort s) ?n ?len (boot_reg t) (bt_main t)"
    "\<And>i. chm_find (be_hasher e) (bt_map t) (service_name i) = (if i \<in># boot_reg t then Some i else None)"
    using assms(1) by (simp_all add: boot_inv_def boot_map_ok_def)
  have empty: "crb_items (tp_queue (bt_pool t)) = []" using boot_fetch_possible [OF assms(1,2)] stuck by blast
  then have f_len: "f = ?len" using f(1,2) by (cases "f = ?len") simp_all
  have idle: "th_rank x = 0" "th_new x = {#}" if "x \<in> set ?ts" for x
  proof -
    obtain i where i: "i < length ?ts" "?ts ! i = x" using \<open>x \<in> set ?ts\<close> by (auto simp: in_set_conv_nth)
    have "x \<noteq> BStart k" "x \<noteq> BUp k r" for k r
      using boot_step.prepare [OF inv(1) i(1)] boot_step.serve [OF inv(1) i(1)] i(2) stuck by blast+
    then show "th_rank x = 0" "th_new x = {#}" by (cases x; simp)+
  qed
  have "(\<Sum>x \<in># mset ?ts. th_rank x) = 0" "boot_new t = {#}"
    using idle by (auto simp: boot_new_def intro!: sum_mset.neutral)
  with f(3) f_len have reg: "boot_reg t = mset [0..<?len]" "boot_rank s t = main_rank ?n ?len (bt_main t) + 3 * (?n - ?len)"
    by (simp_all add: boot_rank_def)
  show False
  proof (cases "bt_main t")
    case Posting
    have "syncPostTask (bt_pool t) x \<noteq> Inr None" for x
      using empty inv(2,3) by (simp add: syncPostTask_def crb_put_cases crb_length_items [symmetric])
    with boot_step.post [OF inv(1) Posting] boot_step.posted [OF inv(1) Posting] stuck show False by blast
  next
    case (Waiting w)
    have "waitGetTaskRef (be_hasher e) (bt_map t) (service_name (bt_vec t ! w)) \<noteq> None" if "w < ?len"
    proof -
      have "bt_vec t ! w = w" using inv(4) that by (metis add_0 nth_upt)
      then show ?thesis using inv(7) [of w] reg(1) that by (simp add: waitGetTaskRef_def chm_waitFind_find)
    qed
    with boot_step.wait [OF inv(1) Waiting] boot_step.accept [OF inv(1) Waiting] stuck show False by blast
  next
    case (AcceptUp r)
    with boot_step.listen [OF inv(1) AcceptUp] stuck show False by blast
  next
    case (Accepting r)
    with inv(6) reg(2) assms(3) show False by simp
  qed
qed

lemma boot_run_fine:
  assumes "(boot_step e s ^^ m) t0 t" "boot_inv e s t0" "boot_env_ok e" "tcp_netWorkServiceNum s \<le> 1000"
  shows "boot_inv e s t \<and> boot_rank s t + m = boot_rank s t0"
  using assms(1)
proof (induction m arbitrary: t)
  case (Suc m)
  then obtain u where u: "(boot_step e s ^^ m) t0 u" "boot_step e s u t" by auto
  with Suc.IH [OF u(1)] boot_step_fine [OF u(2) _ assms(3,4)] show ?case by (simp add: boot_fine_def)
qed (use assms(2) in simp)

section \<open>Properties\<close>

text \<open>
  All is up: the accept service listens on the port of the server with its callback in place and
  has the services in order; every service can be found at the message center and is in its event
  loop on a thread of the pool, which watches the descriptor for its messages and the one for its
  new connections.
\<close>

definition server_up :: "'cb boot_env \<Rightarrow> int \<Rightarrow> 16 word \<Rightarrow> 'cb boot \<Rightarrow> bool" where
  "server_up e n port t \<longleftrightarrow>
     (\<exists>r. bt_main t = Accepting r \<and> pListener r \<and> sin_port r = Some port \<and>
        pAcceptCallback r = Owns (Some (be_onAccept e))) \<and>
     bt_vec t = [0..<nat n] \<and>
     (\<forall>i < nat n. waitGetTaskRef (be_hasher e) (bt_map t) (service_name i) = Some i \<and>
        (\<exists>j < length (bt_threads t). \<exists>r. bt_threads t ! j = BLoop i r \<and>
           reactor_handler r (be_eventFd e (service_name i), Rd) = Some (be_onMessage e) \<and>
           reactor_handler r (be_acceptFd e (service_name i), Rd) = Some (be_onNewCon e)))"

lemma boot_done_up:
  assumes "boot_inv e s t" "boot_rank s t = 0"
  shows "server_up e (tcp_netWorkServiceNum s) (tcp_listenPort s) t"
proof -
  let ?n = "nat (tcp_netWorkServiceNum s)"
  obtain r where r: "bt_main t = Accepting r" using assms(2) by (cases "bt_main t") (auto simp: boot_rank_def)
  have m: "main_ok e (tcp_listenPort s) ?n (length (bt_vec t)) (boot_reg t) (bt_main t)"
    "bt_vec t = [0..<length (bt_vec t)]" "\<forall>x \<in> set (bt_threads t). th_ok e x"
    "\<And>i. chm_find (be_hasher e) (bt_map t) (service_name i) = (if i \<in># boot_reg t then Some i else None)"
    using assms(1) by (simp_all add: boot_inv_def boot_map_ok_def)
  have looping: "\<exists>j < length (bt_threads t). \<exists>r. bt_threads t ! j = BLoop i r" if reg: "i \<in># boot_reg t" for i
  proof -
    obtain x where x: "x \<in> set (bt_threads t)" "i \<in># th_reg x" using reg by (auto simp: boot_reg_def)
    have "th_rank x = 0" using assms(2) x(1) by (auto simp: boot_rank_def)
    then have "\<exists>r. x = BLoop i r" using x(2) by (induction x) auto
    with x(1) show ?thesis by (auto simp: in_set_conv_nth)
  qed
  have "waitGetTaskRef (be_hasher e) (bt_map t) (service_name i) = Some i \<and>
      (\<exists>j < length (bt_threads t). \<exists>r. bt_threads t ! j = BLoop i r \<and>
         reactor_handler r (be_eventFd e (service_name i), Rd) = Some (be_onMessage e) \<and>
         reactor_handler r (be_acceptFd e (service_name i), Rd) = Some (be_onNewCon e))" if "i < ?n" for i
  proof -
    have reg: "i \<in># boot_reg t" using m(1) r that by simp
    then obtain j r where j: "j < length (bt_threads t)" "bt_threads t ! j = BLoop i r" using looping by blast
    then have "th_ok e (BLoop i r)" using m(3) nth_mem by metis
    with j reg m(4) [of i] show ?thesis by (auto simp: waitGetTaskRef_def chm_waitFind_find)
  qed
  with m(1,2) r show ?thesis by (simp add: server_up_def)
qed

lemma tcp_start_fine:
  assumes "0 \<le> n" "0 \<le> k"
  obtains t0 :: "'cb boot" where "tcp_start (new_TcpServer n port k) = Inr t0"
    "boot_inv e (new_TcpServer n port k) t0" "boot_rank (new_TcpServer n port k) t0 = 5 * nat n + 3"
proof -
  have none: "(\<Sum>x \<in># mset (replicate m BFetch). g x) = 0"
    if "g BFetch = 0" for m and g :: "'cb boot_thread \<Rightarrow> 'm :: comm_monoid_add"
    using that by (induction m) simp_all
  have len: "0 < DEFAULT_HASHLOCKS" by (simp add: DEFAULT_HASHLOCKS_def)
  note free = chm_new_inv [OF len] chm_new_find [OF len]
  let ?p = "pool_start (new_ThreadPool (k + n) 1000) :: nat pool"
  let ?t = "\<lparr>bt_main = Posting, bt_pool = ?p, bt_vec = [], bt_threads = replicate (tp_threads ?p) BFetch,
       bt_map = new_MessageCenter, bt_failed = None\<rparr> :: 'cb boot"
  have new: "boot_new ?t = {#}" "boot_reg ?t = {#}" by (simp_all add: boot_new_def boot_reg_def none)
  show ?thesis
  proof (rule that [of ?t])
    show "tcp_start (new_TcpServer n port k) = Inr ?t"
      using assms by (simp add: tcp_start_def startThreadPool_def initInstance_def new_TcpServer_def assert_that_def)
    show "boot_rank (new_TcpServer n port k) ?t = 5 * nat n + 3"
      by (simp add: boot_rank_def new none new_TcpServer_def)
    show "boot_inv e (new_TcpServer n port k) ?t"
      unfolding boot_inv_def new
      by (simp add: new_TcpServer_def pool_start_def pool_spawn_threads new_ThreadPool_def
          boot_map_ok_def new_MessageCenter_def free)
  qed
qed

text \<open>The start of a server, for the programs that make one.\<close>

lemma server_run:
  assumes "0 \<le> n" "n \<le> 1000" "0 \<le> k" "boot_env_ok e"
  shows "\<exists>t0. tcp_start (new_TcpServer n port k) = Inr t0 \<and>
    (\<forall>m t. (boot_step e (new_TcpServer n port k) ^^ m) t0 t \<longrightarrow>
      bt_failed t = None \<and> length (bt_threads t) = nat (n + k) \<and> m \<le> 5 * nat n + 3 \<and>
      (accept_named (bt_main t) \<longrightarrow> bt_vec t = [0..<nat n] \<and>
        (\<forall>i < nat n. waitGetTaskRef (be_hasher e) (bt_map t) (service_name i) = Some i)) \<and>
      (if m = 5 * nat n + 3 then server_up e n port t
       else \<exists>t'. boot_step e (new_TcpServer n port k) t t'))"
proof -
  let ?s = "new_TcpServer n port k"
  have s: "tcp_netWorkServiceNum ?s = n" "tcp_listenPort ?s = port" "tcp_threadPoolNum ?s = k"
    by (simp_all add: new_TcpServer_def)
  obtain t0 :: "'a boot" where t0: "tcp_start ?s = Inr t0" "boot_inv e ?s t0" "boot_rank ?s t0 = 5 * nat n + 3"
    by (rule tcp_start_fine [OF assms(1,3), where 'cb = 'a and e = e and port = port])
  have "bt_failed t = None \<and> length (bt_threads t) = nat (n + k) \<and> m \<le> 5 * nat n + 3 \<and>
      (accept_named (bt_main t) \<longrightarrow> bt_vec t = [0..<nat n] \<and>
        (\<forall>i < nat n. waitGetTaskRef (be_hasher e) (bt_map t) (service_name i) = Some i)) \<and>
      (if m = 5 * nat n + 3 then server_up e n port t else \<exists>t'. boot_step e ?s t t')"
    if "(boot_step e ?s ^^ m) t0 t" for m t
  proof -
    have t: "boot_inv e ?s t" "boot_rank ?s t + m = 5 * nat n + 3"
      using boot_run_fine [OF that t0(2) assms(4)] s(1) assms(2) t0(3) by simp_all
    have named: "bt_vec t = [0..<nat n] \<and>
        (\<forall>i < nat n. waitGetTaskRef (be_hasher e) (bt_map t) (service_name i) = Some i)" if "accept_named (bt_main t)"
      using t(1) that s
      by (cases "bt_main t") (auto simp: boot_inv_def boot_map_ok_def waitGetTaskRef_def chm_waitFind_find)
    have "if m = 5 * nat n + 3 then server_up e n port t else \<exists>t'. boot_step e ?s t t'"
      using boot_done_up [OF t(1)] boot_goes_on [OF t(1)] t(2) s assms(3) by auto
    with t named s show ?thesis by (simp add: boot_inv_def add.commute)
  qed
  with t0(1) show ?thesis by blast
qed

text \<open>
  C24: A server starts. With \<open>n\<close> work services, at most a thousand, and \<open>k\<close> more threads, in an environment in
  which the system calls and libevent succeed and the compiled \<open>_startNetWorkService\<close> returns: however
  the thread that calls \<open>start\<close> and the \<open>n + k\<close> threads of the pool interleave, no assertion and no other
  error ends the program, and there is always a next step until, after exactly \<open>5 n + 3\<close> steps, all is up:
  the accept service listens on the server's port with the services in order, and every service
  is registered and in its event loop on a thread of its own, with both its descriptors watched.
  The accept service does not register, and so accepts nobody, before all services can be found.
\<close>

theorem server_starts:
  assumes "0 \<le> n" "n \<le> 1000" "0 \<le> k" "boot_env_ok e"
  shows "\<exists>t0. tcp_start (new_TcpServer n port k) = Inr t0 \<and>
    (\<forall>m t. (boot_step e (new_TcpServer n port k) ^^ m) t0 t \<longrightarrow>
      bt_failed t = None \<and> length (bt_threads t) = nat (n + k) \<and> m \<le> 5 * nat n + 3 \<and>
      (accept_named (bt_main t) \<longrightarrow> bt_vec t = [0..<nat n] \<and>
        (\<forall>i < nat n. waitGetTaskRef (be_hasher e) (bt_map t) (service_name i) = Some i)) \<and>
      (if m = 5 * nat n + 3 then server_up e n port t
       else \<exists>t'. boot_step e (new_TcpServer n port k) t t'))"
  using server_run [OF assms] .

text \<open>Two services and one thread more, with calls that succeed, run to the end.\<close>

definition boot_env_example :: "string boot_env" where
  "boot_env_example = \<lparr>be_prctl = \<lambda>_. 0, be_eventFd = \<lambda>_. 7, be_acceptFd = \<lambda>_. 8, be_lib = \<lambda>_ _. True,
     be_hasher = \<lambda>_. 3, be_onMessage = ''onMsg'', be_onNewCon = ''onNewCon'', be_onAccept = ''onAccept'',
     be_onLoop = Inr, be_offEnd = True\<rparr>"

lemma boot_env_example_ok: "boot_env_ok boot_env_example"
  by (simp add: boot_env_ok_def boot_env_example_def MAX_CLIENT_NUM_def lib_adds_True)

theorem server_starts_witness:
  "\<exists>t0 t. tcp_start (new_TcpServer 2 12306 1) = Inr t0 \<and>
    (boot_step boot_env_example (new_TcpServer 2 12306 1) ^^ 13) t0 t \<and> length (bt_threads t) = 3 \<and>
    server_up boot_env_example 2 12306 t"
proof -
  let ?step = "boot_step boot_env_example (new_TcpServer 2 12306 1)"
  obtain t0 where t0: "tcp_start (new_TcpServer 2 12306 1) = Inr t0" and run: "\<And>m t. (?step ^^ m) t0 t \<Longrightarrow>
      length (bt_threads t) = 3 \<and> (if m = 13 then server_up boot_env_example 2 12306 t else \<exists>t'. ?step t t')"
    using server_starts [of 2 1 boot_env_example 12306] boot_env_example_ok by auto
  have "\<exists>t. (?step ^^ m) t0 t" if "m \<le> 13" for m
    using that
  proof (induction m)
    case (Suc m)
    then obtain t where t: "(?step ^^ m) t0 t" by auto
    with run [OF t] Suc.prems show ?case by (auto intro: relpowp_Suc_I)
  qed auto
  then obtain t where "(?step ^^ 13) t0 t" by blast
  with t0 run [OF this] show ?thesis by auto
qed

end
