(* ===== verification/Connector.thy ===== *)
theory Connector
  imports LibeventReactor
begin

text \<open>
  \<open>network/Connector.cpp\<close>: connecting to a server without blocking. A connector reports the
  outcome through a callback, at once or when the socket becomes writable; until then it keeps
  itself alive through the callback it has bound to itself. The results of the system calls are
  arguments.
\<close>

section \<open>The connector\<close>

text \<open>\<open>'k\<close> are the callbacks of the user; \<open>connectEventCallback_\<close> is bound to the connector
  itself, so it is kept as whether it is set.\<close>

record 'k connector =
  ctr_connectEventCallback :: bool
  ctr_connectCallback :: "'k option"

definition new_Connector :: "'k connector" where
  "new_Connector = \<lparr>ctr_connectEventCallback = False, ctr_connectCallback = None\<rparr>"

datatype connect_stat = CONNECT_OK | CONNECTING | CONNECT_ERR

text \<open>What \<open>connect\<close> returns: 0, -1 with \<open>EINPROGRESS\<close>, -1 with another \<open>errno\<close>.\<close>

datatype connect_result = ConnectDone | ConnectInProgress | ConnectRefused

text \<open>Descriptors closed and calls of the user's callback, in order.\<close>

datatype 'k connect_out = CloseFd int | CallConnect 'k int

definition call_connect :: "'k connector \<Rightarrow> int \<Rightarrow> 'k connect_out list outcome" where
  "call_connect c fd = (case ctr_connectCallback c of
       None \<Rightarrow> Inl BadFunctionCall
     | Some k \<Rightarrow> Inr [CallConnect k fd])"

definition ctr_destroy :: "'k connector \<Rightarrow> 'k connector" where
  "ctr_destroy c = c\<lparr>ctr_connectEventCallback := False\<rparr>"

text \<open>The block that ends with \<open>while (0)\<close>: every branch breaks out of it.\<close>

definition try_connect :: "int \<Rightarrow> int \<Rightarrow> connect_result \<Rightarrow> connect_stat" where
  "try_connect sockFd setsockopt conn =
     (if sockFd < 0 then CONNECT_ERR
      else if setsockopt \<noteq> 0 then CONNECT_ERR
      else case conn of
             ConnectDone \<Rightarrow> CONNECT_OK
           | ConnectInProgress \<Rightarrow> CONNECTING
           | ConnectRefused \<Rightarrow> CONNECT_ERR)"

definition asyncConnect :: "('r \<Rightarrow> int \<Rightarrow> event_flags \<Rightarrow> 'cb \<Rightarrow> (bool \<times> 'r) outcome) \<Rightarrow> 'cb \<Rightarrow>
    int \<Rightarrow> int \<Rightarrow> connect_result \<Rightarrow> 'k connector \<Rightarrow> 'r \<Rightarrow> string \<Rightarrow> 'k option \<Rightarrow>
    ('k connector \<times> 'r \<times> 'k connect_out list) outcome" where
  "asyncConnect add self sockFd setsockopt conn c r ip connectCallback =
     (if length ip < 7 \<or> length ip > 15 then Inr (c, r, [])
      else let c = c\<lparr>ctr_connectEventCallback := True, ctr_connectCallback := connectCallback\<rparr> in
        case try_connect sockFd setsockopt conn of
          CONNECT_ERR \<Rightarrow>
            and_then (call_connect c (-1)) (\<lambda>outs. Inr (ctr_destroy c, r, CloseFd sockFd # outs))
        | CONNECTING \<Rightarrow>
            and_then (add r sockFd EVENT_WRITE self) (\<lambda>(_, r). Inr (c, r, []))
        | CONNECT_OK \<Rightarrow>
            and_then (call_connect c sockFd) (\<lambda>outs. Inr (ctr_destroy c, r, outs)))"

text \<open>\<open>sockopt\<close> is what \<open>getsockopt\<close> returns and the error it stores.\<close>

definition onConnectEvent :: "'k connector \<Rightarrow> int \<Rightarrow> int \<times> int \<Rightarrow>
    ('k connector \<times> 'k connect_out list) outcome" where
  "onConnectEvent c fd sockopt =
     (let err = (if fst sockopt = -1 then -1 else snd sockopt);
          closed = (if err \<noteq> 0 then [CloseFd fd] else []);
          fd = (if err \<noteq> 0 then -1 else fd)
      in and_then (call_connect c fd) (\<lambda>outs. Inr (ctr_destroy c, closed @ outs)))"

section \<open>Properties\<close>

text \<open>
  C35: A connection attempt to an address of valid length is reported exactly once. If the attempt
  is decided at once, the callback has been called when \<open>asyncConnect\<close> returns: with the
  descriptor if it is connected, otherwise with -1 after the descriptor was closed. If it is under
  way, nothing has been called, the reactor waits for the descriptor to become writable, and that
  event calls the callback, with the descriptor if the socket has no error, otherwise with -1
  after closing it. When the callback has been called the connector no longer holds itself.
\<close>

theorem connect_reported_once:
  assumes "7 \<le> length ip" "length ip \<le> 15" "reactor_inv r" "sockFd < reactor_nfds r" "lib_adds lib"
  shows "\<exists>c r' outs.
    asyncConnect (\<lambda>r fd ev cb. addEventHandler lib r fd ev (Some cb)) self sockFd setsockopt conn
      new_Connector r ip (Some k) = Inr (c, r', outs) \<and>
    (case try_connect sockFd setsockopt conn of
       CONNECT_OK \<Rightarrow> outs = [CallConnect k sockFd] \<and> \<not> ctr_connectEventCallback c
     | CONNECT_ERR \<Rightarrow> outs = [CloseFd sockFd, CallConnect k (-1)] \<and> \<not> ctr_connectEventCallback c
     | CONNECTING \<Rightarrow> outs = [] \<and> ctr_connectEventCallback c \<and>
         reactor_handler r' (sockFd, Wr) = Some self \<and>
         (\<forall>ret err. \<exists>c'. onConnectEvent c sockFd (ret, err) =
            Inr (c', if ret \<noteq> -1 \<and> err = 0 then [CallConnect k sockFd]
              else [CloseFd sockFd, CallConnect k (-1)]) \<and> \<not> ctr_connectEventCallback c'))"
proof (cases "try_connect sockFd setsockopt conn")
  case CONNECTING
  then have "0 \<le> sockFd" by (auto simp: try_connect_def split: if_splits)
  from lib_adds_add [OF assms(5,3) this assms(4), of Wr self]
    lev.add_law [OF assms(3) this assms(4), of lib Wr self]
  obtain r' where "addEventHandler lib r sockFd EVENT_WRITE (Some self) = Inr (True, r')"
    "reactor_handler r' (sockFd, Wr) = Some self" by auto
  with CONNECTING assms(1,2) show ?thesis
    by (auto simp: asyncConnect_def onConnectEvent_def call_connect_def ctr_destroy_def Let_def)
qed (use assms(1,2) in \<open>auto simp: asyncConnect_def call_connect_def ctr_destroy_def Let_def\<close>)

theorem connect_reported_once_witness:
  "\<exists>c r' outs. asyncConnect (\<lambda>r fd ev cb. addEventHandler (\<lambda>_ _. True) r fd ev (Some cb)) ''self'' 3 0
     ConnectDone new_Connector reactor_example ''0.0.0.0'' (Some (8::nat)) = Inr (c, r', [CallConnect 8 3])"
proof -
  have "reactor_inv reactor_example" "3 < reactor_nfds reactor_example"
    using reactor_reach_inv [OF reactor_example_reach] by simp_all
  from connect_reported_once [OF _ _ this lib_adds_True, of "''0.0.0.0''" "''self''" 0 ConnectDone 8]
  show ?thesis by (auto simp: try_connect_def)
qed

text \<open>
  An address whose length is not between 7 and 15 is dropped silently: \<open>asyncConnect\<close> returns
  without creating a socket, and the callback is neither called nor registered.
\<close>

theorem connect_bad_address_not_reported:
  assumes "length ip < 7 \<or> 15 < length ip"
  shows "asyncConnect add self sockFd setsockopt conn c r ip cb = Inr (c, r, [])"
  using assms by (auto simp: asyncConnect_def)

theorem connect_bad_address_not_reported_witness:
  "asyncConnect (\<lambda>r fd ev cb. addEventHandler (\<lambda>_ _. True) r fd ev (Some cb)) ''self'' 3 0 ConnectDone
     new_Connector reactor_example ''::1'' (Some (8::nat)) = Inr (new_Connector, reactor_example, [])"
  using connect_bad_address_not_reported [of "''::1''"] by simp

end
