(* ===== verification/SimulateServer.thy ===== *)
theory SimulateServer
  imports FrameEvents TcpServer Connector
begin

text \<open>
  \<open>examples/ConcurrenceSimulateServer\<close>: a server that plays the clients of the echo server. It
  connects to the echo server many times, deals the connections out to its work services, and each
  connection sends messages and counts the answers, until the answers of all are in and the
  program exits. The times that are measured are not modelled.
\<close>

section \<open>The server's members\<close>

record simulator = tcp_server +
  si_clientNum :: int
  si_msgNum :: int
  si_connectedCount :: int
  si_echoCount :: int
  si_bConnectedFirstCount :: bool
  si_bConnectedFirstSend :: bool

definition CLIENT_NUM :: int where "CLIENT_NUM = 40000"
definition MSG_NUM_EACH_CLIENT :: int where "MSG_NUM_EACH_CLIENT = 20"

definition new_ConcurrenceSimulateServer :: "int \<Rightarrow> 16 word \<Rightarrow> int \<Rightarrow> simulator" where
  "new_ConcurrenceSimulateServer netWorkServiceNum listenPort threadPoolNum =
     (let s = new_TcpServer netWorkServiceNum listenPort threadPoolNum in
      \<lparr>tcp_netWorkServiceNum = tcp_netWorkServiceNum s, tcp_listenPort = tcp_listenPort s,
       tcp_threadPoolNum = tcp_threadPoolNum s, si_clientNum = CLIENT_NUM,
       si_msgNum = MSG_NUM_EACH_CLIENT, si_connectedCount = 0, si_echoCount = 0,
       si_bConnectedFirstCount = True, si_bConnectedFirstSend = True\<rparr>)"

section \<open>A connection\<close>

record 'cb client_connection = "('cb, unit) connection" +
  cl_stat :: recv_state
  cl_selfEchoCount :: int
  cl_sendBuf :: string
  cl_recvCall :: "unit option"
  cl_sendCall :: "unit option"

text \<open>The world of its callbacks: the service, the server, and whether \<open>exit\<close> has been called.\<close>

record ('c, 'k, 'd) sim_world =
  sw_service :: "('c, 'k, 'd) service option"
  sw_server :: simulator
  sw_exited :: bool

definition new_ClientConnection :: "('cb, unit) stream \<Rightarrow> 'cb client_connection outcome" where
  "new_ClientConnection spStream =
     and_then (new_Connection spStream) (\<lambda>c.
       Inr \<lparr>cn_stream = cn_stream c, cn_handle = cn_handle c, cl_stat = RECV_HEAD,
         cl_selfEchoCount = 0, cl_sendBuf = [], cl_recvCall = None, cl_sendCall = None\<rparr>)"

text \<open>\<open>ss_ << "client fd:" << fd << " echo hello!"\<close>.\<close>

definition show_int :: "int \<Rightarrow> string" where
  "show_int i = (if i < 0 then CHR ''-'' # decimal (nat (- i)) else decimal (nat i))"

definition client_text :: "int \<Rightarrow> string" where
  "client_text fd = ''client fd:'' @ show_int fd @ '' echo hello!''"

text \<open>The service forgets the connection; it held the only reference, so the connection and its
  stream are deleted.\<close>

definition cl_destroy :: "('r \<Rightarrow> int \<Rightarrow> event_flags \<Rightarrow> (bool \<times> 'r) outcome) \<Rightarrow>
    'cb client_connection \<Rightarrow> 'r \<Rightarrow> ('cb client_connection, 'k, 'd) sim_world \<Rightarrow>
    ('cb client_connection, 'r, ('cb client_connection, 'k, 'd) sim_world) conn_result" where
  "cl_destroy rem c r w = (case sw_service w of
       None \<Rightarrow> Inl NullDereference
     | Some sv \<Rightarrow>
         and_then (delete_Stream rem (cn_stream c) r) (\<lambda>(_, _, r).
           Inr (None, r, w\<lparr>sw_service := Some (removeConnection sv (Connection_getHandle c))\<rparr>)))"

definition cl_startReadOrWriteInService :: "('r \<Rightarrow> int \<Rightarrow> event_flags \<Rightarrow> 'cb \<Rightarrow> (bool \<times> 'r) outcome) \<Rightarrow>
    ('r \<Rightarrow> int \<Rightarrow> event_flags \<Rightarrow> (bool \<times> 'r) outcome) \<Rightarrow>
    'cb client_connection \<Rightarrow> 'r \<Rightarrow> ('cb client_connection, 'k, 'd) sim_world \<Rightarrow>
    ('cb client_connection, 'r, ('cb client_connection, 'k, 'd) sim_world) conn_result" where
  "cl_startReadOrWriteInService add rem c r w =
     (let c = c\<lparr>cl_recvCall := Some (), cl_sendCall := Some ()\<rparr> in
      and_then (pack_frame (cl_sendBuf c) (client_text (getFd (cn_stream c)))) (\<lambda>buf.
      let c = c\<lparr>cl_sendBuf := buf\<rparr> in
      and_then (asyncSendBytes add (cn_stream c) r (cl_sendBuf c) (cl_sendCall c)) (\<lambda>(ok, s, r).
      let c = c\<lparr>cn_stream := s\<rparr> in
      if \<not> ok then cl_destroy rem c r w
      else let w = (if si_bConnectedFirstSend (sw_server w)
                    then w\<lparr>sw_server := (sw_server w)\<lparr>si_bConnectedFirstSend := False\<rparr>\<rparr> else w);
               c = c\<lparr>cl_stat := RECV_HEAD\<rparr> in
        and_then (asyncRecvBytes add (cn_stream c) r 4 (cl_recvCall c)) (\<lambda>(ok, s, r).
          let c = c\<lparr>cn_stream := s\<rparr> in
          if \<not> ok then cl_destroy rem c r w else Inr (Some c, r, w)))))"

text \<open>In the branch for the body every answer is counted; the last of all ends the program.\<close>

definition cl_recvCompleteCallback :: "('r \<Rightarrow> int \<Rightarrow> event_flags \<Rightarrow> 'cb \<Rightarrow> (bool \<times> 'r) outcome) \<Rightarrow>
    ('r \<Rightarrow> int \<Rightarrow> event_flags \<Rightarrow> (bool \<times> 'r) outcome) \<Rightarrow>
    ('cb client_connection, 'r, ('cb client_connection, 'k, 'd) sim_world) recv_done" where
  "cl_recvCompleteCallback add rem c r w retRecvStat vecBytes =
     (if retRecvStat = RECVERR then cl_destroy rem c r w
      else case cl_stat c of
        RECV_HEAD \<Rightarrow>
          and_then (recv_head add (cn_stream c) r (cl_recvCall c) vecBytes) (\<lambda>(st, s, r).
            Inr (Some (c\<lparr>cn_stream := s, cl_stat := st\<rparr>), r, w))
      | RECV_BODY \<Rightarrow>
          let sv = sw_server w;
              sv = sv\<lparr>si_echoCount := si_echoCount sv + 1\<rparr>;
              w = w\<lparr>sw_server := sv\<rparr> in
          if si_echoCount sv \<ge> si_msgNum sv * si_clientNum sv
          then and_then (cl_destroy rem c r w) (\<lambda>(_, r, w). Inr (None, r, w\<lparr>sw_exited := True\<rparr>))
          else let c = c\<lparr>cl_selfEchoCount := cl_selfEchoCount c + 1\<rparr> in
            if cl_selfEchoCount c = si_msgNum sv then Inr (Some c, r, w)
            else let c = c\<lparr>cl_stat := RECV_HEAD\<rparr> in
              and_then (asyncRecvBytes add (cn_stream c) r 4 (cl_recvCall c)) (\<lambda>(_, s, r).
                Inr (Some (c\<lparr>cn_stream := s\<rparr>), r, w)))"

definition cl_sendCompleteCallback :: "('r \<Rightarrow> int \<Rightarrow> event_flags \<Rightarrow> 'cb \<Rightarrow> (bool \<times> 'r) outcome) \<Rightarrow>
    ('r \<Rightarrow> int \<Rightarrow> event_flags \<Rightarrow> (bool \<times> 'r) outcome) \<Rightarrow>
    ('cb client_connection, 'r, ('cb client_connection, 'k, 'd) sim_world) send_done" where
  "cl_sendCompleteCallback add rem c r w retSendStat =
     (if retSendStat = SENDERR then cl_destroy rem c r w
      else if cl_selfEchoCount c = si_msgNum (sw_server w) then Inr (Some c, r, w)
      else and_then (pack_frame (cl_sendBuf c) (client_text (getFd (cn_stream c)))) (\<lambda>buf.
        let c = c\<lparr>cl_sendBuf := buf\<rparr> in
        and_then (asyncSendBytes add (cn_stream c) r (cl_sendBuf c) (cl_sendCall c)) (\<lambda>(ok, s, r).
          let c = c\<lparr>cn_stream := s\<rparr> in
          if \<not> ok then cl_destroy rem c r w else Inr (Some c, r, w))))"

definition sim_onConnection :: "('r \<Rightarrow> int \<Rightarrow> event_flags \<Rightarrow> 'cb \<Rightarrow> (bool \<times> 'r) outcome) \<Rightarrow>
    ('r \<Rightarrow> int \<Rightarrow> event_flags \<Rightarrow> (bool \<times> 'r) outcome) \<Rightarrow> ('cb, unit) stream \<Rightarrow> 'r \<Rightarrow>
    ('cb client_connection, 'k, 'd) sim_world \<Rightarrow>
    ('cb client_connection, 'r, ('cb client_connection, 'k, 'd) sim_world) conn_result" where
  "sim_onConnection add rem spStream r w =
     and_then (new_ClientConnection spStream) (\<lambda>c.
       case sw_service w of
         None \<Rightarrow> Inl AssertionFailed
       | Some sv \<Rightarrow>
           let (taken, sv) = addNewConnection sv c in
           and_then (cl_startReadOrWriteInService add rem c r (w\<lparr>sw_service := Some sv\<rparr>)) (\<lambda>(c, r, w).
             case c of
               None \<Rightarrow> Inr (None, r, w)
             | Some c \<Rightarrow>
                 if taken then Inr (Some c, r, w)
                 else and_then (delete_Stream rem (cn_stream c) r) (\<lambda>(_, _, r). Inr (None, r, w))))"

section \<open>Connecting\<close>

text \<open>
  \<open>onConnected\<close>: a descriptor that is connected is counted and dealt to the next work service;
  \<open>None\<close> while the queue of that service is full.
\<close>

definition sim_onConnected :: "simulator \<Rightarrow> 'd acceptor \<Rightarrow> int \<Rightarrow> (simulator \<times> 'd acceptor) option outcome" where
  "sim_onConnected sv a fd =
     (if fd \<le> 0 then Inr (Some (sv, a))
      else let sv = (if si_bConnectedFirstCount sv then sv\<lparr>si_bConnectedFirstCount := False\<rparr> else sv);
               sv = sv\<lparr>si_connectedCount := si_connectedCount sv + 1\<rparr> in
        and_then (nas_onAccept a fd) (\<lambda>ao. Inr (map_option (\<lambda>a. (sv, a)) ao)))"

text \<open>The calls a connector makes; the callback is \<open>onConnected\<close>. Closing a descriptor changes
  nothing here.\<close>

fun sim_calls :: "simulator \<Rightarrow> 'd acceptor \<Rightarrow> unit connect_out list \<Rightarrow> (simulator \<times> 'd acceptor) option outcome" where
  "sim_calls sv a [] = Inr (Some (sv, a))"
| "sim_calls sv a (CloseFd fd # os) = sim_calls sv a os"
| "sim_calls sv a (CallConnect k fd # os) =
     and_then (sim_onConnected sv a fd) (\<lambda>res. case res of
       None \<Rightarrow> Inr None
     | Some (sv, a) \<Rightarrow> sim_calls sv a os)"

text \<open>
  \<open>_creatConnections\<close>: the loop from \<open>i\<close> to \<open>n\<close>, which is \<open>clientNum_\<close> and is not written
  in the loop; the argument of the function is not used. \<open>env i\<close> are the results of the system
  calls for the \<open>i\<close>-th connector, \<open>self i\<close> the callback it registers.
\<close>

function sim_connect_loop :: "('r \<Rightarrow> int \<Rightarrow> event_flags \<Rightarrow> 'cb \<Rightarrow> (bool \<times> 'r) outcome) \<Rightarrow> (int \<Rightarrow> 'cb) \<Rightarrow>
    (int \<Rightarrow> int \<times> int \<times> connect_result) \<Rightarrow> int \<Rightarrow> int \<Rightarrow> simulator \<Rightarrow> 'd acceptor \<Rightarrow> 'r \<Rightarrow>
    (simulator \<times> 'd acceptor \<times> 'r) option outcome" where
  "sim_connect_loop add self env i n sv a r =
     (if i < n
      then case env i of (sockFd, setsockopt, conn) \<Rightarrow>
        and_then (asyncConnect add (self i) sockFd setsockopt conn (new_Connector :: unit connector) r
          ''0.0.0.0'' (Some ())) (\<lambda>(_, r, outs).
        and_then (sim_calls sv a outs) (\<lambda>res. case res of
          None \<Rightarrow> Inr None
        | Some (sv, a) \<Rightarrow> sim_connect_loop add self env (i + 1) n sv a r))
      else Inr (Some (sv, a, r)))"
  by pat_completeness auto
termination
  by (relation "measure (\<lambda>(add, self, env, i, n, sv, a, r). nat (n - i))") auto

declare sim_connect_loop.simps [simp del]

definition sim_creatConnections :: "('r \<Rightarrow> int \<Rightarrow> event_flags \<Rightarrow> 'cb \<Rightarrow> (bool \<times> 'r) outcome) \<Rightarrow> (int \<Rightarrow> 'cb) \<Rightarrow>
    (int \<Rightarrow> int \<times> int \<times> connect_result) \<Rightarrow> int \<Rightarrow> simulator \<Rightarrow> 'd acceptor \<Rightarrow> 'r \<Rightarrow>
    (simulator \<times> 'd acceptor \<times> 'r) option outcome" where
  "sim_creatConnections add self env num sv a r =
     sim_connect_loop add self env 0 (si_clientNum sv) sv a r"

definition sim_onLoop :: "('r \<Rightarrow> int \<Rightarrow> event_flags \<Rightarrow> 'cb \<Rightarrow> (bool \<times> 'r) outcome) \<Rightarrow> (int \<Rightarrow> 'cb) \<Rightarrow>
    (int \<Rightarrow> int \<times> int \<times> connect_result) \<Rightarrow> simulator \<Rightarrow> 'd acceptor \<Rightarrow> 'r \<Rightarrow>
    (simulator \<times> 'd acceptor \<times> 'r) option outcome" where
  "sim_onLoop add self env sv a r = sim_creatConnections add self env (si_clientNum sv) sv a r"

section \<open>The connection over libevent\<close>

abbreviation cl_recv where
  "cl_recv lib \<equiv> cl_recvCompleteCallback (lev_add lib) (removeEventHandler lib)"

abbreviation cl_send where
  "cl_send lib \<equiv> cl_sendCompleteCallback (lev_add lib) (removeEventHandler lib)"

interpretation simcl: framed_reader "\<lambda>r fd ev cb. addEventHandler lib r fd ev (Some cb)"
  "removeEventHandler lib" dispatch reactor_handler reactor_nfds reactor_inv
  "cl_recvCompleteCallback (lev_add lib) (removeEventHandler lib)" cl_stat "\<lambda>st c. c\<lparr>cl_stat := st\<rparr>"
  cl_recvCall for lib
  by unfold_locales (simp_all add: cl_recvCompleteCallback_def)

abbreviation cl_run where
  "cl_run lib \<equiv> conn_run (lev_add lib) dispatch (cl_recv lib) (cl_send lib)"

text \<open>The connection waits for the head of an answer.\<close>

definition cl_ready :: "libevent \<Rightarrow> 'cb reactor \<Rightarrow> 'cb client_connection \<Rightarrow> bool" where
  "cl_ready lib r c \<longleftrightarrow> lev.awaits r (cn_stream c) 4 () \<and> cl_stat c = RECV_HEAD \<and>
     cl_recvCall c = Some () \<and> cl_sendCall c = Some ()"

text \<open>The connection has \<open>bytes\<close> to send.\<close>

definition cl_sends :: "'cb reactor \<Rightarrow> 'cb client_connection \<Rightarrow> string \<Rightarrow> bool" where
  "cl_sends r c bytes \<longleftrightarrow> lev.writes r (cn_stream c) \<and> sendLen (cn_stream c) = 0 \<and>
     needSendLen (cn_stream c) = int (length bytes) \<and> sendBuf (cn_stream c) = bytes \<and>
     sendCompleteCallback (cn_stream c) = Some ()"

text \<open>The text of a message is short.\<close>

lemma client_text_length:
  assumes "0 \<le> fd" "fd < 2 ^ 31"
  shows "0 < length (client_text fd)" "length (client_text fd) \<le> 1020"
proof -
  have "nat fd < 10 ^ Suc 9" using assms by simp
  then have "length (decimal (nat fd)) \<le> Suc 9" using decimal_length by blast
  then show "length (client_text fd) \<le> 1020" using assms(1)
    by (simp add: client_text_def show_int_def)
qed (simp add: client_text_def)

lemma client_accepts:
  assumes "lib_adds lib" "stream_start lib n r fd" "sw_service w = Some sv" "sv_connections sv fd = None"
    and "fd < 2 ^ 31"
  obtains c r' w' where
    "sim_onConnection (lev_add lib) (removeEventHandler lib) (new_Stream fd rc sc) r w = Inr (Some c, r', w')"
    "cl_ready lib r' c" "cl_sends r' c (frame (client_text fd))" "cl_selfEchoCount c = 0"
    "st_fd (cn_stream c) = fd" "si_echoCount (sw_server w') = si_echoCount (sw_server w)"
    "si_msgNum (sw_server w') = si_msgNum (sw_server w)" "si_clientNum (sw_server w') = si_clientNum (sw_server w)"
    "cn_handle c = fd" "sw_exited w' = sw_exited w"
    "\<exists>sv'. sw_service w' = Some sv' \<and> dom (sv_connections sv') = insert fd (dom (sv_connections sv))"
    "reactor_inv r'" "reactor_nfds r' = reactor_nfds r"
    "\<forall>x. fst x \<noteq> fd \<longrightarrow> reactor_handler r' x = reactor_handler r x"
proof -
  note ok = lib_adds_ok [OF assms(1)]
  let ?s = "new_Stream fd rc sc :: (_, unit) stream" and ?f = "frame (client_text fd)"
  have r: "reactor_inv r" "0 < fd" "0 \<le> st_fd ?s" "st_fd ?s < reactor_nfds r"
    using assms(2) by (auto simp: stream_start_def new_Stream_def)
  have len: "length ?f \<le> 1024" using client_text_length [of fd] r(2) assms(5) by simp
  obtain s1 r1 where send: "asyncSendBytes (lev_add lib) ?s r ?f (Some ()) = Inr (True, s1, r1)"
    and s1: "lev.writes r1 s1" "sendLen s1 = 0" "needSendLen s1 = int (length ?f)" "sendBuf s1 = ?f"
      "sendCompleteCallback s1 = Some ()" "send_side ?s s1" "reactor_inv r1" "reactor_nfds r1 = reactor_nfds r"
      "reactor_handler r1 = (reactor_handler r)((st_fd ?s, Wr) \<mapsto> sendOnePackCall ?s)"
    by (rule lev.ask_send [OF ok r(1,3,4) len, of "()"]) (rule that)
  have fd1: "0 \<le> st_fd s1" "st_fd s1 < reactor_nfds r1" "st_fd s1 = fd"
    using s1(6,8) r by (simp_all add: send_side_iff new_Stream_def)
  obtain s2 r2 where recv: "asyncRecvBytes (lev_add lib) s1 r1 4 (Some ()) = Inr (True, s2, r2)"
    and s2: "lev.awaits r2 s2 4 ()" "recv_side s1 s2" "reactor_inv r2" "reactor_nfds r2 = reactor_nfds r1"
      "reactor_handler r2 = (reactor_handler r1)((st_fd s1, Rd) \<mapsto> recvOnePackCall s1)"
    by (rule lev.ask_recv [OF ok s1(7) fd1(1,2) four_in_range, of "()"]) (rule that)
  have w2: "lev.writes r2 s2" using lev.writes_recv_side [OF s1(1) s2(2-4)] s2(5) by simp
  let ?c = "\<lparr>cn_stream = s2, cn_handle = fd, cl_stat = RECV_HEAD, cl_selfEchoCount = 0,
    cl_sendBuf = ?f, cl_recvCall = Some (), cl_sendCall = Some ()\<rparr>"
  have pack: "pack_frame [] (client_text fd) = Inr ?f" using len by (intro pack_frame_eq) simp
  have side: "sendLen s2 = 0" "needSendLen s2 = int (length ?f)" "sendBuf s2 = ?f"
    "sendCompleteCallback s2 = Some ()" "st_fd s2 = fd" using s1 s2(2) fd1(3) by (simp_all add: recv_side_iff)
  have new: "st_fd ?s = fd" "getFd ?s = fd" by (simp_all add: new_Stream_def getFd_def)
  show ?thesis
    by (rule that [of ?c r2 "w\<lparr>sw_service := Some (sv\<lparr>sv_connections := (sv_connections sv)(fd \<mapsto>
        \<lparr>cn_stream = ?s, cn_handle = fd, cl_stat = RECV_HEAD, cl_selfEchoCount = 0, cl_sendBuf = [],
         cl_recvCall = None, cl_sendCall = None\<rparr>)\<rparr>),
        sw_server := (sw_server w)\<lparr>si_bConnectedFirstSend := False\<rparr>\<rparr>"])
      (use send recv s2(1,3,4,5) w2 side s1(8,9) fd1(3) pack r(2) new assms(3,4) in \<open>auto simp: sim_onConnection_def
        new_ClientConnection_def new_Connection_def addNewConnection_def Connection_getHandle_def
        cl_startReadOrWriteInService_def cl_ready_def cl_sends_def\<close>)
qed

text \<open>A message is sent, and the next one is begun, without disturbing the wait for an answer.\<close>

lemma client_sends:
  assumes "lib_adds lib" "cl_ready lib r c" "cl_sends r c bytes" "takes ss (length bytes)"
    and "cl_selfEchoCount c \<noteq> si_msgNum (sw_server w)" "0 \<le> st_fd (cn_stream c)" "st_fd (cn_stream c) < 2 ^ 31"
  obtains c' r' where "cl_run lib (Some c) r w (map Writable ss) = Inr (Some c', r', w, bytes)"
    "cl_ready lib r' c'" "cl_sends r' c' (frame (client_text (st_fd (cn_stream c))))"
    "cl_selfEchoCount c' = cl_selfEchoCount c" "st_fd (cn_stream c') = st_fd (cn_stream c)"
proof -
  note ok = lib_adds_ok [OF assms(1)]
  let ?fd = "st_fd (cn_stream c)" and ?f = "frame (client_text (st_fd (cn_stream c)))"
  have c: "lev.awaits r (cn_stream c) 4 ()" "cl_stat c = RECV_HEAD" "cl_recvCall c = Some ()"
    "cl_sendCall c = Some ()" using assms(2) by (auto simp: cl_ready_def)
  have n: "lev.writes r (cn_stream c)" "int (length bytes) = needSendLen (cn_stream c)"
    "sendCompleteCallback (cn_stream c) = Some ()"
    "bytes = drop (nat (sendLen (cn_stream c))) (sendBuf (cn_stream c))"
    using assms(3) by (simp_all add: cl_sends_def)
  obtain s1 r1 where run: "\<forall>es. cl_run lib (Some c) r w (map Writable ss @ es) =
      and_then (cl_send lib (c\<lparr>cn_stream := s1\<rparr>) r1 w SENDED) (\<lambda>(c, r, w).
        sent_first bytes (cl_run lib c r w es))"
    and s1: "send_side (cn_stream c) s1" "reactor_inv r1" "reactor_nfds r1 = reactor_nfds r"
      "reactor_handler r1 = (reactor_handler r)((?fd, Wr) := None)"
    using lev.conn_run_send [OF ok n(1) assms(4) n(2-4), of "cl_recv lib" "cl_send lib" w]
    by (elim exE conjE) (rule that)
  have wait1: "lev.awaits r1 s1 4 ()" using lev.awaits_send_side [OF c(1) s1(1-3)] s1(4) by simp
  have fd1: "0 \<le> st_fd s1" "st_fd s1 < reactor_nfds r1" "st_fd s1 = ?fd"
    using wait1 s1(1) by (simp_all add: lev.awaits_def lev.reads_def send_side_iff)
  have len: "length ?f \<le> 1024" using client_text_length [OF assms(6,7)] by simp
  obtain s2 r2 where ask: "asyncSendBytes (lev_add lib) s1 r1 ?f (Some ()) = Inr (True, s2, r2)"
    and s2: "lev.writes r2 s2" "sendLen s2 = 0" "needSendLen s2 = int (length ?f)" "sendBuf s2 = ?f"
      "sendCompleteCallback s2 = Some ()" "send_side s1 s2" "reactor_inv r2" "reactor_nfds r2 = reactor_nfds r1"
      "reactor_handler r2 = (reactor_handler r1)((st_fd s1, Wr) \<mapsto> sendOnePackCall s1)"
    by (rule lev.ask_send [OF ok s1(2) fd1(1,2) len, of "()"]) (rule that)
  have wait2: "lev.awaits r2 s2 4 ()" using lev.awaits_send_side [OF wait1 s2(6-8)] s2(9) by simp
  let ?c = "c\<lparr>cn_stream := s2, cl_sendBuf := ?f\<rparr>"
  have pack: "pack_frame buf (client_text ?fd) = Inr ?f" for buf
    using len by (intro pack_frame_eq) simp
  have "cl_send lib (c\<lparr>cn_stream := s1\<rparr>) r1 w SENDED = Inr (Some ?c, r2, w)"
    using assms(5) pack ask c(4) fd1(3) by (simp add: cl_sendCompleteCallback_def getFd_def)
  moreover have "st_fd s2 = ?fd" using s2(6) fd1(3) by (simp add: send_side_iff)
  ultimately show ?thesis
    by (intro that [of ?c r2])
      (use run [rule_format, of "[]"] wait2 c s2 in \<open>simp_all add: cl_ready_def cl_sends_def\<close>)
qed

text \<open>An answer is counted.\<close>

abbreviation sim_count :: "('c, 'k, 'd) sim_world \<Rightarrow> ('c, 'k, 'd) sim_world" where
  "sim_count w \<equiv> w\<lparr>sw_server := (sw_server w)\<lparr>si_echoCount := si_echoCount (sw_server w) + 1\<rparr>\<rparr>"

lemma client_answered:
  assumes "lib_adds lib" "cl_ready lib r c"
    and "brings hs (int_bytes (int (length body)))" "brings rs body" "length body \<le> 1024"
  obtains s' r' where "cl_run lib (Some c) r w (map Readable (hs @ rs)) =
      and_then (cl_recv lib (c\<lparr>cn_stream := s', cl_stat := RECV_BODY\<rparr>) r' w RECVED body)
        (\<lambda>(c, r, w). Inr (c, r, w, []))"
    "recv_side (cn_stream c) s'" "reactor_inv r'" "reactor_nfds r' = reactor_nfds r"
    "reactor_handler r' = (reactor_handler r)((st_fd (cn_stream c), Rd) := None)"
proof -
  have c: "lev.awaits r (cn_stream c) 4 ()" "cl_stat c = RECV_HEAD" "cl_recvCall c = Some ()"
    using assms(2) by (auto simp: cl_ready_def)
  obtain s' r' where "\<And>es. cl_run lib (Some c) r w (map Readable (hs @ rs) @ es) =
      and_then (cl_recv lib (c\<lparr>cn_stream := s', cl_stat := RECV_BODY\<rparr>) r' w RECVED body)
        (\<lambda>(c, r, w). cl_run lib c r w es)"
    "recv_side (cn_stream c) s'" "reactor_inv r'" "reactor_nfds r' = reactor_nfds r"
    "reactor_handler r' = (reactor_handler r)((st_fd (cn_stream c), Rd) := None)"
    by (rule simcl.frame_arrives [OF lib_adds_ok [OF assms(1)] c assms(3-5), of "cl_send lib" w]) (rule that)
  with this(1) [of "[]"] show ?thesis by (intro that) simp_all
qed

lemma client_answer_next:
  assumes "lib_adds lib" "cl_ready lib r c"
    and "brings hs (int_bytes (int (length body)))" "brings rs body" "length body \<le> 1024"
    and "si_echoCount (sw_server w) + 1 < si_msgNum (sw_server w) * si_clientNum (sw_server w)"
    and "cl_selfEchoCount c + 1 \<noteq> si_msgNum (sw_server w)"
  obtains c' r' where "cl_run lib (Some c) r w (map Readable (hs @ rs)) = Inr (Some c', r', sim_count w, [])"
    "cl_selfEchoCount c' = cl_selfEchoCount c + 1" "cl_ready lib r' c'"
proof -
  obtain s1 r1 where run: "cl_run lib (Some c) r w (map Readable (hs @ rs)) =
      and_then (cl_recv lib (c\<lparr>cn_stream := s1, cl_stat := RECV_BODY\<rparr>) r1 w RECVED body)
        (\<lambda>(c, r, w). Inr (c, r, w, []))"
    and s1: "recv_side (cn_stream c) s1" "reactor_inv r1" "reactor_nfds r1 = reactor_nfds r"
    by (rule client_answered [OF assms(1-5), of w]) (rule that)
  have c: "cl_recvCall c = Some ()" "cl_sendCall c = Some ()" using assms(2) by (simp_all add: cl_ready_def)
  have fd: "0 \<le> st_fd s1" "st_fd s1 < reactor_nfds r1"
    using s1(1,3) assms(2) by (simp_all add: cl_ready_def lev.awaits_def lev.reads_def recv_side_iff)
  obtain s2 r2 where ask: "asyncRecvBytes (lev_add lib) s1 r1 4 (Some ()) = Inr (True, s2, r2)"
    "lev.awaits r2 s2 4 ()"
    by (rule lev.ask_recv [OF lib_adds_ok [OF assms(1)] s1(2) fd four_in_range, of "()"]) (rule that)
  let ?c = "c\<lparr>cn_stream := s2, cl_stat := RECV_HEAD, cl_selfEchoCount := cl_selfEchoCount c + 1\<rparr>"
  have "cl_recv lib (c\<lparr>cn_stream := s1, cl_stat := RECV_BODY\<rparr>) r1 w RECVED body = Inr (Some ?c, r2, sim_count w)"
    using assms(6,7) ask(1) c(1) by (simp add: cl_recvCompleteCallback_def Let_def)
  with run ask(2) c show ?thesis by (intro that [of ?c r2]) (simp_all add: cl_ready_def)
qed

section \<open>Properties\<close>

text \<open>
  Counting the answers. A connection that waits for an answer and receives one, in any pieces,
  counts it once. If it is the last of all connections, the connection is destroyed and the program
  exits; otherwise, if it is the connection's last, the connection stops reading and keeps the
  socket; otherwise it waits for the next answer.
\<close>

theorem client_counts_answer:
  assumes "lib_adds lib" "cl_ready lib r c"
    and "brings hs (int_bytes (int (length body)))" "brings rs body" "length body \<le> 1024"
    and "goal_all = si_msgNum (sw_server w) * si_clientNum (sw_server w)"
    and "all = si_echoCount (sw_server w) + 1" "own = cl_selfEchoCount c + 1"
  shows "if goal_all \<le> all then \<exists>c' r'. cl_run lib (Some c) r w (map Readable (hs @ rs)) =
      and_then (cl_destroy (removeEventHandler lib) c' r' (sim_count w)) (\<lambda>(_, r, w).
        Inr (None, r, w\<lparr>sw_exited := True\<rparr>, [])) \<and> cn_handle c' = cn_handle c
    else \<exists>c' r'. cl_run lib (Some c) r w (map Readable (hs @ rs)) = Inr (Some c', r', sim_count w, []) \<and>
      cl_selfEchoCount c' = own \<and>
      (if own = si_msgNum (sw_server w) then reactor_handler r' (st_fd (cn_stream c), Rd) = None
       else cl_ready lib r' c')"
proof -
  obtain s1 r1 where run: "cl_run lib (Some c) r w (map Readable (hs @ rs)) =
      and_then (cl_recv lib (c\<lparr>cn_stream := s1, cl_stat := RECV_BODY\<rparr>) r1 w RECVED body)
        (\<lambda>(c, r, w). Inr (c, r, w, []))"
    and s1: "reactor_handler r1 = (reactor_handler r)((st_fd (cn_stream c), Rd) := None)"
    by (rule client_answered [OF assms(1-5), of w]) (rule that)
  let ?c = "c\<lparr>cn_stream := s1, cl_stat := RECV_BODY\<rparr>"
  show ?thesis
  proof (cases "goal_all \<le> all")
    case True
    then have "cl_recv lib ?c r1 w RECVED body =
        and_then (cl_destroy (removeEventHandler lib) ?c r1 (sim_count w)) (\<lambda>(_, r, w). Inr (None, r, w\<lparr>sw_exited := True\<rparr>))"
      using assms(6,7) by (simp add: cl_recvCompleteCallback_def Let_def)
    with run have "cl_run lib (Some c) r w (map Readable (hs @ rs)) =
        and_then (cl_destroy (removeEventHandler lib) ?c r1 (sim_count w)) (\<lambda>(_, r, w).
          Inr (None, r, w\<lparr>sw_exited := True\<rparr>, []))"
      by (cases "cl_destroy (removeEventHandler lib) ?c r1 (sim_count w)") auto
    with True show ?thesis by (auto intro!: exI [of _ ?c] exI [of _ r1])
  next
    case False
    show ?thesis
    proof (cases "own = si_msgNum (sw_server w)")
      case True
      have "cl_recv lib ?c r1 w RECVED body = Inr (Some (?c\<lparr>cl_selfEchoCount := own\<rparr>), r1, sim_count w)"
        using False True assms(6-8) by (simp add: cl_recvCompleteCallback_def Let_def)
      with run False True s1 show ?thesis by simp
    next
      case own: False
      have "si_echoCount (sw_server w) + 1 < si_msgNum (sw_server w) * si_clientNum (sw_server w)"
        "cl_selfEchoCount c + 1 \<noteq> si_msgNum (sw_server w)" using False own assms(6-8) by simp_all
      from client_answer_next [OF assms(1-5) this] False own assms(8) show ?thesis by metis
    qed
  qed
qed

definition sim_example :: "(string client_connection, nat, nat) sim_world" where
  "sim_example = \<lparr>sw_service = Some new_NetWorkService,
     sw_server = new_ConcurrenceSimulateServer 2 1935 0, sw_exited = False\<rparr>"

lemma client_example:
  obtains r c where "cl_ready (\<lambda>_ _. True) r (c :: string client_connection)" "cl_selfEchoCount c = 0"
proof -
  let ?sv = "new_NetWorkService :: (string client_connection, nat, nat) service"
  have free: "sw_service sim_example = Some ?sv" "sv_connections ?sv 3 = None"
    by (simp_all add: sim_example_def new_NetWorkService_def)
  have fd: "(3::int) < 2 ^ 31" by simp
  show ?thesis
    by (rule client_accepts [OF lib_adds_True reactor5_start free fd, of "''recv''" "''send''"]) (rule that)
qed

theorem client_counts_answer_witness:
  "\<exists>r (c :: string client_connection) c' r'. cl_ready (\<lambda>_ _. True) r c \<and>
    cl_run (\<lambda>_ _. True) (Some c) r sim_example
      [Readable (Received (int_bytes 2)), Readable (Received ''h''), Readable (Received ''i'')] =
      Inr (Some c', r', sim_count sim_example, []) \<and> cl_selfEchoCount c' = 1 \<and> cl_ready (\<lambda>_ _. True) r' c'"
proof -
  obtain r c where c: "cl_ready (\<lambda>_ _. True) r (c :: string client_connection)" "cl_selfEchoCount c = 0"
    by (rule client_example)
  have "int_bytes 2 \<noteq> []" using length_int_bytes [of 2] by force
  then have b: "brings [Received (int_bytes 2)] (int_bytes (int (length ''hi'')))"
    "brings [Received ''h'', Received ''i''] ''hi''" "length ''hi'' \<le> 1024"
    by (simp_all add: brings_def recv_goes_on_def)
  have "si_msgNum (sw_server sim_example) = 20" "si_clientNum (sw_server sim_example) = 40000"
    "si_echoCount (sw_server sim_example) = 0"
    by (simp_all add: sim_example_def new_ConcurrenceSimulateServer_def new_TcpServer_def
        CLIENT_NUM_def MSG_NUM_EACH_CLIENT_def)
  with client_counts_answer [OF lib_adds_True c(1) b refl refl refl, of sim_example] c
  show ?thesis by (simp del: conn_run.simps) blast
qed

text \<open>The descriptors that are connected at once, in order.\<close>

definition connected_at_once :: "(int \<Rightarrow> int \<times> int \<times> connect_result) \<Rightarrow> int \<Rightarrow> int list" where
  "connected_at_once env i = (case env i of (sockFd, setsockopt, conn) \<Rightarrow>
     if try_connect sockFd setsockopt conn = CONNECT_OK \<and> 0 < sockFd then [sockFd] else [])"

lemma sim_onConnected_accept:
  assumes "accept_run a [fd] = Inr (Some a')" "0 < fd"
  shows "sim_onConnected sv a fd = Inr (Some (sv\<lparr>si_connectedCount := si_connectedCount sv + 1,
    si_bConnectedFirstCount := False\<rparr>, a'))"
  using assms by (cases sv) (auto simp: sim_onConnected_def and_then_Inr_iff split: option.splits)

lemma accept_run_append:
  "accept_run a (xs @ ys) = and_then (accept_run a xs) (\<lambda>ao. case ao of None \<Rightarrow> Inr None | Some a \<Rightarrow> accept_run a ys)"
proof (induction xs arbitrary: a)
  case (Cons x xs)
  show ?case
    by (cases "nas_onAccept a x") (auto simp: Cons.IH split: option.split)
qed simp

lemma sim_connect_step:
  assumes "reactor_inv r" "env i = (sockFd, setsockopt, conn)" "sockFd < reactor_nfds r"
    and "accept_run a (connected_at_once env i) = Inr (Some a')"
  shows "\<exists>c r' outs sv'. asyncConnect (lev_add lib) (self i) sockFd setsockopt conn (new_Connector :: unit connector) r
      ''0.0.0.0'' (Some ()) = Inr (c, r', outs) \<and> sim_calls sv a outs = Inr (Some (sv', a')) \<and>
    si_connectedCount sv' = si_connectedCount sv + int (length (connected_at_once env i)) \<and>
    reactor_inv r' \<and> reactor_nfds r' = reactor_nfds r"
proof (cases "try_connect sockFd setsockopt conn")
  case CONNECT_OK
  then have "0 \<le> sockFd" by (auto simp: try_connect_def split: if_splits)
  show ?thesis
  proof (cases "0 < sockFd")
    case True
    with CONNECT_OK assms(2,4) have "accept_run a [sockFd] = Inr (Some a')"
      by (simp add: connected_at_once_def)
    from sim_onConnected_accept [OF this True, of sv] CONNECT_OK True assms(1,2) show ?thesis
      by (simp add: asyncConnect_def call_connect_def connected_at_once_def)
  qed (use CONNECT_OK assms in \<open>auto simp: asyncConnect_def call_connect_def connected_at_once_def sim_onConnected_def\<close>)
next
  case CONNECTING
  then have fd: "0 \<le> sockFd" by (auto simp: try_connect_def split: if_splits)
  from lev.add_law [OF assms(1) fd assms(3), of lib Wr "self i"] CONNECTING assms show ?thesis
    by (auto simp: asyncConnect_def connected_at_once_def)
next
  case CONNECT_ERR
  with assms show ?thesis
    by (auto simp: asyncConnect_def call_connect_def connected_at_once_def sim_onConnected_def)
qed

lemma sim_connect_loop_run:
  assumes "reactor_inv r" "\<forall>i. fst (env i) < reactor_nfds r"
    and "accept_run a (concat (map (connected_at_once env) [i..n - 1])) = Inr (Some a')"
  shows "\<exists>sv' r'. sim_connect_loop (lev_add lib) self env i n sv a r = Inr (Some (sv', a', r')) \<and>
    si_connectedCount sv' = si_connectedCount sv + int (length (concat (map (connected_at_once env) [i..n - 1])))"
  using assms
proof (induction "nat (n - i)" arbitrary: i sv a r)
  case 0
  then show ?case by (simp add: sim_connect_loop.simps [of _ _ _ i])
next
  case (Suc k)
  then have lt: "i < n" by simp
  obtain fd opt conn where env: "env i = (fd, opt, conn)" by (cases "env i")
  have upto: "[i..n - 1] = i # [i + 1..n - 1]" using lt by (simp add: upto_rec1)
  obtain a1 where a1: "accept_run a (connected_at_once env i) = Inr (Some a1)"
    "accept_run a1 (concat (map (connected_at_once env) [i + 1..n - 1])) = Inr (Some a')"
    using Suc.prems(3) upto by (auto simp: accept_run_append and_then_Inr_iff split: option.splits)
  have fd: "fd < reactor_nfds r" using Suc.prems(2) env by (metis fst_conv)
  obtain c r1 outs sv1 where st: "asyncConnect (lev_add lib) (self i) fd opt conn
      (new_Connector :: unit connector) r ''0.0.0.0'' (Some ()) = Inr (c, r1, outs)"
    "sim_calls sv a outs = Inr (Some (sv1, a1))"
    "si_connectedCount sv1 = si_connectedCount sv + int (length (connected_at_once env i))"
    "reactor_inv r1" "reactor_nfds r1 = reactor_nfds r"
    using sim_connect_step [of r env i fd opt conn a a1 lib self sv, OF Suc.prems(1) env fd a1(1)] by blast
  have k: "k = nat (n - (i + 1))" using Suc.hyps(2) by simp
  have nf: "\<forall>i. fst (env i) < reactor_nfds r1" using Suc.prems(2) st(5) by simp
  obtain sv' r' where "sim_connect_loop (lev_add lib) self env (i + 1) n sv1 a1 r1 = Inr (Some (sv', a', r'))"
    "si_connectedCount sv' = si_connectedCount sv1 +
      int (length (concat (map (connected_at_once env) [i + 1..n - 1])))"
    using Suc.hyps(1) [OF k st(4) nf a1(2), of sv1] by blast
  with lt env st upto show ?case
    by (intro exI [of _ sv'] exI [of _ r']) (simp add: sim_connect_loop.simps [of _ _ _ i])
qed

text \<open>
  The connections of the simulated clients. \<open>onLoop\<close> makes one attempt per client; whatever the
  system calls return, the descriptors that are connected at once are counted and dealt to the work
  services exactly as the accept service deals them, in the order of the attempts, and an attempt
  that fails is dropped without disturbing the others.
\<close>

theorem sim_connects:
  assumes "reactor_inv r" "\<forall>i. fst (env i) < reactor_nfds r" "acceptor_ok a"
    and "fds = concat (map (connected_at_once env) [0..si_clientNum sv - 1])"
    and "\<forall>i < length (ac_workers a). length (worker_items a i) + length fds \<le> crb_cap (it_queue (ac_workers a ! i))"
  shows "\<exists>sv' a' r'. sim_onLoop (lev_add lib) self env sv a r = Inr (Some (sv', a', r')) \<and>
    si_connectedCount sv' = si_connectedCount sv + int (length fds) \<and>
    (\<forall>i < length (ac_workers a). worker_items a' i = worker_items a i @
      map new_NewConnectMessage (dealt (nat (ac_cur a)) (length (ac_workers a)) i fds))"
proof -
  obtain a' where a': "accept_run a fds = Inr (Some a')"
    "\<forall>i < length (ac_workers a). worker_items a' i = worker_items a i @
      map new_NewConnectMessage (dealt (nat (ac_cur a)) (length (ac_workers a)) i fds)"
    using accept_run_dealt [OF assms(3,5)] by blast
  from sim_connect_loop_run [OF assms(1,2) a'(1) [unfolded assms(4)], of lib self sv] a'(2) show ?thesis
    unfolding sim_onLoop_def sim_creatConnections_def assms(4) [symmetric] by blast
qed

theorem sim_connects_witness:
  "\<exists>sv' a' r'. sim_onLoop (lev_add (\<lambda>_ _. True)) (\<lambda>i. show_int i)
      (\<lambda>i. if i = 1 then (4, 0, ConnectRefused) else (3, 0, ConnectDone))
      ((new_ConcurrenceSimulateServer 2 1935 0)\<lparr>si_clientNum := 2\<rparr>)
      (new_NetAcceptService [worker_example, worker_example]) reactor5 = Inr (Some (sv', a', r')) \<and>
    si_connectedCount sv' = 1 \<and> worker_items a' 1 = [new_NewConnectMessage 3]"
proof -
  let ?a = "new_NetAcceptService [worker_example, worker_example]"
  let ?env = "\<lambda>i :: int. if i = 1 then (4, 0, ConnectRefused) else (3 :: int, 0 :: int, ConnectDone)"
  let ?sv = "(new_ConcurrenceSimulateServer 2 1935 0)\<lparr>si_clientNum := 2\<rparr>"
  have w: "crb_inv (it_queue worker_example)" "crb_items (it_queue worker_example) = []"
    "crb_cap (it_queue worker_example) = 49999" "it_eventFd worker_example = 5"
    by (simp_all add: worker_example_def new_InteractiveTask_def MSG_QUEUE_SIZE_def)
  have ok: "acceptor_ok ?a" using w by (simp add: acceptor_ok_def new_NetAcceptService_def)
  have r: "reactor_inv reactor5" "\<forall>i. fst (?env i) < reactor_nfds reactor5"
    using reactor5_start by (auto simp: stream_start_def)
  have "[0..1] = [0, 1 :: int]" by (simp add: upto.simps)
  then have fds: "[3] = concat (map (connected_at_once ?env) [0..si_clientNum ?sv - 1])"
    by (simp add: connected_at_once_def try_connect_def)
  have room: "\<forall>i < length (ac_workers ?a). length (worker_items ?a i) + length [3 :: int] \<le>
      crb_cap (it_queue (ac_workers ?a ! i))"
    using w by (auto simp: worker_items_def new_NetAcceptService_def less_Suc_eq)
  have "si_connectedCount ?sv = 0"
    by (simp add: new_ConcurrenceSimulateServer_def new_TcpServer_def)
  with sim_connects [OF r ok fds room, of "\<lambda>_ _. True" "\<lambda>i. show_int i"] w(2) show ?thesis
    by (auto simp: new_NetAcceptService_def worker_items_def dealt_Cons)
qed

end
