(* ===== verification/LoadEvents.thy ===== *)
theory LoadEvents
  imports EchoServer SimulateServer FrameEvents
begin

text \<open>
  The two ends of a connection between a simulated client and the echo server, one event at a time.
  A client sends the same message again and again, so what each end has sent and received is always a
  beginning of that message repeated; the position of an end is how long these beginnings are.
\<close>

section \<open>A message repeated\<close>

definition repeated :: "string \<Rightarrow> nat \<Rightarrow> string" where
  "repeated f n = map (\<lambda>i. f ! (i mod length f)) [0..<n]"

lemma length_repeated [simp]: "length (repeated f n) = n"
  by (simp add: repeated_def)

lemma repeated_0 [simp]: "repeated f 0 = []"
  by (simp add: repeated_def)

lemma take_repeated: "m \<le> n \<Longrightarrow> take m (repeated f n) = repeated f m"
  by (simp add: repeated_def take_map)

lemma repeated_add:
  assumes "n mod length f + k \<le> length f"
  shows "repeated f (n + k) = repeated f n @ take k (drop (n mod length f) f)"
proof (rule nth_equalityI)
  show "length (repeated f (n + k)) = length (repeated f n @ take k (drop (n mod length f) f))"
    using assms by simp
  fix i assume "i < length (repeated f (n + k))"
  then have i: "i < n + k" by simp
  show "repeated f (n + k) ! i = (repeated f n @ take k (drop (n mod length f) f)) ! i"
  proof (cases "i < n")
    case True
    then show ?thesis by (simp add: repeated_def nth_append)
  next
    case False
    then obtain j where j: "i = n + j" "j < k" using i by (metis add_less_cancel_left le_Suc_ex not_less)
    then have "(n + j) mod length f = n mod length f + j"
      using assms by (metis add.commute add_less_cancel_left less_le_trans mod_add_left_eq mod_less)
    then show ?thesis using j assms by (simp add: repeated_def nth_append)
  qed
qed

lemma repeated_mult: "repeated f (q * length f) = concat (replicate q f)"
proof (induction q)
  case (Suc q)
  have "repeated f (q * length f + length f) = repeated f (q * length f) @ f"
    using repeated_add [of "q * length f" f "length f"] by simp
  moreover have "concat (replicate (Suc q) f) = concat (replicate q f @ [f])"
    by (simp only: replicate_append_same replicate_Suc)
  ultimately show ?case using Suc by (simp add: add.commute)
qed simp

text \<open>The bytes after a beginning, up to the end of a message.\<close>

lemma repeated_next:
  assumes "repeated f n = repeated f m @ bs @ rest" "m mod length f + length bs \<le> length f"
  shows "bs = take (length bs) (drop (m mod length f) f)"
    "repeated f m @ bs = repeated f (m + length bs)"
proof -
  have "length (repeated f n) = m + length bs + length rest" by (simp only: assms(1)) simp
  then have "m + length bs \<le> n" by simp
  from take_repeated [OF this, of f] have "repeated f m @ bs = repeated f (m + length bs)"
    by (simp only: assms(1)) simp
  then show "repeated f m @ bs = repeated f (m + length bs)" .
  with repeated_add [OF assms(2)] show "bs = take (length bs) (drop (m mod length f) f)" by simp
qed

text \<open>Positions in whole messages.\<close>

lemma pos_within:
  fixes D F k N :: nat
  assumes "D mod F + k < F"
  shows "(D + k) div F = D div F" "(D + k) mod F = D mod F + k" "D < N * F \<Longrightarrow> D + k < N * F"
proof -
  obtain q b where D: "D div F = q" "D mod F = b" by blast
  then have "D + k = b + k + q * F" using mod_mult_div_eq [of D F] by (metis add.assoc add.commute mult.commute)
  moreover have "(b + k + q * F) div F = q" "(b + k + q * F) mod F = b + k" using assms D by simp_all
  ultimately show e: "(D + k) div F = D div F" "(D + k) mod F = D mod F + k" using D by (simp_all only:)
  show "D + k < N * F" if "D < N * F"
    using less_mult_imp_div_less [OF that] e(1) assms by (metis div_less_iff_less_mult gr0I not_less0)
qed

lemma pos_whole:
  fixes D F k N :: nat
  assumes "D mod F + k = F" "0 < F"
  shows "D + k = (D div F + 1) * F" "(D + k) div F = D div F + 1" "(D + k) mod F = 0"
    "D < N * F \<Longrightarrow> D + k \<le> N * F"
proof -
  have "D + k = D div F * F + (D mod F + k)" by simp
  then show e: "D + k = (D div F + 1) * F" using assms(1) by simp
  then show "(D + k) div F = D div F + 1" "(D + k) mod F = 0" using assms(2) by (simp_all only:) simp_all
  show "D + k \<le> N * F" if "D < N * F"
    using less_mult_imp_div_less [OF that] unfolding e by (intro mult_le_mono1) simp
qed

lemma pos_last:
  fixes B C F :: nat
  assumes "F dvd B" "C < B" "B \<le> C + F"
  shows "C mod F = C + F - B"
proof -
  have "(C + F - B) mod F = (C + F - B + B) mod F"
    using assms(1) by (metis add.right_neutral dvd_imp_mod_0 mod_add_right_eq)
  moreover have "C + F - B < F" using assms(2,3) by linarith
  ultimately show ?thesis using assms(3) by simp
qed

section \<open>What an event may change in a reactor\<close>

definition only_at :: "int \<Rightarrow> 'cb reactor \<Rightarrow> 'cb reactor \<Rightarrow> bool" where
  "only_at fd r r' \<longleftrightarrow> reactor_inv r' \<and> reactor_nfds r' = reactor_nfds r \<and>
     (\<forall>x. fst x \<noteq> fd \<longrightarrow> reactor_handler r' x = reactor_handler r x)"

section \<open>The end of the echo server\<close>

text \<open>
  The connection has received \<open>B\<close> bytes and sent \<open>C\<close> of the messages \<open>m\<close>: it reads a message with
  all before it answered, or sends the answer to the last one.
\<close>

definition echo_pos :: "'cb reactor \<Rightarrow> 'cb concurrent_connection \<Rightarrow> string \<Rightarrow> nat \<Rightarrow> nat \<Rightarrow> bool" where
  "echo_pos r c m B C \<longleftrightarrow> cc_recvCall c = Some () \<and> cc_sendCall c = Some () \<and>
     (length (frame m) dvd C \<and> C \<le> B \<and> echo.reading r c m (B - C) \<and>
        reactor_handler r (st_fd (cn_stream c), Wr) = None \<or>
      length (frame m) dvd B \<and> C < B \<and> B \<le> C + length (frame m) \<and>
        lev.sending r (cn_stream c) (drop (C + length (frame m) - B) (frame m)) \<and>
        reactor_handler r (st_fd (cn_stream c), Rd) = None)"

lemma echo_pos_start:
  assumes "echo_ready lib r c"
  shows "echo_pos r c m 0 0"
  using assms by (simp add: echo_pos_def echo_ready_def echo.reading_awaits)

lemma echo_reads:
  assumes "lib_adds lib" "echo_pos r c m B C" "0 < length m" "length m \<le> 1020"
    and "reactor_handler r (st_fd (cn_stream c), Rd) \<noteq> None" "recv_goes_on res" "recv_fits (cn_stream c) res"
    and "result_bytes res = take (length (result_bytes res)) (drop (B mod length (frame m)) (frame m))"
  obtains c' r' where "conn_event (lev_add lib) dispatch (cc_recv lib) (cc_send lib) c r w (Readable res) =
      Inr (Some c', r', w, [])"
    "echo_pos r' c' m (B + length (result_bytes res)) C" "st_fd (cn_stream c') = st_fd (cn_stream c)"
    "only_at (st_fd (cn_stream c)) r r'"
proof -
  let ?f = "frame m" and ?fd = "st_fd (cn_stream c)" and ?k = "length (result_bytes res)"
  note ok = lib_adds_ok [OF assms(1)]
  have c: "cc_recvCall c = Some ()" "cc_sendCall c = Some ()" "length ?f dvd C" "C \<le> B"
    "echo.reading r c m (B - C)" "reactor_handler r (?fd, Wr) = None"
    using assms(2,5) by (auto simp: echo_pos_def)
  have fd: "0 \<le> ?fd" "?fd < reactor_nfds r" "B - C < length ?f"
    using c(5) by (simp_all add: echo.reading_def lev.reads_def)
  have B: "B mod length ?f = B - C"
    using c(3,4) fd(3) by (metis le_add_diff_inverse mod_add_left_eq add_0 mod_less dvd_imp_mod_0)
  have len: "length m \<le> 1024" using assms(4) by simp
  from ok c(5) assms(3) len assms(6,7) assms(8) [unfolded B] show ?thesis
  proof (cases rule: echo.reading_event [where sd = "cc_send lib" and w = w])
    case (more c' s' r')
    have same: "cc_recvCall c' = Some ()" "cc_sendCall c' = Some ()" "cn_stream c' = s'"
      using more(2) c by auto
    have s': "st_fd s' = ?fd" using more(4) by (simp add: recv_side_iff)
    have "echo_pos r' c' m (B + ?k) C"
      using same s' more(3,7) c by (simp add: echo_pos_def)
    with more(5-7) same s' show ?thesis by (intro that [OF more(1)]) (simp_all add: only_at_def)
  next
    case (whole s' r')
    have s': "st_fd s' = ?fd" "0 \<le> st_fd s'" "st_fd s' < reactor_nfds r'"
      using whole(4,6) fd by (simp_all add: recv_side_iff)
    have fl: "length ?f \<le> 1024" "?f \<noteq> []" using assms(3,4) by (simp_all add: frame_def)
    obtain s2 r2 where ask: "asyncSendBytes (lev_add lib) s' r' ?f (Some ()) = Inr (True, s2, r2)"
      and s2: "lev.sending r2 s2 ?f" "send_side s' s2" "reactor_inv r2" "reactor_nfds r2 = reactor_nfds r'"
        "reactor_handler r2 = (reactor_handler r')((st_fd s', Wr) \<mapsto> sendOnePackCall s')"
      by (rule lev.sending_ask [OF ok whole(5) s'(2,3) fl]) (rule that)
    let ?c = "c\<lparr>cn_stream := s2, cc_recvBuf := ?f\<rparr>"
    have "pack_frame buf m = Inr ?f" for buf using assms(4) by (intro pack_frame_eq) simp
    then have "cc_recv lib (c\<lparr>cn_stream := s'\<rparr>) r' w RECVED m = Inr (Some ?c, r2, w)"
      using ask c(2) whole(3) by (simp add: cc_recvCompleteCallback_def)
    with whole(1) have ev: "conn_event (lev_add lib) dispatch (cc_recv lib) (cc_send lib) c r w (Readable res) =
        Inr (Some ?c, r2, w, [])" by simp
    have fd2: "st_fd s2 = ?fd" using s2(2) s'(1) by (simp add: send_side_iff)
    have BC: "B + ?k = C + length ?f" using whole(2) c(4) by linarith
    have "echo_pos r2 ?c m (B + ?k) C" unfolding BC
      using c(1-3) fd2 s2(1,5) whole(7) s'(1) by (simp add: echo_pos_def)
    with fd2 s2 whole(6,7) s'(1) show ?thesis by (intro that [OF ev]) (simp_all add: only_at_def)
  qed
qed

lemma echo_writes:
  assumes "lib_adds lib" "echo_pos r c m B C" "0 < length m" "length m \<le> 1020"
    and "reactor_handler r (st_fd (cn_stream c), Wr) \<noteq> None" "send_goes_on res" "send_fits (cn_stream c) res"
  obtains c' r' where "conn_event (lev_add lib) dispatch (cc_recv lib) (cc_send lib) c r w (Writable res) =
      Inr (Some c', r', w, take (result_count res) (drop (C mod length (frame m)) (frame m)))"
    "C mod length (frame m) + result_count res \<le> length (frame m)"
    "echo_pos r' c' m B (C + result_count res)" "st_fd (cn_stream c') = st_fd (cn_stream c)"
    "only_at (st_fd (cn_stream c)) r r'"
proof -
  let ?f = "frame m" and ?fd = "st_fd (cn_stream c)" and ?k = "result_count res"
  let ?left = "drop (C + length ?f - B) ?f"
  note ok = lib_adds_ok [OF assms(1)]
  have c: "cc_recvCall c = Some ()" "cc_sendCall c = Some ()" "length ?f dvd B" "C < B" "B \<le> C + length ?f"
    "lev.sending r (cn_stream c) ?left" "reactor_handler r (?fd, Rd) = None"
    using assms(2,5) by (auto simp: echo_pos_def)
  have fd: "0 \<le> ?fd" "?fd < reactor_nfds r" using c(6) by (simp_all add: lev.sending_def lev.writes_def)
  have C: "C mod length ?f = C + length ?f - B" using c(3-5) by (rule pos_last)
  have left: "length ?left = B - C" using c(4,5) by simp
  from ok c(6) assms(6,7) show ?thesis
  proof (cases rule: lev.sending_event [where sd = "cc_send lib" and rd = "cc_recv lib" and w = w])
    case (more s' r')
    have s': "st_fd s' = ?fd" using more(4) by (simp add: send_side_iff)
    have "drop ?k ?left = drop (C + ?k + length ?f - B) ?f" using c(4,5) by (simp add: ac_simps)
    then have "echo_pos r' (c\<lparr>cn_stream := s'\<rparr>) m B (C + ?k)"
      using more(2,3,7) c left s' by (auto simp: echo_pos_def)
    with more(2,5-7) s' C left c(5) show ?thesis
      by (intro that [OF more(1) [folded C]]) (simp_all add: only_at_def)
  next
    case (whole s' r')
    have s': "st_fd s' = ?fd" "0 \<le> st_fd s'" "st_fd s' < reactor_nfds r'"
      using whole(3,5) fd by (simp_all add: send_side_iff)
    obtain s2 r2 where ask: "asyncRecvBytes (lev_add lib) s' r' 4 (Some ()) = Inr (True, s2, r2)"
      and s2: "lev.awaits r2 s2 4 ()" "recv_side s' s2" "reactor_inv r2" "reactor_nfds r2 = reactor_nfds r'"
        "reactor_handler r2 = (reactor_handler r')((st_fd s', Rd) \<mapsto> recvOnePackCall s')"
      by (rule lev.ask_recv [OF ok whole(4) s'(2,3) four_in_range, of "()"]) (rule that)
    let ?c = "c\<lparr>cn_stream := s2, cc_stat := RECV_HEAD\<rparr>"
    have "cc_send lib (c\<lparr>cn_stream := s'\<rparr>) r' w SENDED = Inr (Some ?c, r2, w)"
      using ask c(1) by (simp add: cc_sendCompleteCallback_def)
    with whole(1) have "conn_event (lev_add lib) dispatch (cc_recv lib) (cc_send lib) c r w (Writable res) =
        Inr (Some ?c, r2, w, ?left)" by simp
    moreover have "take ?k (drop (C mod length ?f) ?f) = ?left"
      unfolding C whole(2) by (rule take_all) (rule order_refl)
    ultimately have ev: "conn_event (lev_add lib) dispatch (cc_recv lib) (cc_send lib) c r w (Writable res) =
        Inr (Some ?c, r2, w, take ?k (drop (C mod length ?f) ?f))" by (simp only:)
    have fd2: "st_fd s2 = ?fd" using s2(2) s'(1) by (simp add: recv_side_iff)
    have BC: "C + ?k = B" using whole(2) left c(4) by simp
    have "echo.reading r2 ?c m 0" using s2(1) c(1) by (simp add: echo.reading_awaits)
    then have "echo_pos r2 ?c m B (C + ?k)" unfolding BC
      using c(1-3) fd2 s2(5) whole(6) s'(1) by (simp add: echo_pos_def)
    moreover have "C mod length ?f + ?k \<le> length ?f" using C BC c(4,5) by linarith
    ultimately show ?thesis using fd2 s2 whole(5,6) s'(1) by (intro that [OF ev]) (simp_all add: only_at_def)
  qed
qed

section \<open>The end of a simulated client\<close>

text \<open>
  The client has sent \<open>A\<close> and received \<open>D\<close> bytes of the messages \<open>m\<close>, and stops after \<open>N\<close> answers:
  it reads until it has them all, and it sends a message, or has stopped after a whole one.
\<close>

definition client_pos :: "'cb reactor \<Rightarrow> 'cb client_connection \<Rightarrow> nat \<Rightarrow> string \<Rightarrow> nat \<Rightarrow> nat \<Rightarrow> bool" where
  "client_pos r c N m A D \<longleftrightarrow> cl_recvCall c = Some () \<and> cl_sendCall c = Some () \<and> cn_handle c = st_fd (cn_stream c) \<and>
     reactor_inv r \<and> 0 < st_fd (cn_stream c) \<and> st_fd (cn_stream c) < reactor_nfds r \<and> st_fd (cn_stream c) < 2 ^ 31 \<and>
     m = client_text (st_fd (cn_stream c)) \<and>
     D \<le> N * length (frame m) \<and> cl_selfEchoCount c = int (D div length (frame m)) \<and>
     (if D = N * length (frame m) then reactor_handler r (st_fd (cn_stream c), Rd) = None
      else simcl.reading r c m (D mod length (frame m))) \<and>
     (lev.sending r (cn_stream c) (drop (A mod length (frame m)) (frame m)) \<or>
      D = N * length (frame m) \<and> length (frame m) dvd A \<and> reactor_handler r (st_fd (cn_stream c), Wr) = None)"

lemma client_pos_text:
  assumes "client_pos r c N m A D"
  shows "0 < length m" "length m \<le> 1020"
  using assms client_text_length [of "st_fd (cn_stream c)"] by (auto simp: client_pos_def)

lemma client_pos_buf [simp]: "client_pos r (c\<lparr>cl_sendBuf := buf\<rparr>) N m A D = client_pos r c N m A D"
  by (simp add: client_pos_def simcl.reading_def)

lemma client_pos_start:
  assumes "cl_ready lib r c" "cl_sends r c (frame (client_text (st_fd (cn_stream c))))" "cl_selfEchoCount c = 0"
    and "cn_handle c = st_fd (cn_stream c)" "0 < st_fd (cn_stream c)" "st_fd (cn_stream c) < 2 ^ 31" "0 < N"
    and "m = client_text (st_fd (cn_stream c))"
  shows "client_pos r c N m 0 0"
proof -
  have ne: "frame m \<noteq> []" using length_frame [of m] by force
  have "simcl.reading r c m 0" using assms(1) by (simp add: simcl.reading_awaits cl_ready_def)
  moreover have "lev.sending r (cn_stream c) (frame m)"
    using assms(2,8) ne by (auto simp: cl_sends_def lev.sending_def)
  moreover have "reactor_inv r" "st_fd (cn_stream c) < reactor_nfds r"
    using assms(2) by (simp_all add: cl_sends_def lev.writes_def)
  ultimately show ?thesis using assms ne by (simp add: client_pos_def cl_ready_def)
qed

text \<open>What is left to show when the stream of a client has sent or received something.\<close>

lemma client_pos_sent:
  assumes "client_pos r c N m A D"
    and "send_side (cn_stream c) s'" "reactor_inv r'" "reactor_nfds r' = reactor_nfds r"
    and "reactor_handler r' (st_fd (cn_stream c), Rd) = reactor_handler r (st_fd (cn_stream c), Rd)"
    and "lev.sending r' s' (drop (A' mod length (frame m)) (frame m)) \<or>
      D = N * length (frame m) \<and> length (frame m) dvd A' \<and> reactor_handler r' (st_fd (cn_stream c), Wr) = None"
  shows "client_pos r' (c\<lparr>cn_stream := s'\<rparr>) N m A' D"
proof -
  have "st_fd s' = st_fd (cn_stream c)" using assms(2) by (simp add: send_side_iff)
  moreover have "simcl.reading r' (c\<lparr>cn_stream := s'\<rparr>) m b" if "simcl.reading r c m b" for b
    by (rule simcl.reading_send_side [OF that assms(2-5)])
  ultimately show ?thesis using assms by (auto simp: client_pos_def split: if_splits)
qed

lemma client_pos_received:
  assumes "client_pos r c N m A D" "lev.sending r (cn_stream c) (drop (A mod length (frame m)) (frame m))"
    and "recv_side (cn_stream c) s'" "reactor_inv r'" "reactor_nfds r' = reactor_nfds r"
    and "reactor_handler r' (st_fd (cn_stream c), Wr) = reactor_handler r (st_fd (cn_stream c), Wr)"
    and "D' \<le> N * length (frame m)" "e = int (D' div length (frame m))"
    and "if D' = N * length (frame m) then reactor_handler r' (st_fd (cn_stream c), Rd) = None
      else simcl.reading r' (c\<lparr>cn_stream := s', cl_stat := st, cl_selfEchoCount := e\<rparr>) m (D' mod length (frame m))"
  shows "client_pos r' (c\<lparr>cn_stream := s', cl_stat := st, cl_selfEchoCount := e\<rparr>) N m A D'"
  using assms lev.sending_recv_side [OF assms(2-6)] by (auto simp: client_pos_def recv_side_iff)

text \<open>A client that has sent a message sends the next one, unless it has its answers.\<close>

lemma client_sends_again:
  assumes "lib_adds lib" "cl_sendCall c = Some ()" "cl_selfEchoCount c \<noteq> si_msgNum (sw_server w)"
    and "reactor_inv r" "0 \<le> st_fd (cn_stream c)" "st_fd (cn_stream c) < reactor_nfds r" "st_fd (cn_stream c) < 2 ^ 31"
    and "f = frame (client_text (st_fd (cn_stream c)))"
  obtains s' r' where
    "cl_send lib c r w SENDED = Inr (Some (c\<lparr>cn_stream := s', cl_sendBuf := f\<rparr>), r', w)"
    "lev.sending r' s' f" "send_side (cn_stream c) s'" "reactor_inv r'" "reactor_nfds r' = reactor_nfds r"
    "reactor_handler r' = (reactor_handler r)((st_fd (cn_stream c), Wr) \<mapsto> sendOnePackCall (cn_stream c))"
proof -
  let ?s = "cn_stream c"
  have m: "0 < length (client_text (st_fd ?s))" "length (client_text (st_fd ?s)) \<le> 1020"
    using client_text_length [OF assms(5,7)] by simp_all
  have f: "length f \<le> 1024" "f \<noteq> []" using m unfolding assms(8) by (simp_all add: frame_def)
  obtain s' r' where ask: "asyncSendBytes (lev_add lib) ?s r f (Some ()) = Inr (True, s', r')"
    and s': "lev.sending r' s' f" "send_side ?s s'" "reactor_inv r'" "reactor_nfds r' = reactor_nfds r"
      "reactor_handler r' = (reactor_handler r)((st_fd ?s, Wr) \<mapsto> sendOnePackCall ?s)"
    by (rule lev.sending_ask [OF lib_adds_ok [OF assms(1)] assms(4-6) f]) (rule that)
  have "pack_frame buf (client_text (st_fd ?s)) = Inr f" for buf
    using m unfolding assms(8) by (intro pack_frame_eq) simp
  then have "cl_send lib c r w SENDED = Inr (Some (c\<lparr>cn_stream := s', cl_sendBuf := f\<rparr>), r', w)"
    using assms(2,3) ask by (simp add: cl_sendCompleteCallback_def getFd_def)
  from this s' show ?thesis by (rule that)
qed

lemma client_whole_sent:
  assumes "lib_adds lib" "client_pos r c N m A D" "si_msgNum (sw_server w) = int N"
    and "send_side (cn_stream c) s'" "reactor_inv r'" "reactor_nfds r' = reactor_nfds r"
    and "reactor_handler r' = (reactor_handler r)((st_fd (cn_stream c), Wr) := None)" "length (frame m) dvd A'"
  obtains c' r2 where "cl_send lib (c\<lparr>cn_stream := s'\<rparr>) r' w SENDED = Inr (Some c', r2, w)"
    "client_pos r2 c' N m A' D" "st_fd (cn_stream c') = st_fd (cn_stream c)" "only_at (st_fd (cn_stream c)) r r2"
proof -
  let ?f = "frame m" and ?fd = "st_fd (cn_stream c)"
  have c: "cl_sendCall c = Some ()" "m = client_text ?fd" "cl_selfEchoCount c = int (D div length ?f)"
    "0 < ?fd" "?fd < reactor_nfds r" "?fd < 2 ^ 31" "D \<le> N * length ?f"
    using assms(2) unfolding client_pos_def by blast+
  have s': "st_fd s' = ?fd" using assms(4) by (simp add: send_side_iff)
  note next_pos = client_pos_sent [OF assms(2)]
  show ?thesis
  proof (cases "cl_selfEchoCount c = int N")
    case True
    then have "D div length ?f = N" using c(3) by simp
    then have "D = N * length ?f" using c(7) div_times_less_eq_dividend [of D "length ?f"] by (metis le_antisym)
    with assms(4-8) have pos: "client_pos r' (c\<lparr>cn_stream := s'\<rparr>) N m A' D"
      by (intro next_pos) simp_all
    have still: "cl_send lib (c\<lparr>cn_stream := s'\<rparr>) r' w SENDED = Inr (Some (c\<lparr>cn_stream := s'\<rparr>), r', w)"
      using True assms(3) by (simp add: cl_sendCompleteCallback_def)
    show ?thesis using pos s' assms(5-7) by (intro that [OF still]) (simp_all add: only_at_def)
  next
    case False
    let ?c = "c\<lparr>cn_stream := s'\<rparr>"
    have own: "cl_sendCall ?c = Some ()" "cl_selfEchoCount ?c \<noteq> si_msgNum (sw_server w)"
      "0 \<le> st_fd (cn_stream ?c)" "st_fd (cn_stream ?c) < reactor_nfds r'" "st_fd (cn_stream ?c) < 2 ^ 31"
      "?f = frame (client_text (st_fd (cn_stream ?c)))" using False assms(3,6) c s' by simp_all
    obtain s2 r2 where again: "cl_send lib ?c r' w SENDED = Inr (Some (c\<lparr>cn_stream := s2, cl_sendBuf := ?f\<rparr>), r2, w)"
      and s2: "lev.sending r2 s2 ?f" "send_side s' s2" "reactor_inv r2" "reactor_nfds r2 = reactor_nfds r'"
        "reactor_handler r2 = (reactor_handler r')((st_fd s', Wr) \<mapsto> sendOnePackCall s')"
      by (rule client_sends_again [OF assms(1) own(1,2) assms(5) own(3-6)]) (rule that, simp_all)
    have side: "send_side (cn_stream c) s2" using assms(4) s2(2) by (rule send_side_trans)
    have "client_pos r2 (c\<lparr>cn_stream := s2\<rparr>) N m A' D"
      using side s2 assms(6-8) s' by (intro next_pos) simp_all
    then show ?thesis using s2(3-5) s' assms(6,7) side
      by (intro that [OF again]) (simp_all add: only_at_def send_side_iff)
  qed
qed

text \<open>The client sends on, whatever has come back, until it has all its answers.\<close>

lemma client_writes:
  assumes "lib_adds lib" "client_pos r c N m A D" "si_msgNum (sw_server w) = int N"
    and "reactor_handler r (st_fd (cn_stream c), Wr) \<noteq> None" "send_goes_on res" "send_fits (cn_stream c) res"
  obtains c' r' where "conn_event (lev_add lib) dispatch (cl_recv lib) (cl_send lib) c r w (Writable res) =
      Inr (Some c', r', w, take (result_count res) (drop (A mod length (frame m)) (frame m)))"
    "A mod length (frame m) + result_count res \<le> length (frame m)"
    "client_pos r' c' N m (A + result_count res) D" "st_fd (cn_stream c') = st_fd (cn_stream c)"
    "only_at (st_fd (cn_stream c)) r r'"
proof -
  let ?f = "frame m" and ?fd = "st_fd (cn_stream c)" and ?k = "result_count res"
  let ?left = "drop (A mod length ?f) ?f"
  have sending: "lev.sending r (cn_stream c) ?left" using assms(2,4) by (auto simp: client_pos_def)
  have F: "0 < length ?f" by simp
  have Amod: "A mod length ?f < length ?f" using F by (rule mod_less_divisor)
  from lib_adds_ok [OF assms(1)] sending assms(5,6) show ?thesis
  proof (cases rule: lev.sending_event [where sd = "cl_send lib" and rd = "cl_recv lib" and w = w])
    case (more s' r')
    have sum: "A mod length ?f + ?k < length ?f" using more(2) Amod unfolding length_drop by linarith
    have "(A + ?k) mod length ?f = A mod length ?f + ?k"
      using sum by (metis mod_add_left_eq mod_less)
    then have "drop ?k ?left = drop ((A + ?k) mod length ?f) ?f" by (simp add: add.commute)
    then have "client_pos r' (c\<lparr>cn_stream := s'\<rparr>) N m (A + ?k) D"
      using more(3-7) by (intro client_pos_sent [OF assms(2)]) simp_all
    with more(2,4-7) show ?thesis
      by (intro that [OF more(1)]) (simp_all add: only_at_def send_side_iff)
  next
    case (whole s' r')
    have k: "A mod length ?f + ?k = length ?f" using whole(2) Amod by simp
    then have dvd: "length ?f dvd A + ?k"
      by (metis dvd_eq_mod_eq_0 mod_add_left_eq mod_self)
    obtain c' r2 where c': "cl_send lib (c\<lparr>cn_stream := s'\<rparr>) r' w SENDED = Inr (Some c', r2, w)"
      "client_pos r2 c' N m (A + ?k) D" "st_fd (cn_stream c') = ?fd" "only_at ?fd r r2"
      by (rule client_whole_sent [OF assms(1-3) whole(3-6) dvd]) (rule that)
    from whole(1,2) c'(1) have "conn_event (lev_add lib) dispatch (cl_recv lib) (cl_send lib) c r w (Writable res) =
        Inr (Some c', r2, w, take ?k ?left)" by simp
    from that [OF this _ c'(2-4)] k show ?thesis by simp
  qed
qed

text \<open>What a client does with a whole answer: the last of all ends the program, its own last leaves it
  as it is, and after any other it waits for the next.\<close>

lemma client_answer_exits:
  assumes "lib_removes lib" "cl_stat c = RECV_BODY" "sw_service w = Some sv"
    and "si_msgNum (sw_server w) * si_clientNum (sw_server w) \<le> si_echoCount (sw_server w) + 1"
    and "reactor_inv r" "0 < st_fd (cn_stream c)" "st_fd (cn_stream c) < reactor_nfds r"
  obtains r' sv' where "cl_recv lib c r w RECVED m =
    Inr (None, r', (sim_count w)\<lparr>sw_service := Some sv', sw_exited := True\<rparr>)"
proof -
  have "\<exists>res. delete_Stream (removeEventHandler lib) (cn_stream c) r = Inr res"
    by (rule delete_Stream_runs [OF assms(1,5)]) (use assms(6,7) in simp_all)
  then obtain x s2 r2 where "delete_Stream (removeEventHandler lib) (cn_stream c) r = Inr (x, s2, r2)" by auto
  then have "cl_recv lib c r w RECVED m =
      Inr (None, r2, (sim_count w)\<lparr>sw_service := Some (removeConnection sv (Connection_getHandle c)), sw_exited := True\<rparr>)"
    using assms(2-4) by (simp add: cl_recvCompleteCallback_def cl_destroy_def Let_def)
  then show ?thesis by (rule that)
qed

lemma client_answer_stops:
  assumes "cl_stat c = RECV_BODY" "cl_selfEchoCount c + 1 = si_msgNum (sw_server w)"
    and "si_echoCount (sw_server w) + 1 < si_msgNum (sw_server w) * si_clientNum (sw_server w)"
  shows "cl_recv lib c r w RECVED m =
    Inr (Some (c\<lparr>cl_selfEchoCount := cl_selfEchoCount c + 1\<rparr>), r, sim_count w)"
  using assms by (simp add: cl_recvCompleteCallback_def Let_def)

lemma client_answer_waits:
  assumes "lib_adds lib" "cl_stat c = RECV_BODY" "cl_recvCall c = Some ()"
    and "cl_selfEchoCount c + 1 \<noteq> si_msgNum (sw_server w)"
    and "si_echoCount (sw_server w) + 1 < si_msgNum (sw_server w) * si_clientNum (sw_server w)"
    and "reactor_inv r" "0 \<le> st_fd (cn_stream c)" "st_fd (cn_stream c) < reactor_nfds r"
  obtains s' r' where "cl_recv lib c r w RECVED m =
      Inr (Some (c\<lparr>cn_stream := s', cl_stat := RECV_HEAD, cl_selfEchoCount := cl_selfEchoCount c + 1\<rparr>), r', sim_count w)"
    "lev.awaits r' s' 4 ()" "recv_side (cn_stream c) s'" "reactor_inv r'" "reactor_nfds r' = reactor_nfds r"
    "reactor_handler r' = (reactor_handler r)((st_fd (cn_stream c), Rd) \<mapsto> recvOnePackCall (cn_stream c))"
proof -
  obtain s' r' where ask: "asyncRecvBytes (lev_add lib) (cn_stream c) r 4 (Some ()) = Inr (True, s', r')"
    and s': "lev.awaits r' s' 4 ()" "recv_side (cn_stream c) s'" "reactor_inv r'" "reactor_nfds r' = reactor_nfds r"
      "reactor_handler r' = (reactor_handler r)((st_fd (cn_stream c), Rd) \<mapsto> recvOnePackCall (cn_stream c))"
    by (rule lev.ask_recv [OF lib_adds_ok [OF assms(1)] assms(6-8) four_in_range, of "()"]) (rule that)
  have "cl_recv lib c r w RECVED m =
      Inr (Some (c\<lparr>cn_stream := s', cl_stat := RECV_HEAD, cl_selfEchoCount := cl_selfEchoCount c + 1\<rparr>), r', sim_count w)"
    using assms(2-5) ask by (simp add: cl_recvCompleteCallback_def Let_def)
  from this s' show ?thesis by (rule that)
qed

text \<open>An answer is counted by the connection and by the server; the last one of all ends the program.\<close>

lemma client_whole_heard:
  assumes "lib_adds lib" "lib_removes lib" "client_pos r c N m A D" "sw_service w = Some sv"
    and "si_msgNum (sw_server w) = int N" "lev.sending r (cn_stream c) (drop (A mod length (frame m)) (frame m))"
    and "recv_side (cn_stream c) s'" "reactor_inv r'" "reactor_nfds r' = reactor_nfds r"
    and "reactor_handler r' = (reactor_handler r)((st_fd (cn_stream c), Rd) := None)" "cl_stat c = RECV_BODY"
    and "D' = (D div length (frame m) + 1) * length (frame m)" "D' \<le> N * length (frame m)"
  obtains (answer) c' r2 where "cl_recv lib (c\<lparr>cn_stream := s'\<rparr>) r' w RECVED m = Inr (Some c', r2, sim_count w)"
      "si_echoCount (sw_server w) + 1 < int N * si_clientNum (sw_server w)"
      "client_pos r2 c' N m A D'" "st_fd (cn_stream c') = st_fd (cn_stream c)" "only_at (st_fd (cn_stream c)) r r2"
  | (last) r2 sv' where "cl_recv lib (c\<lparr>cn_stream := s'\<rparr>) r' w RECVED m =
        Inr (None, r2, (sim_count w)\<lparr>sw_service := Some sv', sw_exited := True\<rparr>)"
      "int N * si_clientNum (sw_server w) \<le> si_echoCount (sw_server w) + 1"
proof -
  let ?f = "frame m" and ?fd = "st_fd (cn_stream c)" and ?c = "c\<lparr>cn_stream := s'\<rparr>"
  let ?own = "int (D div length ?f) + 1"
  have c: "cl_recvCall c = Some ()" "0 < ?fd" "?fd < reactor_nfds r" "cl_selfEchoCount c = int (D div length ?f)"
    using assms(3) by (simp_all add: client_pos_def)
  have fd: "st_fd s' = ?fd" "0 < st_fd (cn_stream ?c)" "st_fd (cn_stream ?c) < reactor_nfds r'"
    using assms(7,9) c(2,3) by (simp_all add: recv_side_iff)
  have F: "0 < length ?f" by simp
  have D': "D' div length ?f = D div length ?f + 1" "D' mod length ?f = 0"
    unfolding assms(12) using F by (metis nonzero_mult_div_cancel_right less_not_refl, simp)
  have mx: "int N * si_clientNum (sw_server w) = si_msgNum (sw_server w) * si_clientNum (sw_server w)"
    using assms(5) by simp
  have stat: "cl_stat ?c = RECV_BODY" "cl_selfEchoCount ?c + 1 = ?own" using assms(11) c(4) by simp_all
  note next_pos = client_pos_received [OF assms(3,6)]
  consider "si_msgNum (sw_server w) * si_clientNum (sw_server w) \<le> si_echoCount (sw_server w) + 1"
    | "si_echoCount (sw_server w) + 1 < si_msgNum (sw_server w) * si_clientNum (sw_server w)" "D' = N * length ?f"
    | "si_echoCount (sw_server w) + 1 < si_msgNum (sw_server w) * si_clientNum (sw_server w)" "D' \<noteq> N * length ?f"
    by linarith
  then show ?thesis
  proof cases
    case 1
    show ?thesis
      by (rule client_answer_exits [OF assms(2) stat(1) assms(4) 1 assms(8) fd(2,3)]) (rule last [OF _ 1 [folded mx]])
  next
    case 2
    have "D div length ?f + 1 = N" using 2(2) F unfolding assms(12) by (metis mult_cancel2 less_not_refl)
    then have own: "cl_selfEchoCount ?c + 1 = si_msgNum (sw_server w)" using stat(2) assms(5) by simp
    have "?c\<lparr>cl_selfEchoCount := ?own\<rparr> = c\<lparr>cn_stream := s', cl_stat := cl_stat c, cl_selfEchoCount := ?own\<rparr>" by simp
    then have "client_pos r' (?c\<lparr>cl_selfEchoCount := ?own\<rparr>) N m A D'"
      using assms(7-10,13) 2(2) D' by (simp only:) (intro next_pos, simp_all)
    with fd(1) assms(8-10) show ?thesis
      by (intro answer [OF client_answer_stops [OF stat(1) own 2(1), unfolded stat(2)] 2(1) [folded mx]])
        (simp_all add: only_at_def)
  next
    case 3
    have "D div length ?f + 1 \<noteq> N" using 3(2) assms(12) by blast
    then have own: "cl_selfEchoCount ?c + 1 \<noteq> si_msgNum (sw_server w)" unfolding stat(2) assms(5) by linarith
    have recv: "cl_recvCall ?c = Some ()" using c(1) by simp
    let ?c2 = "\<lambda>s2. c\<lparr>cn_stream := s2, cl_stat := RECV_HEAD, cl_selfEchoCount := ?own\<rparr>"
    obtain s2 r2 where next_head: "cl_recv lib ?c r' w RECVED m = Inr (Some (?c2 s2), r2, sim_count w)"
      and s2: "lev.awaits r2 s2 4 ()" "recv_side s' s2" "reactor_inv r2" "reactor_nfds r2 = reactor_nfds r'"
        "reactor_handler r2 = (reactor_handler r')((st_fd s', Rd) \<mapsto> recvOnePackCall s')"
      by (rule client_answer_waits [OF assms(1) stat(1) recv own 3(1) assms(8) less_imp_le [OF fd(2)] fd(3)],
          unfold stat(2)) (rule that, simp_all)
    have side: "recv_side (cn_stream c) s2" using assms(7) s2(2) by (rule recv_side_trans)
    have rd: "simcl.reading r2 (?c2 s2) m 0" using s2(1) c(1) by (simp add: simcl.reading_awaits)
    have "client_pos r2 (?c2 s2) N m A D'"
      using side s2 assms(9,10,13) fd(1) 3(2) D' rd by (intro next_pos) simp_all
    with s2(3-5) assms(9,10) fd(1) side show ?thesis
      by (intro answer [OF next_head 3(1) [folded mx]]) (simp_all add: only_at_def recv_side_iff)
  qed
qed

lemma client_reads:
  assumes "lib_adds lib" "lib_removes lib" "client_pos r c N m A D" "sw_service w = Some sv"
    and "si_msgNum (sw_server w) = int N"
    and "reactor_handler r (st_fd (cn_stream c), Rd) \<noteq> None" "recv_goes_on res" "recv_fits (cn_stream c) res"
    and "result_bytes res = take (length (result_bytes res)) (drop (D mod length (frame m)) (frame m))"
  obtains (more) c' r' where "conn_event (lev_add lib) dispatch (cl_recv lib) (cl_send lib) c r w (Readable res) =
        Inr (Some c', r', w, [])"
      "D mod length (frame m) + length (result_bytes res) < length (frame m)"
      "client_pos r' c' N m A (D + length (result_bytes res))" "st_fd (cn_stream c') = st_fd (cn_stream c)"
      "only_at (st_fd (cn_stream c)) r r'"
  | (answer) c' r' where "conn_event (lev_add lib) dispatch (cl_recv lib) (cl_send lib) c r w (Readable res) =
        Inr (Some c', r', sim_count w, [])"
      "D mod length (frame m) + length (result_bytes res) = length (frame m)"
      "si_echoCount (sw_server w) + 1 < int N * si_clientNum (sw_server w)"
      "client_pos r' c' N m A (D + length (result_bytes res))" "st_fd (cn_stream c') = st_fd (cn_stream c)"
      "only_at (st_fd (cn_stream c)) r r'"
  | (last) r' sv' where "conn_event (lev_add lib) dispatch (cl_recv lib) (cl_send lib) c r w (Readable res) =
        Inr (None, r', (sim_count w)\<lparr>sw_service := Some sv', sw_exited := True\<rparr>, [])"
      "D mod length (frame m) + length (result_bytes res) = length (frame m)"
      "int N * si_clientNum (sw_server w) \<le> si_echoCount (sw_server w) + 1"
      "D + length (result_bytes res) \<le> N * length (frame m)"
proof -
  let ?f = "frame m" and ?fd = "st_fd (cn_stream c)" and ?k = "length (result_bytes res)"
  note ok = lib_adds_ok [OF assms(1)] and m = client_pos_text [OF assms(3)]
  have c: "cl_recvCall c = Some ()" "D \<noteq> N * length ?f" "simcl.reading r c m (D mod length ?f)"
    "lev.sending r (cn_stream c) (drop (A mod length ?f) ?f)" "0 < ?fd" "?fd < reactor_nfds r"
    "cl_selfEchoCount c = int (D div length ?f)"
    using assms(3,6) by (auto simp: client_pos_def split: if_splits)
  have D: "D < N * length ?f" using c(2) assms(3) unfolding client_pos_def by (metis le_neq_implies_less)
  have F: "0 < length ?f" by simp
  note next_pos = client_pos_received [OF assms(3) c(4)]
  have len: "length m \<le> 1024" using m by simp
  from ok c(3) m(1) len assms(7-9) show ?thesis
  proof (cases rule: simcl.reading_event [where sd = "cl_send lib" and w = w])
    case (more c' s' r')
    have less: "D mod length ?f + ?k < length ?f" using more(3) by (simp add: simcl.reading_def)
    note e = pos_within [OF less] pos_within(3) [OF less D]
    have "c\<lparr>cn_stream := s'\<rparr> = c\<lparr>cn_stream := s', cl_stat := cl_stat c, cl_selfEchoCount := cl_selfEchoCount c\<rparr>"
      "c\<lparr>cn_stream := s', cl_stat := RECV_BODY\<rparr> =
        c\<lparr>cn_stream := s', cl_stat := RECV_BODY, cl_selfEchoCount := cl_selfEchoCount c\<rparr>" by simp_all
    with more(2) obtain st where
      c': "c' = c\<lparr>cn_stream := s', cl_stat := st, cl_selfEchoCount := cl_selfEchoCount c\<rparr>" by blast
    have "client_pos r' c' N m A (D + ?k)" unfolding c'
      by (rule next_pos) (use more(3-7) c(7) e c' in simp_all)
    with less c' more(4-7) show ?thesis
      by (intro that(1) [OF more(1)]) (simp_all add: only_at_def recv_side_iff)
  next
    case (whole s' r')
    have k: "D mod length ?f + ?k = length ?f" using whole(2) .
    note e = pos_whole [OF k F] pos_whole(4) [OF k F D]
    from assms(1-5) c(4) whole(4-7,3) e(1) e(5) show ?thesis
    proof (cases rule: client_whole_heard)
      case (answer c' r2)
      from answer(1) whole(1) have "conn_event (lev_add lib) dispatch (cl_recv lib) (cl_send lib) c r w (Readable res) =
        Inr (Some c', r2, sim_count w, [])" by simp
      from that(2) [OF this k answer(2-5)] show ?thesis .
    next
      case (last r2 sv')
      from last(1) whole(1) have "conn_event (lev_add lib) dispatch (cl_recv lib) (cl_send lib) c r w (Readable res) =
        Inr (None, r2, (sim_count w)\<lparr>sw_service := Some sv', sw_exited := True\<rparr>, [])" by simp
      from that(3) [OF this k last(2) e(5)] show ?thesis .
    qed
  qed
qed

end
