(* ===== verification/LoadSystem.thy ===== *)
theory LoadSystem
  imports LoadEvents "HOL-Library.Sublist"
begin

text \<open>
  The load test as a whole: \<open>ConcurrenceSimulateServer\<close> with its connected sockets on one side,
  \<open>ConcurrenceEchoServer\<close> on the other, and the network between them. The events of all connections,
  at both ends, are interleaved in any order; a socket takes at most \<open>K\<close> bytes its peer has not
  read. Here are the steps, the invariant they keep, and how much they leave to do.
\<close>

section \<open>The state\<close>

text \<open>An end of a connection: accepted but not yet given to \<open>onConnection\<close>, a connection object, or
  deleted.\<close>

datatype 'c endpoint = Unopened | Open 'c | Deleted

definition endpoint_of :: "'c option \<Rightarrow> 'c endpoint" where
  "endpoint_of co = (case co of None \<Rightarrow> Deleted | Some c \<Rightarrow> Open c)"

text \<open>
  A TCP connection between descriptor \<open>lk_fd\<close> of a work service of the simulator and descriptor
  \<open>lk_peerFd\<close> of a work service of the echo server, with all that its two ends have given to the
  network and taken from it; the bytes on the way are those given and not yet taken.
\<close>

record 'cb link =
  lk_service :: nat
  lk_fd :: int
  lk_peer :: nat
  lk_peerFd :: int
  lk_client :: "'cb client_connection endpoint"
  lk_echo :: "'cb concurrent_connection endpoint"
  lk_said :: string
  lk_taken :: string
  lk_echoed :: string
  lk_heard :: string

definition lk_up :: "'cb link \<Rightarrow> string" where
  "lk_up l = drop (length (lk_taken l)) (lk_said l)"

definition lk_down :: "'cb link \<Rightarrow> string" where
  "lk_down l = drop (length (lk_heard l)) (lk_echoed l)"

text \<open>The work services of both programs, by their index, each with its reactor.\<close>

record ('cb, 'k) load =
  ld_server :: simulator
  ld_exited :: bool
  ld_clients :: "nat \<Rightarrow> 'cb reactor \<times> ('cb client_connection, 'k, unit) service"
  ld_echoes :: "nat \<Rightarrow> 'cb reactor \<times> ('cb concurrent_connection, 'k, unit) service"
  ld_links :: "'cb link list"

section \<open>The steps\<close>

text \<open>
  What \<open>recv\<close> and \<open>send\<close> may return on a socket with the bytes \<open>inbox\<close> to read and \<open>out\<close> bytes on
  the way to the peer: a part of the inbox, a number of bytes for which there is room, or that the
  call is to be tried again.
\<close>

fun socket_allows :: "nat \<Rightarrow> string \<Rightarrow> nat \<Rightarrow> ('cb, unit) stream \<Rightarrow> io_event \<Rightarrow> bool" where
  "socket_allows K inbox out s (Readable res) \<longleftrightarrow> recv_goes_on res \<and> recv_fits s res \<and> prefix (result_bytes res) inbox"
| "socket_allows K inbox out s (Writable res) \<longleftrightarrow> send_goes_on res \<and> send_fits s res \<and> out + result_count res \<le> K"

fun ev_bytes :: "io_event \<Rightarrow> string" where
  "ev_bytes (Readable res) = result_bytes res"
| "ev_bytes (Writable res) = []"

text \<open>Whether an event moves bytes.\<close>

fun ev_moves :: "io_event \<Rightarrow> bool" where
  "ev_moves (Readable res) \<longleftrightarrow> result_bytes res \<noteq> []"
| "ev_moves (Writable res) \<longleftrightarrow> result_count res \<noteq> 0"

definition sim_world_of :: "('cb, 'k) load \<Rightarrow> ('cb client_connection, 'k, unit) service \<Rightarrow>
    ('cb client_connection, 'k, unit) sim_world" where
  "sim_world_of s sv = \<lparr>sw_service = Some sv, sw_server = ld_server s, sw_exited = False\<rparr>"

text \<open>
  A step is labelled with whether it gets anything done: a service calls \<open>onConnection\<close> for a socket,
  or handles an event of one of its connections. After \<open>exit\<close> there are no steps.
\<close>

inductive load_step :: "libevent \<Rightarrow> (int \<Rightarrow> 'cb) \<Rightarrow> (int \<Rightarrow> 'cb) \<Rightarrow> nat \<Rightarrow> bool \<Rightarrow> ('cb, 'k) load \<Rightarrow> ('cb, 'k) load \<Rightarrow> bool"
  for lib rc sc K where
  client_opens: "\<not> ld_exited s \<Longrightarrow> i < length (ld_links s) \<Longrightarrow> l = ld_links s ! i \<Longrightarrow> lk_client l = Unopened \<Longrightarrow>
    ld_clients s (lk_service l) = (r, sv) \<Longrightarrow>
    sim_onConnection (lev_add lib) (removeEventHandler lib) (new_Stream (lk_fd l) (rc (lk_fd l)) (sc (lk_fd l))) r
      (sim_world_of s sv) = Inr (co, r', w) \<Longrightarrow> sw_service w = Some sv' \<Longrightarrow>
    load_step lib rc sc K True s (s\<lparr>ld_server := sw_server w, ld_exited := sw_exited w,
      ld_clients := (ld_clients s)(lk_service l := (r', sv')),
      ld_links := (ld_links s)[i := l\<lparr>lk_client := endpoint_of co\<rparr>]\<rparr>)"
| client_event: "\<not> ld_exited s \<Longrightarrow> i < length (ld_links s) \<Longrightarrow> l = ld_links s ! i \<Longrightarrow> lk_client l = Open c \<Longrightarrow>
    ld_clients s (lk_service l) = (r, sv) \<Longrightarrow> reactor_handler r (lk_fd l, ev_dir ev) \<noteq> None \<Longrightarrow>
    socket_allows K (lk_down l) (length (lk_up l)) (cn_stream c) ev \<Longrightarrow>
    conn_event (lev_add lib) dispatch (cl_recv lib) (cl_send lib) c r (sim_world_of s sv) ev =
      Inr (co, r', w, bytes) \<Longrightarrow> sw_service w = Some sv' \<Longrightarrow>
    load_step lib rc sc K (ev_moves ev) s (s\<lparr>ld_server := sw_server w, ld_exited := sw_exited w,
      ld_clients := (ld_clients s)(lk_service l := (r', sv')),
      ld_links := (ld_links s)[i := l\<lparr>lk_client := endpoint_of co, lk_heard := lk_heard l @ ev_bytes ev,
        lk_said := lk_said l @ bytes\<rparr>]\<rparr>)"
| echo_opens: "\<not> ld_exited s \<Longrightarrow> i < length (ld_links s) \<Longrightarrow> l = ld_links s ! i \<Longrightarrow> lk_echo l = Unopened \<Longrightarrow>
    ld_echoes s (lk_peer l) = (r, sv) \<Longrightarrow>
    echo_onConnection (lev_add lib) (removeEventHandler lib)
      (new_Stream (lk_peerFd l) (rc (lk_peerFd l)) (sc (lk_peerFd l))) r (Some sv) = Inr (co, r', Some sv') \<Longrightarrow>
    load_step lib rc sc K True s (s\<lparr>ld_echoes := (ld_echoes s)(lk_peer l := (r', sv')),
      ld_links := (ld_links s)[i := l\<lparr>lk_echo := endpoint_of co\<rparr>]\<rparr>)"
| echo_event: "\<not> ld_exited s \<Longrightarrow> i < length (ld_links s) \<Longrightarrow> l = ld_links s ! i \<Longrightarrow> lk_echo l = Open c \<Longrightarrow>
    ld_echoes s (lk_peer l) = (r, sv) \<Longrightarrow> reactor_handler r (lk_peerFd l, ev_dir ev) \<noteq> None \<Longrightarrow>
    socket_allows K (lk_up l) (length (lk_down l)) (cn_stream c) ev \<Longrightarrow>
    conn_event (lev_add lib) dispatch (cc_recv lib) (cc_send lib) c r (Some sv) ev =
      Inr (co, r', Some sv', bytes) \<Longrightarrow>
    load_step lib rc sc K (ev_moves ev) s (s\<lparr>ld_echoes := (ld_echoes s)(lk_peer l := (r', sv')),
      ld_links := (ld_links s)[i := l\<lparr>lk_echo := endpoint_of co, lk_taken := lk_taken l @ ev_bytes ev,
        lk_echoed := lk_echoed l @ bytes\<rparr>]\<rparr>)"

text \<open>The sockets are connected, and nothing has been sent; \<open>ends\<close> gives the service and the
  descriptor at both ends of each.\<close>

definition new_link :: "nat \<times> int \<times> nat \<times> int \<Rightarrow> 'cb link" where
  "new_link = (\<lambda>(k, fd, p, pfd). \<lparr>lk_service = k, lk_fd = fd, lk_peer = p, lk_peerFd = pfd,
     lk_client = Unopened, lk_echo = Unopened, lk_said = [], lk_taken = [], lk_echoed = [], lk_heard = []\<rparr>)"

definition load_init :: "simulator \<Rightarrow> (nat \<Rightarrow> 'cb reactor \<times> ('cb client_connection, 'k, unit) service) \<Rightarrow>
    (nat \<Rightarrow> 'cb reactor \<times> ('cb concurrent_connection, 'k, unit) service) \<Rightarrow> (nat \<times> int \<times> nat \<times> int) list \<Rightarrow>
    ('cb, 'k) load" where
  "load_init si clients echoes ends =
     \<lparr>ld_server = si, ld_exited = False, ld_clients = clients, ld_echoes = echoes, ld_links = map new_link ends\<rparr>"

section \<open>The invariant\<close>

definition lk_frame :: "'cb link \<Rightarrow> string" where
  "lk_frame l = frame (client_text (lk_fd l))"

text \<open>Everything said, taken, echoed and heard is a beginning of the message repeated, none is ahead of
  what it comes from, and none is far behind.\<close>

definition hist_ok :: "nat \<Rightarrow> nat \<Rightarrow> 'cb link \<Rightarrow> bool" where
  "hist_ok N K l \<longleftrightarrow> (let F = length (lk_frame l); A = length (lk_said l); B = length (lk_taken l);
       C = length (lk_echoed l); D = length (lk_heard l) in
     lk_said l = repeated (lk_frame l) A \<and> lk_taken l = repeated (lk_frame l) B \<and>
     lk_echoed l = repeated (lk_frame l) C \<and> lk_heard l = repeated (lk_frame l) D \<and>
     B \<le> A \<and> A \<le> B + K \<and> C \<le> B \<and> B \<le> C + F \<and> D \<le> C \<and> C \<le> D + K \<and> D \<le> N * F)"

text \<open>A socket that is not opened yet is free at its service.\<close>

definition sock_free :: "'cb reactor \<times> ('c, 'k, 'd) service \<Rightarrow> int \<Rightarrow> bool" where
  "sock_free = (\<lambda>(r, sv) fd. reactor_inv r \<and> 0 < fd \<and> fd < reactor_nfds r \<and> reactor_handler r (fd, Rd) = None \<and>
     reactor_handler r (fd, Wr) = None \<and> sv_connections sv fd = None)"

definition client_ok :: "nat \<Rightarrow> 'cb reactor \<times> ('cb client_connection, 'k, unit) service \<Rightarrow> 'cb link \<Rightarrow> bool" where
  "client_ok N x l \<longleftrightarrow> lk_fd l < 2 ^ 31 \<and> (case lk_client l of
       Unopened \<Rightarrow> sock_free x (lk_fd l) \<and> lk_said l = [] \<and> lk_heard l = []
     | Open c \<Rightarrow> st_fd (cn_stream c) = lk_fd l \<and>
         client_pos (fst x) c N (client_text (lk_fd l)) (length (lk_said l)) (length (lk_heard l))
     | Deleted \<Rightarrow> False)"

definition echo_ok :: "'cb reactor \<times> ('cb concurrent_connection, 'k, unit) service \<Rightarrow> 'cb link \<Rightarrow> bool" where
  "echo_ok x l \<longleftrightarrow> (case lk_echo l of
       Unopened \<Rightarrow> sock_free x (lk_peerFd l) \<and> lk_taken l = [] \<and> lk_echoed l = []
     | Open c \<Rightarrow> st_fd (cn_stream c) = lk_peerFd l \<and>
         echo_pos (fst x) c (client_text (lk_fd l)) (length (lk_taken l)) (length (lk_echoed l))
     | Deleted \<Rightarrow> False)"

definition lk_at :: "'cb link \<Rightarrow> nat \<times> int" where "lk_at l = (lk_service l, lk_fd l)"
definition lk_peerAt :: "'cb link \<Rightarrow> nat \<times> int" where "lk_peerAt l = (lk_peer l, lk_peerFd l)"

definition lk_answers :: "'cb link \<Rightarrow> nat" where
  "lk_answers l = length (lk_heard l) div length (lk_frame l)"

definition load_inv :: "nat \<Rightarrow> nat \<Rightarrow> ('cb, 'k) load \<Rightarrow> bool" where
  "load_inv N K s \<longleftrightarrow> si_msgNum (ld_server s) = int N \<and> si_clientNum (ld_server s) = int (length (ld_links s)) \<and>
     si_echoCount (ld_server s) = int (sum_list (map lk_answers (ld_links s))) \<and>
     distinct (map lk_at (ld_links s)) \<and> distinct (map lk_peerAt (ld_links s)) \<and>
     (\<forall>l \<in> set (ld_links s). hist_ok N K l) \<and>
     (if ld_exited s then sum_list (map lk_answers (ld_links s)) = N * length (ld_links s)
      else sum_list (map lk_answers (ld_links s)) < N * length (ld_links s) \<and>
        (\<forall>l \<in> set (ld_links s). client_ok N (ld_clients s (lk_service l)) l \<and> echo_ok (ld_echoes s (lk_peer l)) l))"

subsection \<open>What a step leaves alone\<close>

lemma stream_only_at:
  assumes "only_at fd r r'"
  shows "fd \<noteq> st_fd (cn_stream c) \<Longrightarrow> echo.reading r c m b \<Longrightarrow> echo.reading r' c m b"
    "fd \<noteq> st_fd (cn_stream c') \<Longrightarrow> simcl.reading r c' m b \<Longrightarrow> simcl.reading r' c' m b"
    "fd \<noteq> st_fd s \<Longrightarrow> lev.sending r s left \<Longrightarrow> lev.sending r' s left"
  using assms
  by (auto simp: echo.reading_def simcl.reading_def lev.reads_def lev.sending_def lev.writes_def only_at_def)

lemma echo_pos_only_at:
  assumes "echo_pos r c m B C" "only_at fd r r'" "fd \<noteq> st_fd (cn_stream c)"
  shows "echo_pos r' c m B C"
proof -
  have "reactor_handler r' (st_fd (cn_stream c), d) = reactor_handler r (st_fd (cn_stream c), d)" for d
    using assms(2,3) by (simp add: only_at_def)
  with assms(1,3) stream_only_at [OF assms(2)] show ?thesis unfolding echo_pos_def by metis
qed

lemma client_pos_only_at:
  assumes "client_pos r c N m A D" "only_at fd r r'" "fd \<noteq> st_fd (cn_stream c)"
  shows "client_pos r' c N m A D"
proof -
  have "reactor_handler r' (st_fd (cn_stream c), d) = reactor_handler r (st_fd (cn_stream c), d)" for d
    using assms(2,3) by (simp add: only_at_def)
  moreover have "reactor_inv r'" "reactor_nfds r' = reactor_nfds r" using assms(2) by (simp_all add: only_at_def)
  ultimately show ?thesis
    using assms(1,3) stream_only_at(2,3) [OF assms(2)]
    unfolding client_pos_def by metis
qed

lemma sock_free_frame:
  assumes "sock_free (r, sv) h" "only_at fd r r'" "fd \<noteq> h" "dom (sv_connections sv') \<subseteq> insert fd (dom (sv_connections sv))"
  shows "sock_free (r', sv') h"
  using assms by (auto simp: sock_free_def only_at_def)

lemma client_ok_frame:
  assumes "client_ok N (r, sv) l" "only_at fd r r'" "fd \<noteq> lk_fd l"
    and "dom (sv_connections sv') \<subseteq> insert fd (dom (sv_connections sv))"
  shows "client_ok N (r', sv') l"
  using assms sock_free_frame [OF _ assms(2-4)] client_pos_only_at [OF _ assms(2)]
  by (auto simp: client_ok_def split: endpoint.splits)

lemma echo_ok_frame:
  assumes "echo_ok (r, sv) l" "only_at fd r r'" "fd \<noteq> lk_peerFd l"
    and "dom (sv_connections sv') \<subseteq> insert fd (dom (sv_connections sv))"
  shows "echo_ok (r', sv') l"
  using assms sock_free_frame [OF _ assms(2-4)] echo_pos_only_at [OF _ assms(2)]
  by (auto simp: echo_ok_def split: endpoint.splits)

lemma in_set_update:
  assumes "x \<in> set (xs[i := y])"
  obtains "x = y" | k where "k < length xs" "k \<noteq> i" "x = xs ! k"
proof -
  obtain k where "k < length xs" "x = xs[i := y] ! k" using assms by (auto simp: in_set_conv_nth)
  then show ?thesis using that by (cases "k = i") simp_all
qed

lemma distinct_map_nth:
  "distinct (map f xs) \<Longrightarrow> k < length xs \<Longrightarrow> i < length xs \<Longrightarrow> k \<noteq> i \<Longrightarrow> f (xs ! k) \<noteq> f (xs ! i)"
  by (metis length_map nth_eq_iff_index_eq nth_map)

lemma map_update_same: "f y = f (xs ! i) \<Longrightarrow> map f (xs[i := y]) = map f xs"
  by (metis list_update_id map_update)

lemma sum_answers_update:
  assumes "i < length ls"
  shows "sum_list (map lk_answers (ls[i := l])) + lk_answers (ls ! i) = sum_list (map lk_answers ls) + lk_answers l"
proof -
  have "lk_answers (ls ! i) \<le> sum_list (map lk_answers ls)"
    using assms elem_le_sum_list [of i "map lk_answers ls"] by simp
  with assms show ?thesis by (simp add: map_update sum_list_update)
qed

text \<open>A step of a client's end, unless it ends the program, and a step of the other end.\<close>

lemma load_inv_client:
  assumes inv: "load_inv N K s" "\<not> ld_exited s" and i: "i < length (ld_links s)" "l = ld_links s ! i"
    and service: "ld_clients s (lk_service l) = (r, sv)" "only_at (lk_fd l) r r'"
      "dom (sv_connections sv') \<subseteq> insert (lk_fd l) (dom (sv_connections sv))"
    and l': "l' = l\<lparr>lk_client := e, lk_heard := h, lk_said := t\<rparr>" "hist_ok N K l'" "client_ok N (r', sv') l'"
    and si: "si_msgNum si = si_msgNum (ld_server s)" "si_clientNum si = si_clientNum (ld_server s)"
      "si_echoCount si + int (lk_answers l) = si_echoCount (ld_server s) + int (lk_answers l')"
      "si_echoCount si < int N * si_clientNum si"
  shows "load_inv N K (s\<lparr>ld_server := si, ld_exited := False,
    ld_clients := (ld_clients s)(lk_service l := (r', sv')), ld_links := (ld_links s)[i := l']\<rparr>)"
proof -
  let ?ls = "ld_links s" and ?cl = "(ld_clients s)(lk_service l := (r', sv'))"
  have d: "distinct (map lk_at ?ls)" "distinct (map lk_peerAt ?ls)" using inv(1) by (simp_all add: load_inv_def)
  have same: "map lk_at (?ls[i := l']) = map lk_at ?ls" "map lk_peerAt (?ls[i := l']) = map lk_peerAt ?ls"
    using i l'(1) by (simp_all add: map_update_same lk_at_def lk_peerAt_def)
  have old: "client_ok N (ld_clients s (lk_service x)) x" "echo_ok (ld_echoes s (lk_peer x)) x" if "x \<in> set ?ls" for x
    using inv that by (simp_all add: load_inv_def)
  have count: "si_echoCount si = int (sum_list (map lk_answers (?ls[i := l'])))"
    using sum_answers_update [OF i(1), of l'] si(3) i(2) inv(1) by (simp add: load_inv_def)
  have "client_ok N (?cl (lk_service x)) x \<and> echo_ok (ld_echoes s (lk_peer x)) x" if "x \<in> set (?ls[i := l'])" for x
    using that
  proof (cases rule: in_set_update)
    case 1
    have "echo_ok (ld_echoes s (lk_peer l)) l" using old(2) i by simp
    with 1 l' show ?thesis by (cases "lk_echo l") (simp_all add: echo_ok_def)
  next
    case (2 k)
    have x: "x \<in> set ?ls" using 2 by simp
    have "lk_at x \<noteq> lk_at l" using distinct_map_nth [OF d(1) 2(1) i(1) 2(2)] 2(3) i(2) by simp
    then have "lk_service x = lk_service l \<Longrightarrow> lk_fd l \<noteq> lk_fd x" by (auto simp: lk_at_def)
    with old [OF x] service client_ok_frame [OF _ service(2) _ service(3)] show ?thesis
      by (cases "lk_service x = lk_service l") auto
  qed
  moreover have "hist_ok N K x" if "x \<in> set (?ls[i := l'])" for x
    using that by (cases rule: in_set_update) (use inv(1) l'(2) in \<open>auto simp: load_inv_def\<close>)
  moreover have "sum_list (map lk_answers (?ls[i := l'])) < N * length ?ls"
    using count si(2,4) inv(1) by (simp add: load_inv_def) (metis of_nat_less_iff of_nat_mult)
  ultimately show ?thesis using inv(1) si count d same by (simp add: load_inv_def)
qed

lemma load_inv_echo:
  assumes inv: "load_inv N K s" "\<not> ld_exited s" and i: "i < length (ld_links s)" "l = ld_links s ! i"
    and service: "ld_echoes s (lk_peer l) = (r, sv)" "only_at (lk_peerFd l) r r'"
      "dom (sv_connections sv') \<subseteq> insert (lk_peerFd l) (dom (sv_connections sv))"
    and l': "l' = l\<lparr>lk_echo := e, lk_taken := h, lk_echoed := t\<rparr>" "hist_ok N K l'" "echo_ok (r', sv') l'"
  shows "load_inv N K (s\<lparr>ld_echoes := (ld_echoes s)(lk_peer l := (r', sv')), ld_links := (ld_links s)[i := l']\<rparr>)"
proof -
  let ?ls = "ld_links s" and ?ec = "(ld_echoes s)(lk_peer l := (r', sv'))"
  have d: "distinct (map lk_at ?ls)" "distinct (map lk_peerAt ?ls)" using inv(1) by (simp_all add: load_inv_def)
  have same: "map lk_at (?ls[i := l']) = map lk_at ?ls" "map lk_peerAt (?ls[i := l']) = map lk_peerAt ?ls"
    "map lk_answers (?ls[i := l']) = map lk_answers ?ls"
    using i l'(1) by (simp_all add: map_update_same lk_at_def lk_peerAt_def lk_answers_def lk_frame_def)
  have old: "client_ok N (ld_clients s (lk_service x)) x" "echo_ok (ld_echoes s (lk_peer x)) x" if "x \<in> set ?ls" for x
    using inv that by (simp_all add: load_inv_def)
  have "client_ok N (ld_clients s (lk_service x)) x \<and> echo_ok (?ec (lk_peer x)) x" if "x \<in> set (?ls[i := l'])" for x
    using that
  proof (cases rule: in_set_update)
    case 1
    have "client_ok N (ld_clients s (lk_service l)) l" using old(1) i by simp
    with 1 l' show ?thesis by (cases "lk_client l") (simp_all add: client_ok_def)
  next
    case (2 k)
    have x: "x \<in> set ?ls" using 2 by simp
    have "lk_peerAt x \<noteq> lk_peerAt l" using distinct_map_nth [OF d(2) 2(1) i(1) 2(2)] 2(3) i(2) by simp
    then have "lk_peer x = lk_peer l \<Longrightarrow> lk_peerFd l \<noteq> lk_peerFd x" by (auto simp: lk_peerAt_def)
    with old [OF x] service echo_ok_frame [OF _ service(2) _ service(3)] show ?thesis
      by (cases "lk_peer x = lk_peer l") auto
  qed
  moreover have "hist_ok N K x" if "x \<in> set (?ls[i := l'])" for x
    using that by (cases rule: in_set_update) (use inv(1) l'(2) in \<open>auto simp: load_inv_def\<close>)
  ultimately show ?thesis using inv d same by (simp add: load_inv_def)
qed

subsection \<open>The histories\<close>

lemma hist_ok_ends [simp]:
  "hist_ok N K (l\<lparr>lk_client := e\<rparr>) = hist_ok N K l" "hist_ok N K (l\<lparr>lk_echo := e'\<rparr>) = hist_ok N K l"
  by (simp_all add: hist_ok_def lk_frame_def)

lemma lk_frame_ends [simp]:
  "lk_frame (l\<lparr>lk_client := e\<rparr>) = lk_frame l" "lk_frame (l\<lparr>lk_echo := e'\<rparr>) = lk_frame l"
  "lk_frame (l\<lparr>lk_said := a\<rparr>) = lk_frame l" "lk_frame (l\<lparr>lk_taken := a\<rparr>) = lk_frame l"
  "lk_frame (l\<lparr>lk_echoed := a\<rparr>) = lk_frame l" "lk_frame (l\<lparr>lk_heard := a\<rparr>) = lk_frame l"
  by (simp_all add: lk_frame_def)

lemma hist_okD:
  assumes "hist_ok N K l"
  shows "lk_said l = repeated (lk_frame l) (length (lk_said l))" "lk_taken l = repeated (lk_frame l) (length (lk_taken l))"
    "lk_echoed l = repeated (lk_frame l) (length (lk_echoed l))" "lk_heard l = repeated (lk_frame l) (length (lk_heard l))"
    "length (lk_taken l) \<le> length (lk_said l)" "length (lk_said l) \<le> length (lk_taken l) + K"
    "length (lk_echoed l) \<le> length (lk_taken l)" "length (lk_taken l) \<le> length (lk_echoed l) + length (lk_frame l)"
    "length (lk_heard l) \<le> length (lk_echoed l)" "length (lk_echoed l) \<le> length (lk_heard l) + K"
    "length (lk_heard l) \<le> N * length (lk_frame l)"
  using assms unfolding hist_ok_def Let_def by blast+

text \<open>What comes out of the network is what was given to it.\<close>

lemma next_bytes:
  assumes "src = repeated f (length src)" "dst = repeated f (length dst)" "length dst \<le> length src"
    and "prefix bs (drop (length dst) src)" "length dst mod length f + length bs \<le> length f"
  shows "bs = take (length bs) (drop (length dst mod length f) f)" "dst @ bs = repeated f (length dst + length bs)"
    "length dst + length bs \<le> length src"
proof -
  obtain rest where rest: "drop (length dst) src = bs @ rest" using assms(4) by (auto simp: prefix_def)
  have "take (length dst) src = dst" using take_repeated [OF assms(3), of f] assms(1,2) by metis
  then have src: "src = dst @ bs @ rest" using append_take_drop_id [of "length dst" src] rest by simp
  then have "repeated f (length src) = repeated f (length dst) @ bs @ rest" using assms(1,2) by metis
  from repeated_next [OF this assms(5)] assms(2)
  show "bs = take (length bs) (drop (length dst mod length f) f)" "dst @ bs = repeated f (length dst + length bs)"
    by metis+
  have "length src = length dst + length bs + length rest" by (subst src) simp
  then show "length dst + length bs \<le> length src" by simp
qed

lemma up_next:
  assumes "hist_ok N K l" "prefix bs (lk_up l)"
    and "length (lk_taken l) mod length (lk_frame l) + length bs \<le> length (lk_frame l)"
  shows "bs = take (length bs) (drop (length (lk_taken l) mod length (lk_frame l)) (lk_frame l))"
    "lk_taken l @ bs = repeated (lk_frame l) (length (lk_taken l) + length bs)"
    "length (lk_taken l) + length bs \<le> length (lk_said l)"
  using next_bytes [OF hist_okD(1,2,5) [OF assms(1)] assms(2) [unfolded lk_up_def] assms(3)] by blast+

lemma down_next:
  assumes "hist_ok N K l" "prefix bs (lk_down l)"
    and "length (lk_heard l) mod length (lk_frame l) + length bs \<le> length (lk_frame l)"
  shows "bs = take (length bs) (drop (length (lk_heard l) mod length (lk_frame l)) (lk_frame l))"
    "lk_heard l @ bs = repeated (lk_frame l) (length (lk_heard l) + length bs)"
    "length (lk_heard l) + length bs \<le> length (lk_echoed l)"
  using next_bytes [OF hist_okD(3,4,9) [OF assms(1)] assms(2) [unfolded lk_down_def] assms(3)] by blast+

text \<open>The four ways bytes move.\<close>

lemma hist_hear:
  assumes "hist_ok N K l" "prefix bs (lk_down l)"
    and "length (lk_heard l) mod length (lk_frame l) + length bs \<le> length (lk_frame l)"
    and "length (lk_heard l) + length bs \<le> N * length (lk_frame l)"
  shows "hist_ok N K (l\<lparr>lk_heard := lk_heard l @ bs\<rparr>)"
  using hist_okD [OF assms(1)] down_next [OF assms(1-3)] assms(4) by (simp add: hist_ok_def)

lemma hist_say:
  assumes "hist_ok N K l" "length (lk_said l) mod length (lk_frame l) + n \<le> length (lk_frame l)"
    and "bs = take n (drop (length (lk_said l) mod length (lk_frame l)) (lk_frame l))"
    and "length (lk_up l) + n \<le> K"
  shows "hist_ok N K (l\<lparr>lk_said := lk_said l @ bs\<rparr>)"
proof -
  have "lk_said l @ bs = repeated (lk_frame l) (length (lk_said l) + n)"
    using hist_okD(1) [OF assms(1)] repeated_add [OF assms(2)] assms(3) by metis
  moreover have "length bs = n" using assms(2,3) by simp
  ultimately show ?thesis using hist_okD [OF assms(1)] assms(4) by (simp add: hist_ok_def lk_up_def)
qed

lemma hist_take:
  assumes "hist_ok N K l" "prefix bs (lk_up l)"
    and "length (lk_taken l) mod length (lk_frame l) + length bs \<le> length (lk_frame l)"
    and "length (lk_taken l) + length bs \<le> length (lk_echoed l) + length (lk_frame l)"
  shows "hist_ok N K (l\<lparr>lk_taken := lk_taken l @ bs\<rparr>)"
  using hist_okD [OF assms(1)] up_next [OF assms(1-3)] assms(4) by (simp add: hist_ok_def)

lemma hist_echo:
  assumes "hist_ok N K l" "length (lk_echoed l) mod length (lk_frame l) + n \<le> length (lk_frame l)"
    and "bs = take n (drop (length (lk_echoed l) mod length (lk_frame l)) (lk_frame l))"
    and "length (lk_down l) + n \<le> K" "length (lk_echoed l) + n \<le> length (lk_taken l)"
  shows "hist_ok N K (l\<lparr>lk_echoed := lk_echoed l @ bs\<rparr>)"
proof -
  have "lk_echoed l @ bs = repeated (lk_frame l) (length (lk_echoed l) + n)"
    using hist_okD(3) [OF assms(1)] repeated_add [OF assms(2)] assms(3) by metis
  moreover have "length bs = n" using assms(2,3) by simp
  ultimately show ?thesis using hist_okD [OF assms(1)] assms(4,5) by (simp add: hist_ok_def lk_down_def)
qed

subsection \<open>Every event of a registered handler has a result, and keeps the invariant\<close>

lemma load_inv_exit:
  assumes "load_inv N K s" "\<not> ld_exited s" "i < length (ld_links s)" "l = ld_links s ! i"
    and "hist_ok N K l'" "lk_at l' = lk_at l" "lk_peerAt l' = lk_peerAt l" "lk_answers l' = lk_answers l + 1"
    and "si_msgNum si = si_msgNum (ld_server s)" "si_clientNum si = si_clientNum (ld_server s)"
    and "si_echoCount si = si_echoCount (ld_server s) + 1" "int N * si_clientNum si \<le> si_echoCount si"
  shows "load_inv N K (s\<lparr>ld_server := si, ld_exited := True, ld_clients := cl, ld_links := (ld_links s)[i := l']\<rparr>)"
proof -
  let ?ls = "ld_links s"
  have same: "map lk_at (?ls[i := l']) = map lk_at ?ls" "map lk_peerAt (?ls[i := l']) = map lk_peerAt ?ls"
    using assms(3-7) by (simp_all add: map_update_same)
  have sum: "sum_list (map lk_answers (?ls[i := l'])) = sum_list (map lk_answers ?ls) + 1"
    using sum_answers_update [OF assms(3), of l'] assms(4,8) by simp
  have "int (N * length ?ls) \<le> int (sum_list (map lk_answers ?ls) + 1)"
    using assms(1,10-12) by (simp add: load_inv_def)
  then have "N * length ?ls \<le> sum_list (map lk_answers ?ls) + 1" by (simp only: of_nat_le_iff)
  moreover have "sum_list (map lk_answers ?ls) < N * length ?ls" using assms(1,2) by (simp add: load_inv_def)
  ultimately have "sum_list (map lk_answers (?ls[i := l'])) = N * length ?ls" using sum by simp
  moreover have "hist_ok N K x" if "x \<in> set (?ls[i := l'])" for x
    using that by (cases rule: in_set_update) (use assms(1,5) in \<open>auto simp: load_inv_def\<close>)
  moreover have "si_echoCount si = int (sum_list (map lk_answers (?ls[i := l'])))"
    using assms(1,11) sum by (simp add: load_inv_def)
  ultimately show ?thesis using assms(1,9,10) same by (simp add: load_inv_def)
qed

lemma client_open:
  assumes "load_inv N K s" "\<not> ld_exited s" "i < length (ld_links s)" "l = ld_links s ! i" "lk_client l = Open c"
    and "ld_clients s (lk_service l) = (r, sv)"
  shows "hist_ok N K l" "st_fd (cn_stream c) = lk_fd l" "lk_fd l < 2 ^ 31"
    "client_pos r c N (client_text (lk_fd l)) (length (lk_said l)) (length (lk_heard l))"
proof -
  have "l \<in> set (ld_links s)" using assms(3,4) by simp
  then have "hist_ok N K l \<and> client_ok N (r, sv) l" using assms(1,2,6) by (auto simp: load_inv_def)
  then show "hist_ok N K l" "st_fd (cn_stream c) = lk_fd l" "lk_fd l < 2 ^ 31"
    "client_pos r c N (client_text (lk_fd l)) (length (lk_said l)) (length (lk_heard l))"
    using assms(5) by (simp_all add: client_ok_def)
qed

lemma client_read_effect:
  assumes lib: "lib_adds lib" "lib_removes lib" and inv: "load_inv N K s" "\<not> ld_exited s"
    and l: "i < length (ld_links s)" "l = ld_links s ! i" "lk_client l = Open c"
    and sv: "ld_clients s (lk_service l) = (r, sv)" "reactor_handler r (lk_fd l, Rd) \<noteq> None"
    and res: "recv_goes_on res" "recv_fits (cn_stream c) res" "prefix (result_bytes res) (lk_down l)"
  obtains co r' w sv' where
    "conn_event (lev_add lib) dispatch (cl_recv lib) (cl_send lib) c r (sim_world_of s sv) (Readable res) =
      Inr (co, r', w, [])" "sw_service w = Some sv'"
    "load_inv N K (s\<lparr>ld_server := sw_server w, ld_exited := sw_exited w,
      ld_clients := (ld_clients s)(lk_service l := (r', sv')),
      ld_links := (ld_links s)[i := l\<lparr>lk_client := endpoint_of co, lk_heard := lk_heard l @ result_bytes res\<rparr>]\<rparr>)"
proof -
  let ?F = "length (lk_frame l)" and ?D = "length (lk_heard l)" and ?k = "length (result_bytes res)"
  let ?m = "client_text (lk_fd l)" and ?w = "sim_world_of s sv"
  let ?l = "\<lambda>e. l\<lparr>lk_client := e, lk_heard := lk_heard l @ result_bytes res\<rparr>"
  let ?s = "\<lambda>si x r sv e. s\<lparr>ld_server := si, ld_exited := x, ld_clients := (ld_clients s)(lk_service l := (r, sv)),
    ld_links := (ld_links s)[i := ?l e]\<rparr>"
  note c = client_open [OF inv l sv(1)]
  have f: "lk_frame l = frame ?m" "0 < ?F" by (simp_all add: lk_frame_def)
  have rd: "simcl.reading r c ?m (?D mod ?F)" "?D < N * ?F"
    using c(2,4) sv(2) unfolding client_pos_def f(1) by (metis le_neq_implies_less)+
  have fits: "?D mod ?F + ?k \<le> ?F" using simcl.reading_fits [OF rd(1) res(2)] by (simp add: f(1))
  note bs = down_next [OF c(1) res(3) fits]
  have w: "sw_service ?w = Some sv" "si_msgNum (sw_server ?w) = int N" "sw_server ?w = ld_server s" "\<not> sw_exited ?w"
    using inv(1) by (simp_all add: sim_world_of_def load_inv_def)
  have h: "reactor_handler r (st_fd (cn_stream c), Rd) \<noteq> None" using sv(2) c(2) by simp
  have count: "si_echoCount (ld_server s) < int N * si_clientNum (ld_server s)"
    using inv by (simp add: load_inv_def) (metis of_nat_less_iff of_nat_mult)
  have ans: "lk_answers (?l e) = (?D + ?k) div ?F" "lk_answers l = ?D div ?F" for e
    by (simp_all add: lk_answers_def lk_frame_def)
  have hist: "hist_ok N K (?l e)" if "?D + ?k \<le> N * ?F" for e
    using hist_hear [OF c(1) res(3) fits that] by (simp add: hist_ok_def lk_frame_def)
  note keeps = load_inv_client [OF inv l(1,2) sv(1), where t = "lk_said l"]
  from lib c(4) w(1,2) h res(1,2) bs(1) [unfolded f(1)] show ?thesis
  proof (cases rule: client_reads)
    case (more c' r')
    note e = pos_within [OF more(2) [folded f(1)]]
    have "client_ok N (r', sv) (?l (Open c'))" using more(3,4) c(2,3) by (simp add: client_ok_def)
    then have "load_inv N K (?s (ld_server s) False r' sv (Open c'))"
      using more(5) c(2) count hist [OF less_imp_le [OF e(3) [OF rd(2)]]] ans e(1) by (intro keeps) auto
    then show ?thesis using that [OF more(1) w(1)] w(3,4) by (simp add: endpoint_of_def)
  next
    case (answer c' r')
    note e = pos_whole [OF answer(2) [folded f(1)] f(2)]
    have "client_ok N (r', sv) (?l (Open c'))" using answer(4,5) c(2,3) by (simp add: client_ok_def)
    then have "load_inv N K (?s (sw_server (sim_count ?w)) False r' sv (Open c'))"
      using answer(3,6) c(2) w(3) hist [OF e(4) [OF rd(2)]] ans e(2) by (intro keeps) auto
    then show ?thesis using that [OF answer(1)] w(1,4) by (simp add: endpoint_of_def)
  next
    case (last r' sv')
    note e = pos_whole [OF last(2) [folded f(1)] f(2)]
    have "load_inv N K (?s (sw_server (sim_count ?w)) True r' sv' Deleted)"
      using last(3) w(3) hist [OF e(4) [OF rd(2)]] ans e(2)
      by (intro load_inv_exit [OF inv l(1,2)]) (simp_all add: lk_at_def lk_peerAt_def)
    then show ?thesis using that [OF last(1)] by (simp add: endpoint_of_def)
  qed
qed

lemma client_write_effect:
  assumes lib: "lib_adds lib" and inv: "load_inv N K s" "\<not> ld_exited s"
    and l: "i < length (ld_links s)" "l = ld_links s ! i" "lk_client l = Open c"
    and sv: "ld_clients s (lk_service l) = (r, sv)" "reactor_handler r (lk_fd l, Wr) \<noteq> None"
    and res: "send_goes_on res" "send_fits (cn_stream c) res" "length (lk_up l) + result_count res \<le> K"
  obtains c' r' bytes where
    "conn_event (lev_add lib) dispatch (cl_recv lib) (cl_send lib) c r (sim_world_of s sv) (Writable res) =
      Inr (Some c', r', sim_world_of s sv, bytes)" "length bytes = result_count res"
    "load_inv N K (s\<lparr>ld_server := ld_server s, ld_exited := False,
      ld_clients := (ld_clients s)(lk_service l := (r', sv)),
      ld_links := (ld_links s)[i := l\<lparr>lk_client := Open c', lk_said := lk_said l @ bytes\<rparr>]\<rparr>)"
proof -
  let ?F = "length (lk_frame l)" and ?A = "length (lk_said l)" and ?n = "result_count res"
  let ?bs = "take ?n (drop (?A mod ?F) (lk_frame l))"
  note c = client_open [OF inv l sv(1)]
  have f: "lk_frame l = frame (client_text (lk_fd l))" by (simp add: lk_frame_def)
  have w: "si_msgNum (sw_server (sim_world_of s sv)) = int N" using inv(1) by (simp add: sim_world_of_def load_inv_def)
  have h: "reactor_handler r (st_fd (cn_stream c), Wr) \<noteq> None" using sv(2) c(2) by simp
  have count: "si_echoCount (ld_server s) < int N * si_clientNum (ld_server s)"
    using inv by (simp add: load_inv_def) (metis of_nat_less_iff of_nat_mult)
  obtain c' r' where ev: "conn_event (lev_add lib) dispatch (cl_recv lib) (cl_send lib) c r (sim_world_of s sv) (Writable res) =
      Inr (Some c', r', sim_world_of s sv, ?bs)" "?A mod ?F + ?n \<le> ?F"
    and pos: "client_pos r' c' N (client_text (lk_fd l)) (?A + ?n) (length (lk_heard l))"
      "st_fd (cn_stream c') = st_fd (cn_stream c)" "only_at (st_fd (cn_stream c)) r r'"
    by (rule client_writes [OF lib c(4) w h res(1,2)]) (unfold f [symmetric], rule that)
  have len: "length ?bs = ?n" using ev(2) by simp
  have "hist_ok N K (l\<lparr>lk_client := Open c', lk_said := lk_said l @ ?bs\<rparr>)"
    using hist_say [OF c(1) ev(2) refl res(3)] by (simp add: hist_ok_def lk_frame_def)
  moreover have "client_ok N (r', sv) (l\<lparr>lk_client := Open c', lk_said := lk_said l @ ?bs\<rparr>)"
    using pos c(2,3) len by (simp add: client_ok_def)
  moreover have "lk_answers (l\<lparr>lk_client := Open c', lk_said := lk_said l @ ?bs\<rparr>) = lk_answers l"
    by (simp add: lk_answers_def lk_frame_def)
  ultimately have "load_inv N K (s\<lparr>ld_server := ld_server s, ld_exited := False,
      ld_clients := (ld_clients s)(lk_service l := (r', sv)),
      ld_links := (ld_links s)[i := l\<lparr>lk_client := Open c', lk_said := lk_said l @ ?bs\<rparr>]\<rparr>)"
    using pos(3) c(2) count by (intro load_inv_client [OF inv l(1,2) sv(1), where h = "lk_heard l"]) auto
  with ev(1) len show ?thesis by (rule that)
qed

lemma echo_open:
  assumes "load_inv N K s" "\<not> ld_exited s" "i < length (ld_links s)" "l = ld_links s ! i" "lk_echo l = Open c"
    and "ld_echoes s (lk_peer l) = (r, sv)"
  shows "hist_ok N K l" "st_fd (cn_stream c) = lk_peerFd l"
    "echo_pos r c (client_text (lk_fd l)) (length (lk_taken l)) (length (lk_echoed l))"
    "0 < length (client_text (lk_fd l))" "length (client_text (lk_fd l)) \<le> 1020"
proof -
  have "l \<in> set (ld_links s)" using assms(3,4) by simp
  then have ok: "hist_ok N K l \<and> client_ok N (ld_clients s (lk_service l)) l \<and> echo_ok (r, sv) l"
    using assms(1,2,6) by (auto simp: load_inv_def)
  then show "hist_ok N K l" "st_fd (cn_stream c) = lk_peerFd l"
    "echo_pos r c (client_text (lk_fd l)) (length (lk_taken l)) (length (lk_echoed l))"
    using assms(5) by (simp_all add: echo_ok_def)
  have "0 \<le> lk_fd l" "lk_fd l < 2 ^ 31"
    using ok by (auto simp: client_ok_def sock_free_def client_pos_def split: endpoint.splits prod.splits)
  then show "0 < length (client_text (lk_fd l))" "length (client_text (lk_fd l)) \<le> 1020"
    by (rule client_text_length)+
qed

lemma echo_read_effect:
  assumes lib: "lib_adds lib" and inv: "load_inv N K s" "\<not> ld_exited s"
    and l: "i < length (ld_links s)" "l = ld_links s ! i" "lk_echo l = Open c"
    and sv: "ld_echoes s (lk_peer l) = (r, sv)" "reactor_handler r (lk_peerFd l, Rd) \<noteq> None"
    and res: "recv_goes_on res" "recv_fits (cn_stream c) res" "prefix (result_bytes res) (lk_up l)"
  obtains c' r' where
    "conn_event (lev_add lib) dispatch (cc_recv lib) (cc_send lib) c r (Some sv) (Readable res) =
      Inr (Some c', r', Some sv, [])"
    "load_inv N K (s\<lparr>ld_echoes := (ld_echoes s)(lk_peer l := (r', sv)),
      ld_links := (ld_links s)[i := l\<lparr>lk_echo := Open c', lk_taken := lk_taken l @ result_bytes res\<rparr>]\<rparr>)"
proof -
  let ?F = "length (lk_frame l)" and ?B = "length (lk_taken l)" and ?C = "length (lk_echoed l)"
    and ?k = "length (result_bytes res)"
  note c = echo_open [OF inv l sv(1)]
  have f: "lk_frame l = frame (client_text (lk_fd l))" by (simp add: lk_frame_def)
  have h: "reactor_handler r (st_fd (cn_stream c), Rd) \<noteq> None" using sv(2) c(2) by simp
  have rd: "?F dvd ?C" "?C \<le> ?B" "echo.reading r c (client_text (lk_fd l)) (?B - ?C)"
    using c(3) h unfolding echo_pos_def f by blast+
  have room: "?B - ?C + ?k \<le> ?F" using echo.reading_fits [OF rd(3) res(2)] by (simp add: f)
  have less: "?B - ?C < ?F" using rd(3) by (simp add: echo.reading_def f)
  have "?B mod ?F = (?B - ?C + ?C) mod ?F" using rd(2) by simp
  also have "\<dots> = ?B - ?C" using rd(1) less by (metis add.right_neutral dvd_imp_mod_0 mod_add_right_eq mod_less)
  finally have fits: "?B mod ?F + ?k \<le> ?F" using room by simp
  note bs = up_next [OF c(1) res(3) fits]
  obtain c' r' where ev: "conn_event (lev_add lib) dispatch (cc_recv lib) (cc_send lib) c r (Some sv) (Readable res) =
      Inr (Some c', r', Some sv, [])"
    and pos: "echo_pos r' c' (client_text (lk_fd l)) (?B + ?k) ?C" "st_fd (cn_stream c') = st_fd (cn_stream c)"
      "only_at (st_fd (cn_stream c)) r r'"
    by (rule echo_reads [OF lib c(3-5) h res(1,2) bs(1) [unfolded f], of "Some sv"]) (rule that)
  have "?B + ?k \<le> ?C + ?F" using room rd(2) by linarith
  then have "hist_ok N K (l\<lparr>lk_echo := Open c', lk_taken := lk_taken l @ result_bytes res\<rparr>)"
    using hist_take [OF c(1) res(3) fits] by (simp add: hist_ok_def lk_frame_def)
  moreover have "echo_ok (r', sv) (l\<lparr>lk_echo := Open c', lk_taken := lk_taken l @ result_bytes res\<rparr>)"
    using pos c(2) by (simp add: echo_ok_def)
  ultimately have "load_inv N K (s\<lparr>ld_echoes := (ld_echoes s)(lk_peer l := (r', sv)),
      ld_links := (ld_links s)[i := l\<lparr>lk_echo := Open c', lk_taken := lk_taken l @ result_bytes res\<rparr>]\<rparr>)"
    using pos(3) c(2) by (intro load_inv_echo [OF inv l(1,2) sv(1), where t = "lk_echoed l"]) auto
  with ev show ?thesis by (rule that)
qed

lemma echo_write_effect:
  assumes lib: "lib_adds lib" and inv: "load_inv N K s" "\<not> ld_exited s"
    and l: "i < length (ld_links s)" "l = ld_links s ! i" "lk_echo l = Open c"
    and sv: "ld_echoes s (lk_peer l) = (r, sv)" "reactor_handler r (lk_peerFd l, Wr) \<noteq> None"
    and res: "send_goes_on res" "send_fits (cn_stream c) res" "length (lk_down l) + result_count res \<le> K"
  obtains c' r' bytes where
    "conn_event (lev_add lib) dispatch (cc_recv lib) (cc_send lib) c r (Some sv) (Writable res) =
      Inr (Some c', r', Some sv, bytes)" "length bytes = result_count res"
    "load_inv N K (s\<lparr>ld_echoes := (ld_echoes s)(lk_peer l := (r', sv)),
      ld_links := (ld_links s)[i := l\<lparr>lk_echo := Open c', lk_echoed := lk_echoed l @ bytes\<rparr>]\<rparr>)"
proof -
  let ?F = "length (lk_frame l)" and ?B = "length (lk_taken l)" and ?C = "length (lk_echoed l)"
    and ?n = "result_count res"
  let ?bs = "take ?n (drop (?C mod ?F) (lk_frame l))"
  note c = echo_open [OF inv l sv(1)]
  have f: "lk_frame l = frame (client_text (lk_fd l))" by (simp add: lk_frame_def)
  have h: "reactor_handler r (st_fd (cn_stream c), Wr) \<noteq> None" using sv(2) c(2) by simp
  have wr: "?C < ?B" "?B \<le> ?C + ?F" "lev.sending r (cn_stream c) (drop (?C + ?F - ?B) (lk_frame l))"
    using c(3) h unfolding echo_pos_def f by blast+
  have "int ?n \<le> needSendLen (cn_stream c)"
    using res(2) lev.sending_left [OF wr(3)] by (cases res) simp_all
  then have n: "?C + ?n \<le> ?B" using lev.sending_left [OF wr(3)] wr(1,2) by simp
  obtain c' r' where ev: "conn_event (lev_add lib) dispatch (cc_recv lib) (cc_send lib) c r (Some sv) (Writable res) =
      Inr (Some c', r', Some sv, ?bs)" "?C mod ?F + ?n \<le> ?F"
    and pos: "echo_pos r' c' (client_text (lk_fd l)) ?B (?C + ?n)" "st_fd (cn_stream c') = st_fd (cn_stream c)"
      "only_at (st_fd (cn_stream c)) r r'"
    by (rule echo_writes [OF lib c(3-5) h res(1,2), of "Some sv"]) (unfold f [symmetric], rule that)
  have len: "length ?bs = ?n" using ev(2) by simp
  have "hist_ok N K (l\<lparr>lk_echo := Open c', lk_echoed := lk_echoed l @ ?bs\<rparr>)"
    using hist_echo [OF c(1) ev(2) refl res(3) n] by (simp add: hist_ok_def lk_frame_def)
  moreover have "echo_ok (r', sv) (l\<lparr>lk_echo := Open c', lk_echoed := lk_echoed l @ ?bs\<rparr>)"
    using pos c(2) len by (simp add: echo_ok_def)
  ultimately have "load_inv N K (s\<lparr>ld_echoes := (ld_echoes s)(lk_peer l := (r', sv)),
      ld_links := (ld_links s)[i := l\<lparr>lk_echo := Open c', lk_echoed := lk_echoed l @ ?bs\<rparr>]\<rparr>)"
    using pos(3) c(2) by (intro load_inv_echo [OF inv l(1,2) sv(1), where h = "lk_taken l"]) auto
  with ev(1) len show ?thesis by (rule that)
qed

text \<open>A socket that is given to \<open>onConnection\<close> gets a connection.\<close>

lemma client_end_opens:
  assumes lib: "lib_adds lib" and inv: "load_inv N K s" "\<not> ld_exited s" "0 < N"
    and l: "i < length (ld_links s)" "l = ld_links s ! i" "lk_client l = Unopened"
    and sv: "ld_clients s (lk_service l) = (r, sv)"
  obtains c r' w sv' where
    "sim_onConnection (lev_add lib) (removeEventHandler lib) (new_Stream (lk_fd l) (rc (lk_fd l)) (sc (lk_fd l))) r
      (sim_world_of s sv) = Inr (Some c, r', w)" "sw_service w = Some sv'" "\<not> sw_exited w"
    "load_inv N K (s\<lparr>ld_server := sw_server w, ld_exited := sw_exited w,
      ld_clients := (ld_clients s)(lk_service l := (r', sv')),
      ld_links := (ld_links s)[i := l\<lparr>lk_client := Open c\<rparr>]\<rparr>)"
proof -
  let ?w = "sim_world_of s sv"
  have "l \<in> set (ld_links s)" using l(1,2) by simp
  then have hist: "hist_ok N K l" and "client_ok N (r, sv) l" using inv(1,2) sv by (auto simp: load_inv_def)
  then have free: "sock_free (r, sv) (lk_fd l)" "lk_fd l < 2 ^ 31" "lk_said l = []" "lk_heard l = []"
    using l(3) by (simp_all add: client_ok_def)
  have start: "stream_start lib (reactor_nfds r) r (lk_fd l)" "sv_connections sv (lk_fd l) = None"
    using free(1) by (simp_all add: sock_free_def stream_start_def)
  have w: "sw_service ?w = Some sv" by (simp add: sim_world_of_def)
  obtain c r' w where c:
    "sim_onConnection (lev_add lib) (removeEventHandler lib) (new_Stream (lk_fd l) (rc (lk_fd l)) (sc (lk_fd l))) r
      ?w = Inr (Some c, r', w)"
    "cl_ready lib r' c" "cl_sends r' c (frame (client_text (lk_fd l)))" "cl_selfEchoCount c = 0"
    "st_fd (cn_stream c) = lk_fd l" "si_echoCount (sw_server w) = si_echoCount (sw_server ?w)"
    "si_msgNum (sw_server w) = si_msgNum (sw_server ?w)" "si_clientNum (sw_server w) = si_clientNum (sw_server ?w)"
    "cn_handle c = lk_fd l" "sw_exited w = sw_exited ?w"
    "\<exists>sv'. sw_service w = Some sv' \<and> dom (sv_connections sv') = insert (lk_fd l) (dom (sv_connections sv))"
    "reactor_inv r'" "reactor_nfds r' = reactor_nfds r"
    "\<forall>x. fst x \<noteq> lk_fd l \<longrightarrow> reactor_handler r' x = reactor_handler r x"
    by (rule client_accepts [OF lib start(1) w start(2) free(2)]) (rule that)
  obtain sv' where sv': "sw_service w = Some sv'" "dom (sv_connections sv') = insert (lk_fd l) (dom (sv_connections sv))"
    using c(11) by blast
  have "client_pos r' c N (client_text (lk_fd l)) 0 0"
    by (rule client_pos_start [OF c(2)])
      (use c(3-5,9) free(1,2) inv(3) in \<open>simp_all add: sock_free_def\<close>)
  then have "client_ok N (r', sv') (l\<lparr>lk_client := Open c\<rparr>)" using free(2-4) c(5) by (simp add: client_ok_def)
  moreover have "si_echoCount (ld_server s) < int N * si_clientNum (ld_server s)"
    using inv(1,2) by (simp add: load_inv_def) (metis of_nat_less_iff of_nat_mult)
  ultimately have "load_inv N K (s\<lparr>ld_server := sw_server w, ld_exited := False,
      ld_clients := (ld_clients s)(lk_service l := (r', sv')), ld_links := (ld_links s)[i := l\<lparr>lk_client := Open c\<rparr>]\<rparr>)"
    using c(6-8,12-14) sv'(2) hist
    by (intro load_inv_client [OF inv(1,2) l(1,2) sv, where t = "lk_said l" and h = "lk_heard l"])
      (simp_all add: only_at_def sim_world_of_def lk_answers_def)
  then show ?thesis using that [OF c(1) sv'(1)] c(10) by (simp add: sim_world_of_def)
qed

lemma echo_end_opens:
  assumes lib: "lib_adds lib" and inv: "load_inv N K s" "\<not> ld_exited s"
    and l: "i < length (ld_links s)" "l = ld_links s ! i" "lk_echo l = Unopened"
    and sv: "ld_echoes s (lk_peer l) = (r, sv)"
  obtains c r' sv' where
    "echo_onConnection (lev_add lib) (removeEventHandler lib)
      (new_Stream (lk_peerFd l) (rc (lk_peerFd l)) (sc (lk_peerFd l))) r (Some sv) = Inr (Some c, r', Some sv')"
    "load_inv N K (s\<lparr>ld_echoes := (ld_echoes s)(lk_peer l := (r', sv')),
      ld_links := (ld_links s)[i := l\<lparr>lk_echo := Open c\<rparr>]\<rparr>)"
proof -
  have "l \<in> set (ld_links s)" using l(1,2) by simp
  then have hist: "hist_ok N K l" and "echo_ok (r, sv) l" using inv(1,2) sv by (auto simp: load_inv_def)
  then have free: "sock_free (r, sv) (lk_peerFd l)" "lk_taken l = []" "lk_echoed l = []"
    using l(3) by (simp_all add: echo_ok_def)
  have start: "stream_start lib (reactor_nfds r) r (lk_peerFd l)" "sv_connections sv (lk_peerFd l) = None"
    using free(1) by (simp_all add: sock_free_def stream_start_def)
  obtain c r' sv' where c:
    "echo_onConnection (lev_add lib) (removeEventHandler lib)
      (new_Stream (lk_peerFd l) (rc (lk_peerFd l)) (sc (lk_peerFd l))) r (Some sv) = Inr (Some c, r', Some sv')"
    "echo_ready lib r' c" "st_fd (cn_stream c) = lk_peerFd l"
    "dom (sv_connections sv') = insert (lk_peerFd l) (dom (sv_connections sv))"
    "reactor_inv r'" "reactor_nfds r' = reactor_nfds r"
    "\<forall>x. fst x \<noteq> lk_peerFd l \<longrightarrow> reactor_handler r' x = reactor_handler r x"
    by (rule echo_accepts [OF lib start]) (rule that)
  have "echo_ok (r', sv') (l\<lparr>lk_echo := Open c\<rparr>)"
    using free(2,3) c(3) echo_pos_start [OF c(2)] by (simp add: echo_ok_def)
  then have "load_inv N K (s\<lparr>ld_echoes := (ld_echoes s)(lk_peer l := (r', sv')),
      ld_links := (ld_links s)[i := l\<lparr>lk_echo := Open c\<rparr>]\<rparr>)"
    using c(4-7) hist by (intro load_inv_echo [OF inv l(1,2) sv, where t = "lk_echoed l" and h = "lk_taken l"])
      (simp_all add: only_at_def)
  with c(1) show ?thesis by (rule that)
qed

text \<open>In the shape of the steps.\<close>

lemma link_same:
  "l\<lparr>lk_client := e, lk_heard := h, lk_said := lk_said l\<rparr> = l\<lparr>lk_client := e, lk_heard := h\<rparr>"
  "l\<lparr>lk_client := e, lk_heard := lk_heard l, lk_said := t\<rparr> = l\<lparr>lk_client := e, lk_said := t\<rparr>"
  "l\<lparr>lk_echo := e', lk_taken := h, lk_echoed := lk_echoed l\<rparr> = l\<lparr>lk_echo := e', lk_taken := h\<rparr>"
  "l\<lparr>lk_echo := e', lk_taken := lk_taken l, lk_echoed := t\<rparr> = l\<lparr>lk_echo := e', lk_echoed := t\<rparr>"
  by (cases l, simp)+

lemma client_event_runs:
  assumes lib: "lib_adds lib" "lib_removes lib" and inv: "load_inv N K s" "\<not> ld_exited s"
    and l: "i < length (ld_links s)" "l = ld_links s ! i" "lk_client l = Open c"
    and sv: "ld_clients s (lk_service l) = (r, sv)" "reactor_handler r (lk_fd l, ev_dir ev) \<noteq> None"
    and ev: "socket_allows K (lk_down l) (length (lk_up l)) (cn_stream c) ev"
  obtains co r' w bytes sv' where
    "conn_event (lev_add lib) dispatch (cl_recv lib) (cl_send lib) c r (sim_world_of s sv) ev = Inr (co, r', w, bytes)"
    "sw_service w = Some sv'" "ev_moves ev \<longleftrightarrow> 0 < length (ev_bytes ev) + length bytes"
    "load_inv N K (s\<lparr>ld_server := sw_server w, ld_exited := sw_exited w,
      ld_clients := (ld_clients s)(lk_service l := (r', sv')),
      ld_links := (ld_links s)[i := l\<lparr>lk_client := endpoint_of co, lk_heard := lk_heard l @ ev_bytes ev,
        lk_said := lk_said l @ bytes\<rparr>]\<rparr>)"
proof (cases ev)
  case (Readable res)
  with sv(2) ev have e: "reactor_handler r (lk_fd l, Rd) \<noteq> None" "recv_goes_on res" "recv_fits (cn_stream c) res"
    "prefix (result_bytes res) (lk_down l)" by simp_all
  obtain co r' w sv' where ef:
    "conn_event (lev_add lib) dispatch (cl_recv lib) (cl_send lib) c r (sim_world_of s sv) (Readable res) =
      Inr (co, r', w, [])" "sw_service w = Some sv'"
    "load_inv N K (s\<lparr>ld_server := sw_server w, ld_exited := sw_exited w,
      ld_clients := (ld_clients s)(lk_service l := (r', sv')),
      ld_links := (ld_links s)[i := l\<lparr>lk_client := endpoint_of co, lk_heard := lk_heard l @ result_bytes res\<rparr>]\<rparr>)"
    by (rule client_read_effect [OF lib inv l sv(1) e]) (rule that)
  show ?thesis using that [of co r' w "[]" sv'] ef unfolding Readable by (simp add: link_same del: conn_event.simps)
next
  case (Writable res)
  with sv(2) ev have e: "reactor_handler r (lk_fd l, Wr) \<noteq> None" "send_goes_on res" "send_fits (cn_stream c) res"
    "length (lk_up l) + result_count res \<le> K" by simp_all
  obtain c' r' bytes where ef:
    "conn_event (lev_add lib) dispatch (cl_recv lib) (cl_send lib) c r (sim_world_of s sv) (Writable res) =
      Inr (Some c', r', sim_world_of s sv, bytes)" "length bytes = result_count res"
    "load_inv N K (s\<lparr>ld_server := ld_server s, ld_exited := False,
      ld_clients := (ld_clients s)(lk_service l := (r', sv)),
      ld_links := (ld_links s)[i := l\<lparr>lk_client := Open c', lk_said := lk_said l @ bytes\<rparr>]\<rparr>)"
    by (rule client_write_effect [OF lib(1) inv l sv(1) e]) (rule that)
  show ?thesis using that [of "Some c'" r' "sim_world_of s sv" bytes sv] ef unfolding Writable
    by (simp add: link_same endpoint_of_def sim_world_of_def del: conn_event.simps)
qed

lemma echo_event_runs:
  assumes lib: "lib_adds lib" and inv: "load_inv N K s" "\<not> ld_exited s"
    and l: "i < length (ld_links s)" "l = ld_links s ! i" "lk_echo l = Open c"
    and sv: "ld_echoes s (lk_peer l) = (r, sv)" "reactor_handler r (lk_peerFd l, ev_dir ev) \<noteq> None"
    and ev: "socket_allows K (lk_up l) (length (lk_down l)) (cn_stream c) ev"
  obtains c' r' bytes where
    "conn_event (lev_add lib) dispatch (cc_recv lib) (cc_send lib) c r (Some sv) ev = Inr (Some c', r', Some sv, bytes)"
    "ev_moves ev \<longleftrightarrow> 0 < length (ev_bytes ev) + length bytes"
    "load_inv N K (s\<lparr>ld_echoes := (ld_echoes s)(lk_peer l := (r', sv)),
      ld_links := (ld_links s)[i := l\<lparr>lk_echo := Open c', lk_taken := lk_taken l @ ev_bytes ev,
        lk_echoed := lk_echoed l @ bytes\<rparr>]\<rparr>)"
proof (cases ev)
  case (Readable res)
  with sv(2) ev have e: "reactor_handler r (lk_peerFd l, Rd) \<noteq> None" "recv_goes_on res" "recv_fits (cn_stream c) res"
    "prefix (result_bytes res) (lk_up l)" by simp_all
  obtain c' r' where ef:
    "conn_event (lev_add lib) dispatch (cc_recv lib) (cc_send lib) c r (Some sv) (Readable res) = Inr (Some c', r', Some sv, [])"
    "load_inv N K (s\<lparr>ld_echoes := (ld_echoes s)(lk_peer l := (r', sv)),
      ld_links := (ld_links s)[i := l\<lparr>lk_echo := Open c', lk_taken := lk_taken l @ result_bytes res\<rparr>]\<rparr>)"
    by (rule echo_read_effect [OF lib inv l sv(1) e]) (rule that)
  show ?thesis using that [of c' r' "[]"] ef unfolding Readable by (simp add: link_same del: conn_event.simps)
next
  case (Writable res)
  with sv(2) ev have e: "reactor_handler r (lk_peerFd l, Wr) \<noteq> None" "send_goes_on res" "send_fits (cn_stream c) res"
    "length (lk_down l) + result_count res \<le> K" by simp_all
  obtain c' r' bytes where ef:
    "conn_event (lev_add lib) dispatch (cc_recv lib) (cc_send lib) c r (Some sv) (Writable res) =
      Inr (Some c', r', Some sv, bytes)" "length bytes = result_count res"
    "load_inv N K (s\<lparr>ld_echoes := (ld_echoes s)(lk_peer l := (r', sv)),
      ld_links := (ld_links s)[i := l\<lparr>lk_echo := Open c', lk_echoed := lk_echoed l @ bytes\<rparr>]\<rparr>)"
    by (rule echo_write_effect [OF lib inv l sv(1) e]) (rule that)
  show ?thesis using that [of c' r' bytes] ef unfolding Writable by (simp add: link_same del: conn_event.simps)
qed

section \<open>How much is left to do\<close>

definition link_moved :: "'cb link \<Rightarrow> nat" where
  "link_moved l = length (lk_said l) + length (lk_taken l) + length (lk_echoed l) + length (lk_heard l)"

definition link_left :: "nat \<Rightarrow> nat \<Rightarrow> 'cb link \<Rightarrow> nat" where
  "link_left N K l = (4 * N + 2) * length (lk_frame l) + 4 * K - link_moved l +
     (if lk_client l = Unopened then 1 else 0) + (if lk_echo l = Unopened then 1 else 0)"

definition load_left :: "nat \<Rightarrow> nat \<Rightarrow> ('cb, 'k) load \<Rightarrow> nat" where
  "load_left N K s = sum_list (map (link_left N K) (ld_links s))"

lemma hist_bound:
  assumes "hist_ok N K l"
  shows "link_moved l \<le> (4 * N + 2) * length (lk_frame l) + 4 * K"
  using hist_okD(5-11) [OF assms] by (simp add: link_moved_def algebra_simps)

lemma link_left_event:
  assumes "hist_ok N K l'" "link_moved l' = link_moved l + k" "lk_frame l' = lk_frame l"
    and "lk_client l' = Unopened \<Longrightarrow> lk_client l = Unopened" "lk_echo l' = Unopened \<Longrightarrow> lk_echo l = Unopened"
  shows "link_left N K l' + (if 0 < k then 1 else 0) \<le> link_left N K l"
proof -
  have "link_moved l + k \<le> (4 * N + 2) * length (lk_frame l) + 4 * K"
    using hist_bound [OF assms(1)] assms(2,3) by simp
  then have "(4 * N + 2) * length (lk_frame l) + 4 * K - (link_moved l + k) + (if 0 < k then 1 else 0) \<le>
    (4 * N + 2) * length (lk_frame l) + 4 * K - link_moved l" by simp linarith
  moreover have "(if lk_client l' = Unopened then 1 else 0 :: nat) \<le> (if lk_client l = Unopened then 1 else 0)"
    "(if lk_echo l' = Unopened then 1 else 0 :: nat) \<le> (if lk_echo l = Unopened then 1 else 0)"
    using assms(4,5) by simp_all
  ultimately show ?thesis unfolding link_left_def assms(2,3) by linarith
qed

lemma left_update:
  assumes "i < length ls" "link_left N K l' + k \<le> link_left N K (ls ! i)"
  shows "sum_list (map (link_left N K) (ls[i := l'])) + k \<le> sum_list (map (link_left N K) ls)"
proof -
  have "link_left N K (ls ! i) \<le> sum_list (map (link_left N K) ls)"
    using assms(1) elem_le_sum_list [of i "map (link_left N K) ls"] by simp
  with assms show ?thesis by (simp add: map_update sum_list_update)
qed

lemma load_left_event:
  assumes "load_inv N K s'" "ld_links s' = (ld_links s)[i := l']" "i < length (ld_links s)"
    and "link_moved l' = link_moved (ld_links s ! i) + k" "lk_frame l' = lk_frame (ld_links s ! i)"
    and "lk_client l' = Unopened \<Longrightarrow> lk_client (ld_links s ! i) = Unopened"
    and "lk_echo l' = Unopened \<Longrightarrow> lk_echo (ld_links s ! i) = Unopened"
  shows "load_left N K s' + (if 0 < k then 1 else 0) \<le> load_left N K s"
proof -
  have "l' \<in> set (ld_links s')" using assms(2,3) by (simp add: set_update_memI)
  then have "hist_ok N K l'" using assms(1) by (simp add: load_inv_def)
  from link_left_event [OF this assms(4-7)] show ?thesis
    unfolding load_left_def assms(2) by (rule left_update [OF assms(3)])
qed

lemma load_left_opens:
  assumes "ld_links s' = (ld_links s)[i := l']" "i < length (ld_links s)"
    and "link_left N K l' + 1 \<le> link_left N K (ld_links s ! i)"
  shows "load_left N K s' + 1 \<le> load_left N K s"
  unfolding load_left_def assms(1) by (rule left_update [OF assms(2,3)])

text \<open>Each kind of step keeps the invariant and leaves less to do when it gets something done.\<close>

lemma client_opens_ok:
  assumes inv: "load_inv N K s" and lib: "lib_adds lib" and N: "0 < N"
    and step: "\<not> ld_exited s" "i < length (ld_links s)" "l = ld_links s ! i" "lk_client l = Unopened"
      "ld_clients s (lk_service l) = (r, sv)"
      "sim_onConnection (lev_add lib) (removeEventHandler lib) (new_Stream (lk_fd l) (rc (lk_fd l)) (sc (lk_fd l))) r
        (sim_world_of s sv) = Inr (co, r', w)" "sw_service w = Some sv'"
    and s': "s' = s\<lparr>ld_server := sw_server w, ld_exited := sw_exited w,
      ld_clients := (ld_clients s)(lk_service l := (r', sv')), ld_links := (ld_links s)[i := l\<lparr>lk_client := endpoint_of co\<rparr>]\<rparr>"
  shows "load_inv N K s'" "load_left N K s' + 1 \<le> load_left N K s"
proof -
  obtain c r2 w2 sv2 where e:
    "sim_onConnection (lev_add lib) (removeEventHandler lib) (new_Stream (lk_fd l) (rc (lk_fd l)) (sc (lk_fd l))) r
      (sim_world_of s sv) = Inr (Some c, r2, w2)" "sw_service w2 = Some sv2"
    "load_inv N K (s\<lparr>ld_server := sw_server w2, ld_exited := sw_exited w2,
      ld_clients := (ld_clients s)(lk_service l := (r2, sv2)), ld_links := (ld_links s)[i := l\<lparr>lk_client := Open c\<rparr>]\<rparr>)"
    by (rule client_end_opens [OF lib inv step(1) N step(2-5)]) (rule that)
  have same: "co = Some c" "r2 = r'" "w2 = w" "sv2 = sv'" using e(1,2) step(6,7) by simp_all
  show "load_inv N K s'" using e(3) s' by (simp only: same endpoint_of_def option.case)
  have "link_left N K (l\<lparr>lk_client := Open c\<rparr>) + 1 \<le> link_left N K (ld_links s ! i)"
    using step(3,4) by (simp add: link_left_def link_moved_def)
  then show "load_left N K s' + 1 \<le> load_left N K s"
    using step(2) s' by (intro load_left_opens) (simp_all add: same endpoint_of_def)
qed

lemma client_event_ok:
  assumes inv: "load_inv N K s" and lib: "lib_adds lib" "lib_removes lib"
    and step: "\<not> ld_exited s" "i < length (ld_links s)" "l = ld_links s ! i" "lk_client l = Open c"
      "ld_clients s (lk_service l) = (r, sv)" "reactor_handler r (lk_fd l, ev_dir ev) \<noteq> None"
      "socket_allows K (lk_down l) (length (lk_up l)) (cn_stream c) ev"
      "conn_event (lev_add lib) dispatch (cl_recv lib) (cl_send lib) c r (sim_world_of s sv) ev =
        Inr (co, r', w, bytes)" "sw_service w = Some sv'"
    and s': "s' = s\<lparr>ld_server := sw_server w, ld_exited := sw_exited w,
      ld_clients := (ld_clients s)(lk_service l := (r', sv')),
      ld_links := (ld_links s)[i := l\<lparr>lk_client := endpoint_of co, lk_heard := lk_heard l @ ev_bytes ev,
        lk_said := lk_said l @ bytes\<rparr>]\<rparr>"
  shows "load_inv N K s'" "load_left N K s' + (if ev_moves ev then 1 else 0) \<le> load_left N K s"
proof -
  obtain co2 r2 w2 bytes2 sv2 where e:
    "conn_event (lev_add lib) dispatch (cl_recv lib) (cl_send lib) c r (sim_world_of s sv) ev = Inr (co2, r2, w2, bytes2)"
    "sw_service w2 = Some sv2" "ev_moves ev \<longleftrightarrow> 0 < length (ev_bytes ev) + length bytes2"
    "load_inv N K (s\<lparr>ld_server := sw_server w2, ld_exited := sw_exited w2,
      ld_clients := (ld_clients s)(lk_service l := (r2, sv2)),
      ld_links := (ld_links s)[i := l\<lparr>lk_client := endpoint_of co2, lk_heard := lk_heard l @ ev_bytes ev,
        lk_said := lk_said l @ bytes2\<rparr>]\<rparr>)"
    by (rule client_event_runs [OF lib inv step(1-7)]) (rule that)
  have same: "co2 = co" "r2 = r'" "w2 = w" "bytes2 = bytes" "sv2 = sv'" using e(1,2) step(8,9) by simp_all
  show inv': "load_inv N K s'" using e(4) s' by (simp only: same)
  have "load_left N K s' + (if 0 < length (ev_bytes ev) + length bytes then 1 else 0) \<le> load_left N K s"
    by (rule load_left_event [OF inv' _ step(2)], simp add: s')
      (use step(3,4) in \<open>simp_all add: link_moved_def lk_frame_def endpoint_of_def split: option.splits\<close>)
  then show "load_left N K s' + (if ev_moves ev then 1 else 0) \<le> load_left N K s" using e(3) by (simp only: same)
qed

lemma echo_opens_ok:
  assumes inv: "load_inv N K s" and lib: "lib_adds lib"
    and step: "\<not> ld_exited s" "i < length (ld_links s)" "l = ld_links s ! i" "lk_echo l = Unopened"
      "ld_echoes s (lk_peer l) = (r, sv)"
      "echo_onConnection (lev_add lib) (removeEventHandler lib)
        (new_Stream (lk_peerFd l) (rc (lk_peerFd l)) (sc (lk_peerFd l))) r (Some sv) = Inr (co, r', Some sv')"
    and s': "s' = s\<lparr>ld_echoes := (ld_echoes s)(lk_peer l := (r', sv')),
      ld_links := (ld_links s)[i := l\<lparr>lk_echo := endpoint_of co\<rparr>]\<rparr>"
  shows "load_inv N K s'" "load_left N K s' + 1 \<le> load_left N K s"
proof -
  obtain c r2 sv2 where e:
    "echo_onConnection (lev_add lib) (removeEventHandler lib)
      (new_Stream (lk_peerFd l) (rc (lk_peerFd l)) (sc (lk_peerFd l))) r (Some sv) = Inr (Some c, r2, Some sv2)"
    "load_inv N K (s\<lparr>ld_echoes := (ld_echoes s)(lk_peer l := (r2, sv2)), ld_links := (ld_links s)[i := l\<lparr>lk_echo := Open c\<rparr>]\<rparr>)"
    by (rule echo_end_opens [OF lib inv step(1-5)]) (rule that)
  have same: "co = Some c" "r2 = r'" "sv2 = sv'" using e(1) step(6) by simp_all
  show "load_inv N K s'" using e(2) s' by (simp only: same endpoint_of_def option.case)
  have "link_left N K (l\<lparr>lk_echo := Open c\<rparr>) + 1 \<le> link_left N K (ld_links s ! i)"
    using step(3,4) by (simp add: link_left_def link_moved_def)
  then show "load_left N K s' + 1 \<le> load_left N K s"
    using step(2) s' by (intro load_left_opens) (simp_all add: same endpoint_of_def)
qed

lemma echo_event_ok:
  assumes inv: "load_inv N K s" and lib: "lib_adds lib"
    and step: "\<not> ld_exited s" "i < length (ld_links s)" "l = ld_links s ! i" "lk_echo l = Open c"
      "ld_echoes s (lk_peer l) = (r, sv)" "reactor_handler r (lk_peerFd l, ev_dir ev) \<noteq> None"
      "socket_allows K (lk_up l) (length (lk_down l)) (cn_stream c) ev"
      "conn_event (lev_add lib) dispatch (cc_recv lib) (cc_send lib) c r (Some sv) ev = Inr (co, r', Some sv', bytes)"
    and s': "s' = s\<lparr>ld_echoes := (ld_echoes s)(lk_peer l := (r', sv')),
      ld_links := (ld_links s)[i := l\<lparr>lk_echo := endpoint_of co, lk_taken := lk_taken l @ ev_bytes ev,
        lk_echoed := lk_echoed l @ bytes\<rparr>]\<rparr>"
  shows "load_inv N K s'" "load_left N K s' + (if ev_moves ev then 1 else 0) \<le> load_left N K s"
proof -
  obtain c2 r2 bytes2 where e:
    "conn_event (lev_add lib) dispatch (cc_recv lib) (cc_send lib) c r (Some sv) ev = Inr (Some c2, r2, Some sv, bytes2)"
    "ev_moves ev \<longleftrightarrow> 0 < length (ev_bytes ev) + length bytes2"
    "load_inv N K (s\<lparr>ld_echoes := (ld_echoes s)(lk_peer l := (r2, sv)),
      ld_links := (ld_links s)[i := l\<lparr>lk_echo := Open c2, lk_taken := lk_taken l @ ev_bytes ev,
        lk_echoed := lk_echoed l @ bytes2\<rparr>]\<rparr>)"
    by (rule echo_event_runs [OF lib inv step(1-7)]) (rule that)
  have same: "co = Some c2" "r2 = r'" "sv' = sv" "bytes2 = bytes" using e(1) step(8) by simp_all
  show inv': "load_inv N K s'" using e(3) s' by (simp only: same endpoint_of_def option.case)
  have "load_left N K s' + (if 0 < length (ev_bytes ev) + length bytes then 1 else 0) \<le> load_left N K s"
    by (rule load_left_event [OF inv' _ step(2)], simp add: s')
      (use step(3) in \<open>simp_all add: same link_moved_def lk_frame_def endpoint_of_def\<close>)
  then show "load_left N K s' + (if ev_moves ev then 1 else 0) \<le> load_left N K s" using e(2) by (simp only: same)
qed

lemma load_step_ok:
  assumes "load_step lib rc sc K b s s'" "load_inv N K s" "lib_adds lib" "lib_removes lib" "0 < N"
  shows "load_inv N K s' \<and> load_left N K s' + (if b then 1 else 0) \<le> load_left N K s"
  using assms(1)
proof cases
  case client_opens
  from client_opens_ok [where rc = rc and sc = sc, OF assms(2,3,5) client_opens(3-9,2)] client_opens(1) show ?thesis by simp
next
  case client_event
  from client_event_ok [OF assms(2-4) client_event(3-11,2)] client_event(1) show ?thesis by simp
next
  case echo_opens
  from echo_opens_ok [where rc = rc and sc = sc, OF assms(2,3) echo_opens(3-8,2)] echo_opens(1) show ?thesis by simp
next
  case echo_event
  from echo_event_ok [OF assms(2,3) echo_event(3-10,2)] echo_event(1) show ?thesis by simp
qed

end
