(* ===== verification/LoadTest.thy ===== *)
theory LoadTest
  imports LoadSystem
begin

text \<open>
  What the load test of \<^theory_text>\<open>LoadSystem\<close> comes to: there is always something to do until the simulator
  calls \<open>exit(0)\<close>, and every run that gets something done ends there, after each client has received
  its number of answers.
\<close>

section \<open>There is always something to do\<close>

lemma client_event_step:
  assumes "lib_adds lib" "lib_removes lib" "load_inv N K s" "\<not> ld_exited s"
    and "i < length (ld_links s)" "l = ld_links s ! i" "lk_client l = Open c"
    and "ld_clients s (lk_service l) = (r, sv)" "reactor_handler r (lk_fd l, ev_dir ev) \<noteq> None"
    and "socket_allows K (lk_down l) (length (lk_up l)) (cn_stream c) ev"
  shows "\<exists>s'. load_step lib rc sc K (ev_moves ev) s s'"
  by (rule client_event_runs [OF assms]) (rule exI, rule load_step.client_event [OF assms(4-10)])

lemma echo_event_step:
  assumes "lib_adds lib" "load_inv N K s" "\<not> ld_exited s"
    and "i < length (ld_links s)" "l = ld_links s ! i" "lk_echo l = Open c"
    and "ld_echoes s (lk_peer l) = (r, sv)" "reactor_handler r (lk_peerFd l, ev_dir ev) \<noteq> None"
    and "socket_allows K (lk_up l) (length (lk_down l)) (cn_stream c) ev"
  shows "\<exists>s'. load_step lib rc sc K (ev_moves ev) s s'"
  by (rule echo_event_runs [OF assms]) (rule exI, rule load_step.echo_event [OF assms(3-9)])

text \<open>A client that has not got all its answers can go on, or its peer can.\<close>

lemma link_can_move:
  assumes lib: "lib_adds lib" "lib_removes lib" and inv: "load_inv N K s" "\<not> ld_exited s" and "0 < K"
    and l: "i < length (ld_links s)" "l = ld_links s ! i" "lk_client l = Open c" "lk_echo l = Open e"
    and "lk_answers l < N"
  shows "\<exists>s'. load_step lib rc sc K True s s'"
proof -
  let ?f = "lk_frame l" and ?m = "client_text (lk_fd l)"
  obtain r sv where sv: "ld_clients s (lk_service l) = (r, sv)" by fastforce
  obtain r' sv' where sv': "ld_echoes s (lk_peer l) = (r', sv')" by fastforce
  note c = client_open [OF inv l(1-3) sv] and e = echo_open [OF inv l(1,2,4) sv']
  have f: "?f = frame ?m" "0 < length ?f" by (simp_all add: lk_frame_def)
  have D: "length (lk_heard l) < N * length ?f"
    using assms(10) f(2) by (simp add: lk_answers_def div_less_iff_less_mult)
  then have rd: "simcl.reading r c ?m (length (lk_heard l) mod length ?f)"
    and wr: "lev.sending r (cn_stream c) (drop (length (lk_said l) mod length ?f) ?f)"
    using c(4) unfolding client_pos_def f(1) by (metis less_irrefl)+
  have byte: "recv_goes_on (Received [x])" "send_goes_on (Sent 1)" for x
    by (simp_all add: recv_goes_on_def send_goes_on_def)
  consider "lk_down l \<noteq> []" | "lk_down l = []" "lk_up l \<noteq> []" "echo.reading r' e ?m (length (lk_taken l) - length (lk_echoed l))"
    | "lk_down l = []" "lev.sending r' (cn_stream e) (drop (length (lk_echoed l) + length ?f - length (lk_taken l)) ?f)"
    | "lk_up l = []" using e(3) unfolding echo_pos_def f(1) by blast
  then show ?thesis
  proof cases
    case 1
    then obtain x xs where "lk_down l = x # xs" by (cases "lk_down l") auto
    with simcl.reading_one [OF rd] c(2) byte
    have "\<exists>s'. load_step lib rc sc K (ev_moves (Readable (Received [x]))) s s'"
      by (intro client_event_step [OF lib inv l(1-3) sv]) simp_all
    then show ?thesis by simp
  next
    case 2
    then obtain x xs where "lk_up l = x # xs" by (cases "lk_up l") auto
    with echo.reading_one [OF 2(3)] e(2) byte
    have "\<exists>s'. load_step lib rc sc K (ev_moves (Readable (Received [x]))) s s'"
      by (intro echo_event_step [OF lib(1) inv l(1,2,4) sv']) simp_all
    then show ?thesis by simp
  next
    case 3
    with lev.sending_one [OF 3(2)] e(2) byte \<open>0 < K\<close>
    have "\<exists>s'. load_step lib rc sc K (ev_moves (Writable (Sent 1))) s s'"
      by (intro echo_event_step [OF lib(1) inv l(1,2,4) sv']) simp_all
    then show ?thesis by simp
  next
    case 4
    with lev.sending_one [OF wr] c(2) byte \<open>0 < K\<close>
    have "\<exists>s'. load_step lib rc sc K (ev_moves (Writable (Sent 1))) s s'"
      by (intro client_event_step [OF lib inv l(1-3) sv]) simp_all
    then show ?thesis by simp
  qed
qed

lemma load_can_move:
  assumes lib: "lib_adds lib" "lib_removes lib" and inv: "load_inv N K s" "\<not> ld_exited s" and "0 < K" "0 < N"
  shows "\<exists>s'. load_step lib rc sc K True s s'"
proof -
  let ?ls = "ld_links s"
  have ends: "client_ok N (ld_clients s (lk_service l)) l" "echo_ok (ld_echoes s (lk_peer l)) l" if "l \<in> set ?ls" for l
    using inv that by (simp_all add: load_inv_def)
  have "\<exists>i < length ?ls. lk_answers (?ls ! i) < N"
  proof (rule ccontr)
    assume "\<not> ?thesis"
    then have "\<forall>l \<in> set ?ls. N \<le> lk_answers l" by (metis in_set_conv_nth not_less)
    then have "sum_list (map (\<lambda>_. N) ?ls) \<le> sum_list (map lk_answers ?ls)" by (intro sum_list_mono) simp
    then show False using inv by (simp add: load_inv_def sum_list_triv mult.commute)
  qed
  then obtain i where i: "i < length ?ls" "lk_answers (?ls ! i) < N" by blast
  let ?l = "?ls ! i"
  obtain r sv where sv: "ld_clients s (lk_service ?l) = (r, sv)" by fastforce
  obtain r' sv' where sv': "ld_echoes s (lk_peer ?l) = (r', sv')" by fastforce
  have ok: "client_ok N (r, sv) ?l" "echo_ok (r', sv') ?l" using ends [of ?l] i(1) sv sv' by simp_all
  show ?thesis
  proof (cases "lk_client ?l = Unopened \<or> lk_echo ?l = Unopened")
    case True
    then show ?thesis
    proof
      assume u: "lk_client ?l = Unopened"
      show ?thesis
        by (rule client_end_opens [OF lib(1) inv assms(6) i(1) refl u sv, of rc sc])
          (rule exI, rule load_step.client_opens [OF inv(2) i(1) refl u sv])
    next
      assume u: "lk_echo ?l = Unopened"
      show ?thesis
        by (rule echo_end_opens [OF lib(1) inv i(1) refl u sv', of rc sc])
          (rule exI, rule load_step.echo_opens [OF inv(2) i(1) refl u sv'])
    qed
  next
    case False
    with ok obtain c e where "lk_client ?l = Open c" "lk_echo ?l = Open e"
      by (auto simp: client_ok_def echo_ok_def split: endpoint.splits)
    from link_can_move [OF lib inv assms(5) i(1) refl this i(2)] show ?thesis .
  qed
qed

section \<open>Runs\<close>

text \<open>A run with \<open>n\<close> steps that get something done.\<close>

inductive load_run :: "libevent \<Rightarrow> (int \<Rightarrow> 'cb) \<Rightarrow> (int \<Rightarrow> 'cb) \<Rightarrow> nat \<Rightarrow> ('cb, 'k) load \<Rightarrow> nat \<Rightarrow> ('cb, 'k) load \<Rightarrow> bool"
  for lib rc sc K s0 where
  start: "load_run lib rc sc K s0 0 s0"
| step: "load_run lib rc sc K s0 n s \<Longrightarrow> load_step lib rc sc K b s s' \<Longrightarrow>
    load_run lib rc sc K s0 (n + (if b then 1 else 0)) s'"

text \<open>The sockets are connected and free at their services, each descriptor is used once, and the
  simulator waits for \<open>N\<close> answers of each.\<close>

definition load_ready :: "nat \<Rightarrow> simulator \<Rightarrow> (nat \<Rightarrow> 'cb reactor \<times> ('cb client_connection, 'k, unit) service) \<Rightarrow>
    (nat \<Rightarrow> 'cb reactor \<times> ('cb concurrent_connection, 'k, unit) service) \<Rightarrow> (nat \<times> int \<times> nat \<times> int) list \<Rightarrow> bool" where
  "load_ready N si clients echoes ends \<longleftrightarrow> 0 < N \<and> ends \<noteq> [] \<and> si_msgNum si = int N \<and>
     si_clientNum si = int (length ends) \<and> si_echoCount si = 0 \<and>
     distinct (map (\<lambda>(k, fd, _). (k, fd)) ends) \<and> distinct (map (\<lambda>(_, _, peer). peer) ends) \<and>
     (\<forall>(k, fd, p, pfd) \<in> set ends. fd < 2 ^ 31 \<and> sock_free (clients k) fd \<and> sock_free (echoes p) pfd)"

lemma load_init_inv:
  assumes "load_ready N si clients echoes ends"
  shows "load_inv N K (load_init si clients echoes ends)"
proof -
  have maps: "map lk_at (map new_link ends) = map (\<lambda>(k, fd, _). (k, fd)) ends"
    "map lk_peerAt (map new_link ends) = map (\<lambda>(_, _, peer). peer) ends"
    "sum_list (map lk_answers (map new_link ends)) = 0"
    by (auto simp: new_link_def lk_at_def lk_peerAt_def lk_answers_def)
  have "hist_ok N K (new_link x)" for x
    by (cases x) (simp add: new_link_def hist_ok_def)
  moreover have "client_ok N (clients (lk_service (new_link x))) (new_link x) \<and>
      echo_ok (echoes (lk_peer (new_link x))) (new_link x)" if "x \<in> set ends" for x
    using assms that by (cases x) (auto simp: load_ready_def new_link_def client_ok_def echo_ok_def)
  ultimately show ?thesis
    using assms by (simp add: load_inv_def load_init_def load_ready_def maps [unfolded list.map_comp]) blast
qed

lemma load_run_inv:
  assumes "load_run lib rc sc K s0 n s" "load_inv N K s0" "lib_adds lib" "lib_removes lib" "0 < N"
  shows "load_inv N K s \<and> load_left N K s + n \<le> load_left N K s0"
  using assms(1)
proof induction
  case (step n s b s')
  with load_step_ok [OF step.hyps(2) _ assms(3-5)] show ?case by fastforce
qed (use assms(2) in simp)

text \<open>When all answers are in, each client has heard its message as often as it should.\<close>

lemma sum_list_all_max:
  fixes f :: "'a \<Rightarrow> nat"
  assumes "\<forall>x \<in> set xs. f x \<le> N" "sum_list (map f xs) = N * length xs" "x \<in> set xs"
  shows "f x = N"
proof -
  have bound: "sum_list (map f ys) \<le> N * length ys" if "set ys \<subseteq> set xs" for ys
    using that assms(1) by (induction ys) (auto intro: add_mono)
  obtain ys zs where xs: "xs = ys @ x # zs" using assms(3) by (auto simp: in_set_conv_decomp)
  then have "sum_list (map f ys) \<le> N * length ys" "sum_list (map f zs) \<le> N * length zs" by (auto intro: bound)
  moreover have "f x \<le> N" using assms(1,3) by blast
  ultimately show ?thesis using assms(2) by (simp add: xs algebra_simps)
qed

lemma all_answers:
  assumes "load_inv N K s" "sum_list (map lk_answers (ld_links s)) = N * length (ld_links s)" "l \<in> set (ld_links s)"
  shows "lk_heard l = concat (replicate N (lk_frame l))"
proof -
  have le: "lk_answers x \<le> N" if "x \<in> set (ld_links s)" for x
  proof -
    have "length (lk_heard x) \<le> N * length (lk_frame x)" using hist_okD(11) assms(1) that by (auto simp: load_inv_def)
    then have "lk_answers x \<le> N * length (lk_frame x) div length (lk_frame x)"
      unfolding lk_answers_def by (rule div_le_mono)
    then show ?thesis by (simp add: lk_frame_def)
  qed
  have "lk_answers l = N" using sum_list_all_max [OF _ assms(2,3)] le by blast
  then have "N * length (lk_frame l) \<le> length (lk_heard l)"
    using div_times_less_eq_dividend [of "length (lk_heard l)" "length (lk_frame l)"] by (simp add: lk_answers_def)
  then have "length (lk_heard l) = N * length (lk_frame l)" "lk_heard l = repeated (lk_frame l) (length (lk_heard l))"
    using hist_okD(4,11) assms(1,3) by (force simp: load_inv_def)+
  then show ?thesis using repeated_mult by metis
qed

lemma load_left_init:
  "load_left N K (load_init si clients echoes ends) =
    (\<Sum>(k, fd, p, pfd) \<leftarrow> ends. (4 * N + 2) * length (frame (client_text fd)) + 4 * K + 2)"
  by (auto simp: load_left_def load_init_def link_left_def link_moved_def new_link_def lk_frame_def
      intro!: arg_cong [where f = sum_list])

lemma load_run_exits:
  assumes "lib_adds lib" "lib_removes lib" "0 < K" "load_ready N si clients echoes ends"
  shows "\<exists>n s. load_run lib rc sc K (load_init si clients echoes ends) n s \<and> ld_exited s"
proof -
  let ?s0 = "load_init si clients echoes ends" and ?run = "\<lambda>n. \<exists>s. load_run lib rc sc K (load_init si clients echoes ends) n s"
  have N: "0 < N" using assms(4) by (simp add: load_ready_def)
  note inv = load_run_inv [OF _ load_init_inv [OF assms(4)] assms(1,2) N]
  have "?run 0" by (blast intro: load_run.start)
  moreover have "n \<le> load_left N K ?s0" if "?run n" for n using inv that by fastforce
  then have "\<forall>n. ?run n \<longrightarrow> n < Suc (load_left N K ?s0)" by (simp add: less_Suc_eq_le)
  ultimately obtain n where n: "?run n" "\<forall>m. ?run m \<longrightarrow> m \<le> n"
    using ex_has_greatest_nat [of ?run 0 "\<lambda>n. n" "Suc (load_left N K ?s0)"] by blast
  then obtain s where s: "load_run lib rc sc K ?s0 n s" by blast
  have "ld_exited s"
  proof (rule ccontr)
    assume "\<not> ld_exited s"
    then obtain s' where "load_step lib rc sc K True s s'"
      using load_can_move [OF assms(1,2) _ _ assms(3) N] inv [OF s] by blast
    from load_run.step [OF s this] n(2) show False by fastforce
  qed
  with s show ?thesis by blast
qed

section \<open>Properties\<close>

text \<open>
  C4: The load test is right. However the events of all connections are interleaved and cut into
  pieces, at every moment each client has heard a beginning of its own message repeated, nothing it
  hears was not echoed, nothing is echoed that was not taken and nothing taken that was not said, the
  counter of the simulator is the number of whole answers heard, and every event that the sockets
  allow has a result.
\<close>

theorem load_test_right:
  assumes "lib_adds lib" "lib_removes lib" "load_ready N si clients echoes ends"
    and "load_run lib rc sc K (load_init si clients echoes ends) n s"
  shows "si_echoCount (ld_server s) = int (\<Sum>l \<leftarrow> ld_links s. length (lk_heard l) div length (lk_frame l)) \<and>
    (\<forall>l \<in> set (ld_links s). prefix (lk_heard l) (concat (replicate N (lk_frame l))) \<and>
      prefix (lk_heard l) (lk_echoed l) \<and> prefix (lk_echoed l) (lk_taken l) \<and> prefix (lk_taken l) (lk_said l)) \<and>
    (\<not> ld_exited s \<longrightarrow> (\<forall>l \<in> set (ld_links s). \<forall>r sv ev.
      (\<forall>c. lk_client l = Open c \<and> ld_clients s (lk_service l) = (r, sv) \<and>
        reactor_handler r (lk_fd l, ev_dir ev) \<noteq> None \<and>
        socket_allows K (lk_down l) (length (lk_up l)) (cn_stream c) ev \<longrightarrow>
        (\<exists>x. conn_event (lev_add lib) dispatch (cl_recv lib) (cl_send lib) c r (sim_world_of s sv) ev = Inr x)) \<and>
      (\<forall>c r sv. lk_echo l = Open c \<and> ld_echoes s (lk_peer l) = (r, sv) \<and>
        reactor_handler r (lk_peerFd l, ev_dir ev) \<noteq> None \<and>
        socket_allows K (lk_up l) (length (lk_down l)) (cn_stream c) ev \<longrightarrow>
        (\<exists>x. conn_event (lev_add lib) dispatch (cc_recv lib) (cc_send lib) c r (Some sv) ev = Inr x))))"
    (is "?count \<and> ?hist \<and> (\<not> _ \<longrightarrow> ?runs)")
proof (intro conjI impI)
  have "0 < N" using assms(3) by (simp add: load_ready_def)
  then have inv: "load_inv N K s"
    using load_run_inv [OF assms(4) load_init_inv [OF assms(3)] assms(1,2)] by blast
  then show ?count by (simp add: load_inv_def lk_answers_def [abs_def])
  have beginning: "prefix (repeated f a) (repeated f b)" if "a \<le> b" for f a b
    using take_repeated [OF that, of f] by (metis take_is_prefix)
  have "prefix (lk_heard l) (concat (replicate N (lk_frame l))) \<and>
      prefix (lk_heard l) (lk_echoed l) \<and> prefix (lk_echoed l) (lk_taken l) \<and> prefix (lk_taken l) (lk_said l)"
    if "l \<in> set (ld_links s)" for l
  proof -
    have "hist_ok N K l" using inv that by (simp add: load_inv_def)
    note h = hist_okD [OF this]
    show ?thesis using h(1-4) beginning [OF h(5)] beginning [OF h(7)] beginning [OF h(9)] beginning [OF h(11)]
      repeated_mult by metis
  qed
  then show ?hist by blast
  show ?runs if "\<not> ld_exited s"
  proof (intro ballI allI conjI impI; elim conjE)
    fix l r sv ev c assume l: "l \<in> set (ld_links s)" and c: "lk_client l = Open c"
      "ld_clients s (lk_service l) = (r, sv)" "reactor_handler r (lk_fd l, ev_dir ev) \<noteq> None"
      "socket_allows K (lk_down l) (length (lk_up l)) (cn_stream c) ev"
    obtain i where i: "i < length (ld_links s)" "l = ld_links s ! i" using l by (auto simp: in_set_conv_nth)
    show "\<exists>x. conn_event (lev_add lib) dispatch (cl_recv lib) (cl_send lib) c r (sim_world_of s sv) ev = Inr x"
      by (rule client_event_runs [OF assms(1,2) inv that i c]) blast
  next
    fix l ev c r sv assume l: "l \<in> set (ld_links s)" and c: "lk_echo l = Open c"
      "ld_echoes s (lk_peer l) = (r, sv)" "reactor_handler r (lk_peerFd l, ev_dir ev) \<noteq> None"
      "socket_allows K (lk_up l) (length (lk_down l)) (cn_stream c) ev"
    obtain i where i: "i < length (ld_links s)" "l = ld_links s ! i" using l by (auto simp: in_set_conv_nth)
    show "\<exists>x. conn_event (lev_add lib) dispatch (cc_recv lib) (cc_send lib) c r (Some sv) ev = Inr x"
      by (rule echo_event_runs [OF assms(1) inv that i c]) blast
  qed
qed

definition load_example :: "(string, nat) load" where
  "load_example = load_init ((new_ConcurrenceSimulateServer 1 8080 0)\<lparr>si_msgNum := 2, si_clientNum := 1\<rparr>)
     (\<lambda>_. (reactor5, new_NetWorkService)) (\<lambda>_. (reactor5, new_NetWorkService)) [(0, 3, 0, 3)]"

lemma load_example_ready:
  "load_ready 2 ((new_ConcurrenceSimulateServer 1 8080 0)\<lparr>si_msgNum := 2, si_clientNum := 1\<rparr>)
     (\<lambda>_. (reactor5, new_NetWorkService :: (_, nat, unit) service))
     (\<lambda>_. (reactor5, new_NetWorkService :: (_, nat, unit) service)) [(0, 3, 0, 3)]"
  using reactor5_start
  by (simp add: load_ready_def sock_free_def stream_start_def new_NetWorkService_def
      new_ConcurrenceSimulateServer_def new_TcpServer_def)

lemma lib_removes_True: "lib_removes (\<lambda>_ _. True)"
  by (simp add: lib_removes_def)

lemma load_example_exits:
  "\<exists>n s. load_run (\<lambda>_ _. True) (\<lambda>_. ''recv'') (\<lambda>_. ''send'') 1 load_example n s \<and> ld_exited s"
  unfolding load_example_def
  by (rule load_run_exits [OF lib_adds_True lib_removes_True _ load_example_ready]) simp

theorem load_test_right_witness:
  "\<exists>n s. load_run (\<lambda>_ _. True) (\<lambda>_. ''recv'') (\<lambda>_. ''send'') 1 load_example n s \<and> ld_exited s \<and>
    (\<forall>l \<in> set (ld_links s). prefix (lk_heard l) (lk_said l))"
proof -
  obtain n s where s: "load_run (\<lambda>_ _. True) (\<lambda>_. ''recv'') (\<lambda>_. ''send'') 1 load_example n s" "ld_exited s"
    using load_example_exits by blast
  from load_test_right [OF lib_adds_True lib_removes_True load_example_ready s(1) [unfolded load_example_def]]
  have "\<forall>l \<in> set (ld_links s). prefix (lk_heard l) (lk_said l)" by (meson prefix_order.trans)
  with s show ?thesis by blast
qed

text \<open>
  C3: The load test ends. With libevent taking what it is given and sockets that hold at least one
  byte, a run makes at most as many steps that get something done as there are bytes for the answers
  and in the buffers, four times over; there is always such a step until the simulator calls
  \<open>exit(0)\<close>, and then the counter has reached the number of messages of all clients and each client
  has heard its own message exactly as often as it should.
\<close>

theorem load_test_ends:
  assumes "lib_adds lib" "lib_removes lib" "0 < K" "load_ready N si clients echoes ends"
    and "load_run lib rc sc K (load_init si clients echoes ends) n s"
  shows "n \<le> (\<Sum>(k, fd, p, pfd) \<leftarrow> ends. (4 * N + 2) * length (frame (client_text fd)) + 4 * K + 2) \<and>
    (if ld_exited s
     then si_echoCount (ld_server s) = int N * si_clientNum (ld_server s) \<and>
       (\<forall>l \<in> set (ld_links s). lk_heard l = concat (replicate N (lk_frame l)))
     else \<exists>s'. load_step lib rc sc K True s s')"
proof -
  have N: "0 < N" using assms(4) by (simp add: load_ready_def)
  have inv: "load_inv N K s" and n: "n \<le> load_left N K (load_init si clients echoes ends)"
    using load_run_inv [OF assms(5) load_init_inv [OF assms(4)] assms(1,2) N] by fastforce+
  have "si_echoCount (ld_server s) = int N * si_clientNum (ld_server s) \<and>
      (\<forall>l \<in> set (ld_links s). lk_heard l = concat (replicate N (lk_frame l)))" if "ld_exited s"
  proof -
    have "sum_list (map lk_answers (ld_links s)) = N * length (ld_links s)" using inv that by (simp add: load_inv_def)
    then show ?thesis using inv all_answers [OF inv] by (simp add: load_inv_def)
  qed
  moreover have "\<exists>s'. load_step lib rc sc K True s s'" if "\<not> ld_exited s"
    by (rule load_can_move [OF assms(1,2) inv that assms(3) N])
  ultimately show ?thesis using n unfolding load_left_init by simp
qed

theorem load_test_ends_witness:
  "\<exists>n s. load_run (\<lambda>_ _. True) (\<lambda>_. ''recv'') (\<lambda>_. ''send'') 1 load_example n s \<and> ld_exited s \<and>
    si_echoCount (ld_server s) = 2 * si_clientNum (ld_server s)"
proof -
  obtain n s where s: "load_run (\<lambda>_ _. True) (\<lambda>_. ''recv'') (\<lambda>_. ''send'') 1 load_example n s" "ld_exited s"
    using load_example_exits by blast
  from load_test_ends [OF lib_adds_True lib_removes_True zero_less_one load_example_ready
      s(1) [unfolded load_example_def]] s show ?thesis by auto
qed

end
