(* ===== verification/ConnectionEnds.thy ===== *)
theory ConnectionEnds
  imports EchoServer MapReduceServer SimulateServer
begin

text \<open>
  How connections end: a peer that closes its side or an error of the socket reaches the
  connection through its stream, and the connection leaves its service and gives the descriptor
  back. The three classes of connections differ in who may still hold the object.
\<close>

section \<open>An event that fails\<close>

context event_reactor
begin

text \<open>The event of a direction that is waited for, and \<open>recv\<close> or \<open>send\<close> fails for good.\<close>

fun fails :: "'r \<Rightarrow> ('cb, unit) stream \<Rightarrow> io_event \<Rightarrow> bool" where
  "fails r s (Readable res) \<longleftrightarrow> reads r s \<and> \<not> recv_goes_on res"
| "fails r s (Writable res) \<longleftrightarrow> writes r s \<and> \<not> send_goes_on res"

lemma fails_fd: "fails r s ev \<Longrightarrow> inv r \<and> 0 \<le> st_fd s \<and> st_fd s < nfds r"
  by (cases ev) (simp_all add: reads_def writes_def)

text \<open>The connection hears of it once, with the handler of the direction consumed.\<close>

lemma event_fails:
  assumes "fails r (cn_stream c) ev"
  obtains s' r' m where "conn_event add fire rd sd c r w ev =
      and_then m (\<lambda>(c', r, w). Inr (c', r, w, []))"
    "m = rd (c\<lparr>cn_stream := s'\<rparr>) r' w RECVERR (recvBuf (cn_stream c)) \<or>
     m = sd (c\<lparr>cn_stream := s'\<rparr>) r' w SENDERR"
    "st_fd s' = st_fd (cn_stream c)" "inv r'" "nfds r' = nfds r"
    "handler r' = (handler r)((st_fd (cn_stream c), ev_dir ev) := None)"
proof (cases ev)
  case (Readable res)
  let ?s = "cn_stream c" and ?s' = "(cn_stream c)\<lparr>recvStat := RECVERR\<rparr>"
  have rd: "reads r ?s" "\<not> recv_goes_on res" using assms Readable by simp_all
  then obtain cb where cb: "inv r" "handler r (st_fd ?s, Rd) = Some cb" "recvCompleteCallback ?s = Some ()"
    by (auto simp: reads_def recv_ready_def)
  from fire_law [OF cb(1,2)] obtain r1 where r1: "fire r (st_fd ?s) Rd = Inr (Some (cb, flag Rd), r1)"
    "inv r1" "nfds r1 = nfds r" "handler r1 = (handler r)((st_fd ?s, Rd) := None)" by auto
  let ?m = "rd (c\<lparr>cn_stream := ?s'\<rparr>) r1 w RECVERR (recvBuf ?s)"
  have "recvOnePack add ?s r1 (st_fd ?s) EVENT_READ res = Inr (?s', r1, call_close ?s @ [CallRecv () RECVERR (recvBuf ?s)])"
    using rd(2) cb(3) by (auto simp: recvOnePack_def recv_fail_def call_recv_def recv_goes_on_def
        split: recv_result.splits)
  then have "conn_event add fire rd sd c r w ev = and_then ?m (\<lambda>(c', r, w). Inr (c', r, w, []))"
    using r1(1) Readable by (cases ?m) (auto simp: call_close_def split: option.splits)
  then show ?thesis by (rule that [of _ ?s' r1]) (use r1 Readable in simp_all)
next
  case (Writable res)
  let ?s = "cn_stream c" and ?s' = "(cn_stream c)\<lparr>sendStat := SENDERR\<rparr>"
  have wr: "writes r ?s" "\<not> send_goes_on res" using assms Writable by simp_all
  then obtain cb where cb: "inv r" "handler r (st_fd ?s, Wr) = Some cb" "sendCompleteCallback ?s = Some ()"
    by (auto simp: writes_def send_ready_def)
  from fire_law [OF cb(1,2)] obtain r1 where r1: "fire r (st_fd ?s) Wr = Inr (Some (cb, flag Wr), r1)"
    "inv r1" "nfds r1 = nfds r" "handler r1 = (handler r)((st_fd ?s, Wr) := None)" by auto
  let ?m = "sd (c\<lparr>cn_stream := ?s'\<rparr>) r1 w SENDERR"
  have "sendOnePack add ?s r1 (st_fd ?s) EVENT_WRITE res = Inr (?s', r1, [CallSend () SENDERR])"
    using wr(2) cb(3) by (auto simp: sendOnePack_def send_done_def call_send_def send_goes_on_def
        split: send_result.splits)
  then have "conn_event add fire rd sd c r w ev = and_then ?m (\<lambda>(c', r, w). Inr (c', r, w, []))"
    using r1(1) Writable by (cases ?m) (auto split: option.splits)
  then show ?thesis by (rule that [of _ ?s' r1]) (use r1 Writable in simp_all)
qed

end

text \<open>The same for a stream over libevent.\<close>

fun failing_event :: "'cb reactor \<Rightarrow> ('cb, unit) stream \<Rightarrow> io_event \<Rightarrow> bool" where
  "failing_event r s (Readable res) \<longleftrightarrow> lev.reads r s \<and> \<not> recv_goes_on res"
| "failing_event r s (Writable res) \<longleftrightarrow> lev.writes r s \<and> \<not> send_goes_on res"

lemma failing_event_fails: "failing_event r s ev \<longleftrightarrow> lev.fails r s ev"
  by (cases ev) simp_all

section \<open>Giving the descriptor back\<close>

text \<open>No handler of the descriptor is left, and all others are as they were.\<close>

definition fd_given_back :: "'cb reactor \<Rightarrow> int \<Rightarrow> 'cb reactor \<Rightarrow> bool" where
  "fd_given_back r fd r' \<longleftrightarrow> reactor_inv r' \<and>
     reactor_handler r' = (reactor_handler r)((fd, Rd) := None, (fd, Wr) := None)"

lemma delete_Stream_closes:
  assumes "lib_removes lib" "reactor_inv r" "0 < st_fd s" "st_fd s < reactor_nfds r"
  obtains s' r' where "delete_Stream (removeEventHandler lib) s r = Inr (Some (st_fd s), s', r')"
    "fd_given_back r (st_fd s) r'"
proof -
  have fd: "0 \<le> st_fd s" using assms(3) by simp
  obtain r1 where r1: "removeEventHandler lib r (st_fd s) (flag Rd) = Inr (True, r1)"
    using lib_removes_remove [OF assms(1,2) fd assms(4), of Rd] by auto
  note e1 = lev.rem_law [OF assms(2) fd assms(4) r1]
  then have b: "reactor_inv r1" "st_fd s < reactor_nfds r1" using assms(4) by auto
  obtain r2 where r2: "removeEventHandler lib r1 (st_fd s) (flag Wr) = Inr (True, r2)"
    using lib_removes_remove [OF assms(1) b(1) fd b(2), of Wr] by auto
  note e2 = lev.rem_law [OF b(1) fd b(2) r2]
  show ?thesis
    by (rule that [of "s\<lparr>st_fd := -1\<rparr>" r2])
      (use r1 r2 e1 e2 assms(3) in \<open>simp_all add: delete_Stream_def fd_given_back_def\<close>)
qed


lemma fd_given_back_after:
  assumes "fd_given_back r1 fd r2" "reactor_handler r1 = (reactor_handler r)((fd, d) := None)"
  shows "fd_given_back r fd r2"
  using assms by (cases d) (auto simp: fd_given_back_def fun_upd_twist)

text \<open>A failing event is answered by the connection's callback, which destroys it.\<close>

lemma failing_event_destroys:
  assumes "lib_removes lib" "failing_event r (cn_stream c) ev" "0 < st_fd (cn_stream c)"
    and destroys: "\<And>c s r w buf. rd (c\<lparr>cn_stream := s\<rparr>) r w RECVERR buf = kill (c\<lparr>cn_stream := s\<rparr>) r w"
      "\<And>c s r w. sd (c\<lparr>cn_stream := s\<rparr>) r w SENDERR = kill (c\<lparr>cn_stream := s\<rparr>) r w"
  obtains s r1 r2 t where "conn_event (lev_add lib) dispatch rd sd c r w ev =
      and_then (kill (c\<lparr>cn_stream := s\<rparr>) r1 w) (\<lambda>(c', r, w). Inr (c', r, w, []))"
    "reactor_inv r1" "reactor_handler r1 = (reactor_handler r)((st_fd (cn_stream c), ev_dir ev) := None)"
    "delete_Stream (removeEventHandler lib) s r1 = Inr (Some (st_fd (cn_stream c)), t, r2)"
    "fd_given_back r (st_fd (cn_stream c)) r2"
proof -
  have f: "lev.fails r (cn_stream c) ev" using assms(2) by (simp add: failing_event_fails)
  obtain s r1 m where e: "conn_event (lev_add lib) dispatch rd sd c r w ev =
      and_then m (\<lambda>(c', r, w). Inr (c', r, w, []))"
    "m = rd (c\<lparr>cn_stream := s\<rparr>) r1 w RECVERR (recvBuf (cn_stream c)) \<or> m = sd (c\<lparr>cn_stream := s\<rparr>) r1 w SENDERR"
    "st_fd s = st_fd (cn_stream c)" "reactor_inv r1" "reactor_nfds r1 = reactor_nfds r"
    "reactor_handler r1 = (reactor_handler r)
      ((st_fd (cn_stream c), ev_dir ev) := None)"
    by (rule lev.event_fails [OF f, of lib rd sd w]) (rule that)
  have fd: "0 < st_fd s" "st_fd s < reactor_nfds r1" using lev.fails_fd [OF f] assms(3) e(3,5) by auto
  obtain t r2 where d: "delete_Stream (removeEventHandler lib) s r1 = Inr (Some (st_fd s), t, r2)"
    "fd_given_back r1 (st_fd s) r2" by (rule delete_Stream_closes [OF assms(1) e(4) fd]) (rule that)
  have "m = kill (c\<lparr>cn_stream := s\<rparr>) r1 w" using e(2) destroys by auto
  then show ?thesis using e(1,3,4,6) d fd_given_back_after [OF d(2) e(6) [folded e(3)]]
    by (intro that [of s r1 t r2]) simp_all
qed

section \<open>Properties\<close>

text \<open>
  C22: When the peer of a connection closes its side or the socket fails, whether the
  connection was reading or sending: a connection of the echo server and a simulated client leave
  their service, are deleted, and no handler of the descriptor is left, while those of all other
  descriptors stay. A connection of the map-reduce server leaves its service at once; it is deleted
  in the same way if no task holds it, and otherwise lives on, with its socket open, for the tasks.
\<close>

theorem connection_ends:
  assumes "lib_removes lib" "0 < fd"
  shows "(\<forall>(c :: 'cb concurrent_connection) (sv :: (_, 'k, 'd) service).
      failing_event r (cn_stream c) ev \<and> st_fd (cn_stream c) = fd \<longrightarrow>
      (\<exists>r'. conn_event (lev_add lib) dispatch (cc_recv lib) (cc_send lib) c r (Some sv) ev =
          Inr (None, r', Some (removeConnection sv (cn_handle c)), []) \<and> fd_given_back r fd r')) \<and>
    (\<forall>(c :: 'cb client_connection) (w :: (_, 'k, 'd) sim_world) sv.
      failing_event r (cn_stream c) ev \<and> st_fd (cn_stream c) = fd \<and> sw_service w = Some sv \<longrightarrow>
      (\<exists>r'. conn_event (lev_add lib) dispatch (cl_recv lib) (cl_send lib) c r w ev =
          Inr (None, r', w\<lparr>sw_service := Some (removeConnection sv (cn_handle c))\<rparr>, []) \<and> fd_given_back r fd r')) \<and>
    (\<forall>(c :: 'cb mr_connection) (w :: (_, 'k, 'd) mr_world) sv.
      failing_event r (cn_stream c) ev \<and> st_fd (cn_stream c) = fd \<and> mw_service w = Some sv \<longrightarrow>
      (\<exists>c' r'. conn_event (lev_add lib) dispatch (mr_recv lib) (mr_send lib) c r w ev =
          Inr (c', r', w\<lparr>mw_service := Some (removeConnection sv (cn_handle c))\<rparr>, []) \<and>
        (if mw_refs w = 0 then c' = None \<and> fd_given_back r fd r'
         else (\<exists>s. c' = Some (c\<lparr>cn_stream := s\<rparr>)) \<and>
           reactor_handler r' = (reactor_handler r)((fd, ev_dir ev) := None))))"
proof (intro conjI allI impI)
  fix c :: "'cb concurrent_connection" and sv :: "('cb concurrent_connection, 'k, 'd) service"
  assume c: "failing_event r (cn_stream c) ev \<and> st_fd (cn_stream c) = fd"
  then have pos: "0 < st_fd (cn_stream c)" using assms(2) by simp
  show "\<exists>r'. conn_event (lev_add lib) dispatch (cc_recv lib) (cc_send lib) c r (Some sv) ev =
      Inr (None, r', Some (removeConnection sv (cn_handle c)), []) \<and> fd_given_back r fd r'"
    by (rule failing_event_destroys [OF assms(1) conjunct1 [OF c] pos, where rd = "cc_recv lib" and
          sd = "cc_send lib" and w = "Some sv" and kill = "\<lambda>c r w. cc_destroy (removeEventHandler lib) w c r"])
      (use c in \<open>auto simp: cc_recvCompleteCallback_def cc_sendCompleteCallback_def cc_destroy_def Connection_destroy_def\<close>)
next
  fix c :: "'cb client_connection" and w :: "('cb client_connection, 'k, 'd) sim_world" and sv
  assume c: "failing_event r (cn_stream c) ev \<and> st_fd (cn_stream c) = fd \<and> sw_service w = Some sv"
  then have pos: "0 < st_fd (cn_stream c)" using assms(2) by simp
  show "\<exists>r'. conn_event (lev_add lib) dispatch (cl_recv lib) (cl_send lib) c r w ev =
      Inr (None, r', w\<lparr>sw_service := Some (removeConnection sv (cn_handle c))\<rparr>, []) \<and> fd_given_back r fd r'"
    by (rule failing_event_destroys [OF assms(1) conjunct1 [OF c] pos, where rd = "cl_recv lib" and
          sd = "cl_send lib" and w = w and kill = "cl_destroy (removeEventHandler lib)"])
      (use c in \<open>auto simp: cl_recvCompleteCallback_def cl_sendCompleteCallback_def cl_destroy_def Connection_getHandle_def\<close>)
next
  fix c :: "'cb mr_connection" and w :: "('cb mr_connection, 'k, 'd) mr_world" and sv
  assume c: "failing_event r (cn_stream c) ev \<and> st_fd (cn_stream c) = fd \<and> mw_service w = Some sv"
  then have pos: "0 < st_fd (cn_stream c)" using assms(2) by simp
  show "\<exists>c' r'. conn_event (lev_add lib) dispatch (mr_recv lib) (mr_send lib) c r w ev =
      Inr (c', r', w\<lparr>mw_service := Some (removeConnection sv (cn_handle c))\<rparr>, []) \<and>
    (if mw_refs w = 0 then c' = None \<and> fd_given_back r fd r'
     else (\<exists>s. c' = Some (c\<lparr>cn_stream := s\<rparr>)) \<and>
       reactor_handler r' = (reactor_handler r)((fd, ev_dir ev) := None))"
    by (rule failing_event_destroys [OF assms(1) conjunct1 [OF c] pos, where rd = "mr_recv lib" and
          sd = "mr_send lib" and w = w and kill = "mr_destroy (removeEventHandler lib)"])
      (use c in \<open>cases "mw_refs w = 0", auto simp: mr_recvCompleteCallback_def
          mr_sendCompleteCallback_def mr_destroy_def Connection_destroy_def Let_def\<close>)
qed


theorem connection_ends_witness:
  "\<exists>r (c :: string concurrent_connection) r'. st_fd (cn_stream c) = 3 \<and> reactor_handler r (3, Rd) \<noteq> None \<and>
    conn_event (lev_add (\<lambda>_ _. True)) dispatch (cc_recv (\<lambda>_ _. True)) (cc_send (\<lambda>_ _. True)) c r
      (Some (new_NetWorkService :: (_, nat, nat) service)) (Readable (Received [])) =
      Inr (None, r', Some (removeConnection new_NetWorkService 3), []) \<and> fd_given_back r 3 r'"
proof -
  have r5: "reactor_inv reactor5" "3 < reactor_nfds reactor5" using reactor5_start by (auto simp: stream_start_def)
  let ?s = "new_Stream 3 ''recv'' ''send'' :: (string, unit) stream"
  have fd: "0 \<le> st_fd ?s" "st_fd ?s < reactor_nfds reactor5" using r5(2) by (simp_all add: new_Stream_def)
  obtain s r where "lev.awaits r s 4 ()" "recv_side ?s s"
    by (rule lev.ask_recv [OF lib_adds_ok [OF lib_adds_True] r5(1) fd four_in_range, of "()"]) (rule that)
  then have s: "lev.reads r s" "st_fd s = 3" by (simp_all add: lev.awaits_def recv_side_iff new_Stream_def)
  define c :: "string concurrent_connection" where
    "c = \<lparr>cn_stream = s, cn_handle = 3, cc_stat = RECV_HEAD, cc_recvBuf = [], cc_recvCall = Some (), cc_sendCall = Some ()\<rparr>"
  have c: "failing_event r (cn_stream c) (Readable (Received [])) \<and> st_fd (cn_stream c) = 3" "cn_handle c = 3"
    using s by (simp_all add: c_def recv_goes_on_def)
  have "lib_removes (\<lambda>_ _. True)" "(0::int) < 3" by (simp_all add: lib_removes_def)
  from conjunct1 [OF connection_ends [OF this, where ev = "Readable (Received [])" and r = r and 'k = nat and 'd = nat]] c
  obtain r' where "conn_event (lev_add (\<lambda>_ _. True)) dispatch (cc_recv (\<lambda>_ _. True)) (cc_send (\<lambda>_ _. True)) c r
      (Some (new_NetWorkService :: (_, nat, nat) service)) (Readable (Received [])) =
      Inr (None, r', Some (removeConnection new_NetWorkService 3), [])" "fd_given_back r 3 r'"
    by metis
  with s c show ?thesis by (intro exI [of _ r] exI [of _ c] exI [of _ r']) (simp add: lev.reads_def)
qed

end
