(* ===== verification/StorageServer.thy ===== *)
theory StorageServer
  imports MessageCenter
begin

text \<open>
  \<open>examples/StorageServer\<close>: services that greet each other by name through the message center when
  they start, with \<open>InteractiveTask::sendMsgTo\<close>, and the class \<open>StorageMessage\<close>. The server itself
  does nothing with a new connection.
\<close>

section \<open>StorageMessage\<close>

record 'c storage_message = "'c message" +
  sm_cmd :: string

definition getCmd :: "'c storage_message \<Rightarrow> string" where
  "getCmd m = sm_cmd m"

definition setCmd :: "'c storage_message \<Rightarrow> string \<Rightarrow> 'c storage_message" where
  "setCmd m cmd = m\<lparr>sm_cmd := cmd\<rparr>"

section \<open>Sending by name\<close>

text \<open>\<open>sendMsgTo\<close> returns the enumerator as an \<open>int\<close>; \<open>None\<close> while it waits.\<close>

definition sendMsgTo :: "(string \<Rightarrow> size_t) \<Rightarrow> task_map \<Rightarrow> 'm task_heap \<Rightarrow> string \<Rightarrow> 'm \<Rightarrow>
    (int \<times> 'm task_heap) option outcome" where
  "sendMsgTo hasher tm heap taskName spMessage =
     and_then (syncSendMsgTo hasher tm heap taskName spMessage) (\<lambda>ro.
       Inr (map_option (\<lambda>(e, heap). (err_value e, heap)) ro))"

text \<open>One of the four statements of \<open>onStart\<close>: the service called \<open>sender\<close> sends a message with
  its own name to \<open>receiver\<close>; the result is not looked at.\<close>

definition greet :: "(string \<Rightarrow> size_t) \<Rightarrow> task_map \<Rightarrow> string \<Rightarrow> string \<Rightarrow> string \<Rightarrow>
    'c message task_heap option outcome \<Rightarrow> 'c message task_heap option outcome" where
  "greet hasher tm taskName sender receiver m =
     and_then m (\<lambda>ho. case ho of
       None \<Rightarrow> Inr None
     | Some heap \<Rightarrow>
         if taskName = sender
         then and_then (sendMsgTo hasher tm heap receiver (new_StringMessage taskName None))
                (\<lambda>ro. Inr (map_option snd ro))
         else Inr (Some heap))"

definition storage_onStart :: "(string \<Rightarrow> size_t) \<Rightarrow> task_map \<Rightarrow> string \<Rightarrow> 'c message task_heap \<Rightarrow>
    'c message task_heap option outcome" where
  "storage_onStart hasher tm taskName heap =
     greet hasher tm taskName ''Service-39'' ''Service-2''
       (greet hasher tm taskName ''Service-2'' ''Service-38''
         (greet hasher tm taskName ''Service-1'' ''Service-40''
           (greet hasher tm taskName ''Service-1'' ''Service-9'' (Inr (Some heap)))))"

text \<open>\<open>onMessage\<close> and \<open>onStop\<close> only write to the log.\<close>

definition storage_onMessage :: "'s \<Rightarrow> 'c message \<Rightarrow> 's" where
  "storage_onMessage s m = s"

section \<open>Who greets whom\<close>

text \<open>
  A service that greets waits until the receiver has registered, then leaves exactly one message
  with its own name in the receiver's queue; a service with another name greets nobody.
\<close>

lemma storage_onStart_delivers:
  assumes "chm_find hasher tm receiver = Some w" "heap w = Some t" "crb_inv (it_queue t)" "0 \<le> it_eventFd t"
    and "length (crb_items (it_queue t)) < crb_cap (it_queue t)"
    and "(taskName, receiver) \<in> {(''Service-2'', ''Service-38''), (''Service-39'', ''Service-2'')}"
  shows "\<exists>t'. storage_onStart hasher tm taskName heap = Inr (Some (heap(w \<mapsto> t'))) \<and>
    crb_items (it_queue t') = crb_items (it_queue t) @ [new_StringMessage taskName None]"
proof -
  obtain r where "notifyMsg t (new_StringMessage taskName None) =
      Inr (Some (0, t\<lparr>it_queue := r, it_counter := Suc (it_counter t)\<rparr>))"
    "crb_items r = crb_items (it_queue t) @ [new_StringMessage taskName None]"
    using notifyMsg_room [OF assms(3) _ assms(4), of "new_StringMessage taskName None"] assms(5) by auto
  with assms(1,2,6) show ?thesis
    by (auto simp: storage_onStart_def greet_def sendMsgTo_def syncSendMsgTo_def chm_waitFind_find)
qed

lemma storage_onStart_waits:
  "chm_find hasher tm ''Service-9'' = None \<Longrightarrow> storage_onStart hasher tm ''Service-1'' heap = Inr None"
  by (simp add: storage_onStart_def greet_def sendMsgTo_def syncSendMsgTo_def chm_waitFind_find)

lemma storage_onStart_other:
  "taskName \<notin> {''Service-1'', ''Service-2'', ''Service-39''} \<Longrightarrow>
   storage_onStart hasher tm taskName heap = Inr (Some heap)"
  by (simp add: storage_onStart_def greet_def)

end
