(* ===== verification/Programs.thy ===== *)
theory Programs
  imports ConnectionEnds StorageServer
begin

text \<open>
  The four programs: the \<open>main\<close> functions of the examples with their numbers of work services,
  ports and pool threads. Setting up the log and ignoring \<open>SIGPIPE\<close> are not modelled.
\<close>

section \<open>The main functions\<close>

text \<open>Each makes its server and calls \<open>start\<close>, which goes on as \<open>boot_step\<close> says.\<close>

definition echo_main :: "'cb boot outcome" where
  "echo_main = tcp_start (new_TcpServer 2 12306 0)"

definition mapreduce_main :: "'cb boot outcome" where
  "mapreduce_main = tcp_start (new_TcpServer 1 10087 20)"

definition simulate_main :: "'cb boot outcome" where
  "simulate_main = tcp_start (tcp_server.truncate (new_ConcurrenceSimulateServer 2 1935 0))"

definition storage_main :: "'cb boot outcome" where
  "storage_main = tcp_start (new_TcpServer 4 10086 16)"

section \<open>The storage server\<close>

text \<open>
  \<open>onConnection\<close> of the storage server writes to the log; the stream is deleted when the callback
  has returned, because nobody keeps it.
\<close>

definition storage_onConnection :: "('r \<Rightarrow> int \<Rightarrow> event_flags \<Rightarrow> (bool \<times> 'r) outcome) \<Rightarrow>
    ('cb, 'u) stream \<Rightarrow> 'r \<Rightarrow> (int option \<times> ('cb, 'u) stream \<times> 'r) outcome" where
  "storage_onConnection rem spStream r = delete_Stream rem spStream r"

lemma storage_refuses_clients:
  assumes "lib_removes lib" "reactor_inv r" "0 < fd" "fd < reactor_nfds r"
  shows "\<exists>s r'. storage_onConnection (removeEventHandler lib) (new_Stream fd rc sc) r = Inr (Some fd, s, r') \<and>
    fd_given_back r fd r'"
proof -
  let ?s = "new_Stream fd rc sc"
  have fd: "0 < st_fd ?s" "st_fd ?s < reactor_nfds r" using assms(3,4) by (simp_all add: new_Stream_def)
  show ?thesis
    by (rule delete_Stream_closes [OF assms(1,2) fd]) (auto simp: storage_onConnection_def new_Stream_def)
qed

section \<open>The programs start\<close>

text \<open>
  Each program starts, however its threads interleave: nothing fails, there is always a next step, and
  in the end all its services are up, with the threads and the port it is given.
\<close>

lemma programs_start:
  fixes main :: "'cb boot outcome"
  assumes "(main, n, port, k) \<in> {(echo_main, 2, 12306, 0), (mapreduce_main, 1, 10087, 20),
      (simulate_main, 2, 1935, 0), (storage_main, 4, 10086, 16)}"
    and "boot_env_ok e"
  shows "\<exists>t0. main = Inr t0 \<and> (\<forall>m t. (boot_step e (new_TcpServer (int n) port (int k)) ^^ m) t0 t \<longrightarrow>
    bt_failed t = None \<and> length (bt_threads t) = n + k \<and> m \<le> 5 * n + 3 \<and>
    (if m = 5 * n + 3 then server_up e (int n) port t
     else \<exists>t'. boot_step e (new_TcpServer (int n) port (int k)) t t'))"
proof -
  have main: "main = tcp_start (new_TcpServer (int n) port (int k))" and n: "int n \<le> 1000"
    using assms(1) by (auto simp: echo_main_def mapreduce_main_def simulate_main_def storage_main_def
        new_ConcurrenceSimulateServer_def tcp_server.truncate_def new_TcpServer_def)
  have k: "0 \<le> int n" "0 \<le> int k" by simp_all
  from server_run [OF k(1) n k(2) assms(2), of port] show ?thesis
    unfolding main of_nat_add [symmetric] nat_int by blast
qed

end
