(* ===== verification/Spec2Isabelle.thy ===== *)
theory Spec2Isabelle
  imports BenchmarkTest MapReduceSystem EchoSystem LoadTest Programs
begin

text \<open>
  A verification of Banana, a C++ framework for servers with many clients and for parallel
  computations on one machine. The sources are under \<open>src/\<close>; file names below are relative to it.

  \<^bold>\<open>The program.\<close> A server (\<open>network/TcpServer\<close>) starts a thread pool
  (\<open>multi-threading/ThreadPool\<close>), posts its work services (\<open>network/NetWorkService\<close>) to it and runs
  an accept service (\<open>network/NetAcceptService\<close>) on its own thread. Services are tasks with a message
  queue and an event loop (\<open>multi-threading/InteractiveTask\<close>); they find each other by name in a
  message center (\<open>multi-threading/MessageCenter\<close>). The queues are bounded rings, one with a mutex and
  condition variables (\<open>ConcurrentRingBuffer\<close>), one without locks for one producer and one consumer
  (\<open>WaitFreeConcurrentRingBuffer\<close>); the registry is a sharded hash map (\<open>ConcurrentHashMap\<close>). The
  event loop is libevent behind an abstract reactor (\<open>network/EventReactor\<close>, \<open>LibeventReactor\<close>). A
  client accepted by the accept service is sent as a message to the next work service, which makes a
  \<open>Stream\<close> for it and calls the server's \<open>onConnection\<close>; the connection then reads and writes the
  stream with callbacks. \<open>network/Connector\<close> connects the other way. The examples are an echo server,
  a server that simulates its clients, a map-reduce server with its benchmark, and a stub of a
  storage server.

  \<^bold>\<open>How code is modelled.\<close> A class is a record of its members, a derived class an extension of the
  record; a member function is a definition that takes the object and returns it updated. Everything
  that ends a run abnormally (a failed assertion, a null or dangling access, an index out of range, a
  variable never written, an empty callback, a function that flows off its end without its return
  value) is a value of \<open>cpp_error\<close> in \<^theory_text>\<open>Banana_Prelude\<close>, and
  \<open>and_then\<close> sequences such runs. A call that blocks returns \<open>None\<close>. Sizes are 64-bit words where
  they wrap; \<open>int\<close>s are integers where the code keeps them in range, and the conversion is written out
  where it does not. What the code gets from outside is an argument: the answers of libevent
  (\<open>libevent\<close>), of \<open>recv\<close> and \<open>send\<close>, \<open>socket\<close>, \<open>connect\<close>, \<open>eventfd\<close>, the hash function, the
  contents of files. Threads are inductive step relations, one step per critical section or per atomic
  access; their properties are invariants of the reachable states.

  \<^bold>\<open>Theories and sources.\<close>
  \<^item> \<^theory_text>\<open>Banana_Prelude\<close>: outcomes, counting threads, \<open>notify_one\<close>, arithmetic of ring indices.
  \<^item> \<^theory_text>\<open>Bounded_Queue\<close>, \<^theory_text>\<open>Map_Interface\<close>, \<^theory_text>\<open>EventReactor\<close>: the interfaces, as locales; interpreted
    by both rings, by the hash map and by \<open>LibeventReactor\<close>.
  \<^item> \<^theory_text>\<open>ConcurrentRingBuffer\<close> (\<open>multi-threading/ConcurrentRingBuffer.h\<close>): the four operations, and the
    monitor of any number of threads: order, capacity, no lost wake-up.
  \<^item> \<^theory_text>\<open>WaitFreeConcurrentRingBuffer\<close> (\<open>.h\<close> of the same name): one producer and one consumer, each atomic
    access a step, loads of the other's index possibly old: order, no race, wait freedom.
  \<^item> \<^theory_text>\<open>ConcurrentHashMap\<close>: refines one map; waiting for a key, and the wake-up that is lost.
  \<^item> \<^theory_text>\<open>Message\<close> (\<open>Message.cpp\<close> and the derived messages), \<^theory_text>\<open>Utils\<close> (\<open>utils/Utils.cpp\<close>).
  \<^item> \<^theory_text>\<open>InteractiveTask\<close> and \<^theory_text>\<open>TaskLifecycle\<close> (\<open>InteractiveTask.cpp\<close>): senders against the loop of a
    task, each message with its event; \<open>start\<close> as a whole, from the name of its thread to the end of
    \<open>__stop\<close>, and \<open>stop\<close>, on every branch.
  \<^item> \<^theory_text>\<open>MessageCenter\<close>: registration, sending, the double-checked singleton.
  \<^item> \<^theory_text>\<open>ThreadPool\<close> (with \<open>Task.h\<close>, \<open>IndependentTask.cpp\<close>): posting and the worker threads, also
    with tasks that never return (\<open>pool_runs\<close>, \<open>pool_work\<close>).
  \<^item> \<^theory_text>\<open>LibeventReactor\<close> (and \<open>SelectEventReactor.cpp\<close>): registrations, the calls of libevent as a log,
    and which events are pending.
  \<^item> \<^theory_text>\<open>Stream\<close>: requests to receive and send, and the passes \<open>_recvOnePack\<close> and \<open>_sendOnePack\<close>, for
    every reactor of the interface; \<^theory_text>\<open>StreamRequests\<close>: a request served to its end.
  \<^item> \<^theory_text>\<open>NetWorkService\<close> (with \<open>Connection.cpp\<close>), \<^theory_text>\<open>NetAcceptService\<close>, \<^theory_text>\<open>TcpServer\<close>, \<^theory_text>\<open>Connector\<close>: the
    files of the same names. The start of a server is a system of the thread of \<open>main\<close> and the threads
    of the pool (\<open>boot_step\<close>): the services are posted, taken, run and register their names while
    \<open>main\<close> waits for each of them, and the accept service starts last. What happens where
    \<open>_startNetWorkService\<close> flows off its end is an argument (\<open>be_offEnd\<close>).
  \<^item> \<^theory_text>\<open>FramedConnection\<close>: what the connections of the examples share, with the locale \<open>framed_reader\<close>;
    \<open>conn_run\<close> runs a connection on a list of events of its socket. \<^theory_text>\<open>FrameEvents\<close>: a message
    that is sent or read one event at a time, whatever happens elsewhere in between.
  \<^item> \<^theory_text>\<open>EchoServer\<close>, \<^theory_text>\<open>MapReduceServer\<close>, \<^theory_text>\<open>SimulateServer\<close>, \<^theory_text>\<open>StorageServer\<close>: the directories under
    \<open>examples\<close>; each connection class interprets \<open>framed_reader\<close>.
  \<^item> \<^theory_text>\<open>NumberFiles\<close>: reading and writing the numbers of the map-reduce example's files, character by
    character; \<^theory_text>\<open>BenchmarkTest\<close>: the \<open>main\<close> of its benchmark, and that a run agrees with the server.
  \<^item> \<^theory_text>\<open>MapReduceSystem\<close>: the whole map-reduce server (\<open>mrsys_step\<close>): clients that come and go, the
    thread of the service, the threads of the pool and both queues, interleaved. Its invariant
    \<open>mrsys_inv\<close> ties the counter of every connection to the tasks and messages under way.
  \<^item> \<^theory_text>\<open>NetSystem\<close>: a whole server with its accept service and any number of work services
    (\<open>net_step\<close>), for every class of connections that keeps the contract of the locale
    \<open>connection_class\<close>; \<^theory_text>\<open>EchoSystem\<close>: the echo server as its instance. \<^theory_text>\<open>ConnectionFrames\<close> holds what
    both whole-system theories need to know of streams.
  \<^item> \<^theory_text>\<open>LoadEvents\<close>, \<^theory_text>\<open>LoadSystem\<close>, \<^theory_text>\<open>LoadTest\<close>: the load test that \<open>ConcurrenceSimulateServer.cpp\<close>
    describes, the simulator and the echo server run together (\<open>load_step\<close>). Each connection is an
    object at both ends and the bytes between them (\<open>link\<close>); the events of all connections of all work
    services of both programs are interleaved. \<open>LoadEvents\<close> holds what one event does to one end,
    \<open>LoadSystem\<close> the steps, their invariant \<open>load_inv\<close> and measure, \<open>LoadTest\<close> what follows for runs.
  \<^item> \<^theory_text>\<open>ConnectionEnds\<close>: what a closed or failing socket does to each class of connections;
    \<^theory_text>\<open>Programs\<close>: the four \<open>main\<close> functions and the \<open>onConnection\<close> of the storage server.
  \<^item> This theory: properties of the whole, from accepting a client to its connection, and from a
    simulated client through the echo server and back.

  \<^bold>\<open>What is shown.\<close> Nothing is lost, duplicated or reordered in the rings, the message queues, the pool
  and the streams, for every interleaving and every way the system calls cut the data; the handlers
  do not trap on any answer of the system; blocked threads are woken; the table, the rings and the
  reactor refine their interfaces; the servers built on top answer as they should. A server with \<open>n\<close> work services is up after
  exactly \<open>5n + 3\<close> steps of its threads, in every order of them. In the echo server
  as a whole no descriptor belongs to two services and every client is connected. In the load test
  each client hears its own message and nothing else, the counter of the simulator is the number of
  answers, and every run gets to \<open>exit(0)\<close>, after each client has had all its answers. For the
  map-reduce server as a whole: in every interleaving no client gets another's answer, no connection
  is used after it was deleted or kept for ever, messages have the class their name says, and every
  waiting client's answer is computed after a bounded number of the server's steps and then leaves
  through its socket, whose write events are registered. Where the code
  does not do what it means to, the property says what it does instead: the lost wake-up of the hash
  map, the double free of the reactor, the messages that silence an echo connection, the second
  request of a map-reduce connection, the map-reduce server whose queues are both full (with a run that gets there).

  \<^bold>\<open>Bounds.\<close> No definition uses fuel: loops over indices are functions with a termination proof, event
  loops are step relations or lists of events. Queue sizes are those of the code (1000 tasks, 50000
  messages), and the results about a queue hold for every size above zero; those about the whole
  map-reduce server are for these sizes. The buffers of the sockets in the load test hold any number
  \<open>K\<close> of bytes above zero, and its clients and messages are any numbers, not only the 40000 and 20 of
  the code. The counters of the simulator (\<open>echoCount_\<close>, \<open>msgNum_ * clientNum_\<close>) and the indices of
  services are unbounded integers; they are far inside \<open>int\<close> for the numbers the code has.

  \<^bold>\<open>Not modelled.\<close> libevent and glog, of which only the calls appear; setting up the log, signal masks
  and measured times, which are glue; the classes under \<open>codecs\<close> and \<open>ServiceManager\<close>, which are
  empty. In \<open>MapReduceSystem\<close> and \<open>NetSystem\<close> a descriptor is given to a new client only after the connection that had
  it was deleted, as the operating system does, and the release of a connection by a thread of the
  pool is one step. In \<open>TcpServer\<close> the registration of a task (\<open>it_prepare\<close>) is one step and the start of
  its loop another. \<open>destroyReactor\<close> frees the base before the events that belong to it; the calls are
  in the log in this order, and what libevent makes of it is not modelled. The second way to a work service, \<open>notifyNewConnnectMsg\<close>, is modelled in
  \<open>NetWorkService\<close> only, because no code calls it. \<open>LoadSystem\<close> starts when the sockets are connected and
  dealt to the work services, in any way that gives no descriptor twice (\<open>SimulateServer\<close>,
  \<open>Connector\<close> and \<open>NetSystem\<close> say how this comes about), takes TCP for two channels that lose and
  reorder nothing, and has no failing sockets (for those see \<open>ConnectionEnds\<close>). The memory model is sequential consistency, except that the
  wait-free ring allows old values of the other thread's index.
\<close>

section \<open>From the listening socket to a connection\<close>

text \<open>
  C12: An accepted client is served. When the queue of the work service whose turn it is has room,
  accepting a client leaves one message in it, after those that were there; the work service turns
  this message into a call of the server's \<open>onConnection\<close> with the client's descriptor, and the
  echo server's \<open>onConnection\<close> registers a connection under that descriptor which waits for the
  client's first message.
\<close>

theorem accepted_client_served:
  assumes "acceptor_ok a" "j = Suc (nat (ac_cur a)) mod length (ac_workers a)"
    and "length (worker_items a j) < crb_cap (it_queue (ac_workers a ! j))"
    and "lib_adds lib" "stream_start lib n r fd" "sv_newConnectionCb sv = Some k" "sv_connections sv fd = None"
  shows "\<exists>a' m c r' sv'. nas_onAccept a fd = Inr (Some a') \<and> worker_items a' j = worker_items a j @ [m] \<and>
    nws_onMessage sv m = Inr (CallNewConnection k fd) \<and>
    echo_onConnection (lev_add lib) (removeEventHandler lib) (new_Stream fd rc sc) r (Some sv) =
      Inr (Some c, r', Some sv') \<and>
    echo_ready lib r' c \<and> cn_handle c = fd \<and> dom (sv_connections sv') = insert fd (dom (sv_connections sv))"
proof -
  have "j < length (ac_workers a)" using assms(1,2) by (simp add: acceptor_ok_def)
  with onAccept_run [OF assms(1-3), of fd] obtain a' where
    "nas_onAccept a fd = Inr (Some a')" "worker_items a' j = worker_items a j @ [new_NewConnectMessage fd]"
    by auto
  moreover have "nws_onMessage sv (new_NewConnectMessage fd) = Inr (CallNewConnection k fd)"
    using assms(6) by (simp add: nws_onMessage_def getWhat_def new_NewConnectMessage_def newStream_def)
  moreover obtain c r' sv' where
    "echo_onConnection (lev_add lib) (removeEventHandler lib) (new_Stream fd rc sc) r (Some sv) =
      Inr (Some c, r', Some sv')" "echo_ready lib r' c" "cn_handle c = fd"
    "dom (sv_connections sv') = insert fd (dom (sv_connections sv))"
    by (rule echo_accepts [OF assms(4,5,7), of rc sc]) (rule that)
  ultimately show ?thesis by blast
qed

theorem accepted_client_served_witness:
  "\<exists>a' m c r' sv'. nas_onAccept (new_NetAcceptService [worker_example, worker_example]) 3 = Inr (Some a') \<and>
    nws_onMessage (setNewConnectionCallback new_NetWorkService (Some 2) ::
      (string concurrent_connection, nat, nat) service) m = Inr (CallNewConnection 2 3) \<and>
    echo_onConnection (lev_add (\<lambda>_ _. True)) (removeEventHandler (\<lambda>_ _. True))
      (new_Stream 3 ''recv'' ''send'') reactor5 (Some (setNewConnectionCallback new_NetWorkService
        (Some 2) :: (string concurrent_connection, nat, nat) service)) =
      Inr (Some c, r', Some sv') \<and> worker_items a' 1 = [m]"
proof -
  let ?a = "new_NetAcceptService [worker_example, worker_example]"
  let ?sv = "setNewConnectionCallback new_NetWorkService (Some 2) ::
    (string concurrent_connection, nat, nat) service"
  have w: "crb_inv (it_queue worker_example)" "crb_items (it_queue worker_example) = []"
    "crb_cap (it_queue worker_example) = 49999" "it_eventFd worker_example = 5"
    by (simp_all add: worker_example_def new_InteractiveTask_def MSG_QUEUE_SIZE_def)
  have ok: "acceptor_ok ?a" "1 = Suc (nat (ac_cur ?a)) mod length (ac_workers ?a)"
    "length (worker_items ?a 1) < crb_cap (it_queue (ac_workers ?a ! 1))" "worker_items ?a 1 = []"
    using w by (simp_all add: acceptor_ok_def worker_items_def new_NetAcceptService_def)
  have sv: "sv_newConnectionCb ?sv = Some 2" "sv_connections ?sv 3 = None"
    by (simp_all add: setNewConnectionCallback_def new_NetWorkService_def)
  from accepted_client_served [OF ok(1-3) lib_adds_True reactor5_start sv, of "''recv''" "''send''"]
  show ?thesis unfolding ok(4) append_Nil by blast
qed

section \<open>The simulated clients and the echo server\<close>

text \<open>
  A simulated client gets its message back. The client's first message, sent in any pieces, is
  the length of a text and the text; a connection of the echo server that receives these bytes, in
  any pieces, sends back the same bytes; the client that receives them, in any pieces, counts one
  answer and waits for the next.
\<close>

theorem client_echo_round_trip:
  assumes "lib_adds lib" "stream_start lib n r fd" "fd < 2 ^ 31"
    and "sw_service w = Some sv" "sv_connections sv fd = None"
    and "si_msgNum (sw_server w) > 1" "si_echoCount (sw_server w) + 1 <
      si_msgNum (sw_server w) * si_clientNum (sw_server w)"
    and "txt = client_text fd" "takes ss (length (frame txt))"
    and "lib_adds lib'" "echo_ready lib' r' c'" "exchange_ok (hs, rs, ss', txt)"
    and "brings hs' (int_bytes (int (length txt)))" "brings rs' txt"
  shows "\<exists>c1 r1 w1 c2 r2 c'' r'' c3 r3.
    sim_onConnection (lev_add lib) (removeEventHandler lib) (new_Stream fd rc sc) r w = Inr (Some c1, r1, w1) \<and>
    cl_run lib (Some c1) r1 w1 (map Writable ss) = Inr (Some c2, r2, w1, frame txt) \<and>
    echo_run lib' (Some c') r' wp (exchange_events (hs, rs, ss', txt)) = Inr (Some c'', r'', wp, frame txt) \<and>
    cl_run lib (Some c2) r2 w1 (map Readable (hs' @ rs')) = Inr (Some c3, r3, sim_count w1, []) \<and>
    cl_selfEchoCount c3 = 1 \<and> cl_ready lib r3 c3"
proof -
  obtain c1 r1 w1 where c1:
    "sim_onConnection (lev_add lib) (removeEventHandler lib) (new_Stream fd rc sc) r w = Inr (Some c1, r1, w1)"
    "cl_ready lib r1 c1" "cl_sends r1 c1 (frame (client_text fd))" "cl_selfEchoCount c1 = 0" "st_fd (cn_stream c1) = fd"
    "si_echoCount (sw_server w1) = si_echoCount (sw_server w)"
    "si_msgNum (sw_server w1) = si_msgNum (sw_server w)" "si_clientNum (sw_server w1) = si_clientNum (sw_server w)"
    by (rule client_accepts [OF assms(1,2,4,5,3), of rc sc]) (rule that)
  have fd: "0 \<le> fd" using assms(2) by (simp add: stream_start_def)
  have hyp: "cl_selfEchoCount c1 \<noteq> si_msgNum (sw_server w1)" "0 \<le> st_fd (cn_stream c1)"
    "st_fd (cn_stream c1) < 2 ^ 31" using c1 assms(3,6) fd by simp_all
  obtain c2 r2 where c2: "cl_run lib (Some c1) r1 w1 (map Writable ss) = Inr (Some c2, r2, w1, frame txt)"
    "cl_ready lib r2 c2" "cl_selfEchoCount c2 = cl_selfEchoCount c1"
    by (rule client_sends [OF assms(1) c1(2) c1(3) [folded assms(8)] assms(9) hyp]) (rule that)
  have len: "length txt \<le> 1024" using client_text_length [OF fd assms(3)] assms(8) by simp
  have count: "si_echoCount (sw_server w1) + 1 < si_msgNum (sw_server w1) * si_clientNum (sw_server w1)"
    "cl_selfEchoCount c2 + 1 \<noteq> si_msgNum (sw_server w1)" using c1 c2(3) assms(6,7) by simp_all
  obtain c3 r3 where c3: "cl_run lib (Some c2) r2 w1 (map Readable (hs' @ rs')) = Inr (Some c3, r3, sim_count w1, [])"
    "cl_selfEchoCount c3 = cl_selfEchoCount c2 + 1" "cl_ready lib r3 c3"
    by (rule client_answer_next [OF assms(1) c2(2) assms(13,14) len count]) (rule that)
  have "\<forall>x \<in> set [(hs, rs, ss', txt)]. exchange_ok x" using assms(12) by simp
  from echo_exchanges [OF assms(10,11) this, of wp] obtain c'' r'' where
    "echo_run lib' (Some c') r' wp (exchange_events (hs, rs, ss', txt)) = Inr (Some c'', r'', wp, frame txt)"
    by auto
  with c1 c2 c3 show ?thesis by auto
qed

theorem client_echo_round_trip_witness:
  "\<exists>c1 r1 w1 c2 r2 c'' r'' c3 r3 c' r'.
    sim_onConnection (lev_add (\<lambda>_ _. True)) (removeEventHandler (\<lambda>_ _. True))
      (new_Stream 3 ''recv'' ''send'') reactor5 sim_example = Inr (Some c1, r1, w1) \<and>
    cl_run (\<lambda>_ _. True) (Some c1) r1 w1 [Writable (Sent 27)] =
      Inr (Some c2, r2, w1, frame ''client fd:3 echo hello!'') \<and>
    echo_run (\<lambda>_ _. True) (Some (c' :: string concurrent_connection)) r'
      (Some (new_NetWorkService :: (_, nat, nat) service))
      [Readable (Received (int_bytes 23)), Readable (Received ''client fd:3 echo hello!''), Writable (Sent 27)] =
      Inr (Some c'', r'', Some new_NetWorkService, frame ''client fd:3 echo hello!'') \<and>
    cl_run (\<lambda>_ _. True) (Some c2) r2 w1
      [Readable (Received (int_bytes 23)), Readable (Received ''client fd:3 echo hello!'')] =
      Inr (Some c3, r3, sim_count w1, [])"
proof -
  let ?t = "''client fd:3 echo hello!''"
  let ?ssv = "new_NetWorkService :: (string client_connection, nat, nat) service"
  let ?esv = "new_NetWorkService :: (string concurrent_connection, nat, nat) service"
  have t: "?t = client_text 3" by code_simp
  have len: "length ?t = 23" by simp
  have "int_bytes 23 \<noteq> []" using length_int_bytes [of 23] by force
  then have b: "brings [Received (int_bytes 23)] (int_bytes (int (length ?t)))" "brings [Received ?t] ?t"
    "takes [Sent 27] (length (frame ?t))"
    by (simp_all add: brings_def takes_def recv_goes_on_def send_goes_on_def)
  then have x: "exchange_ok ([Received (int_bytes 23)], [Received ?t], [Sent 27], ?t)" by simp
  have free: "sv_connections ?esv 3 = None" by (simp add: new_NetWorkService_def)
  obtain c' r' where e: "echo_ready (\<lambda>_ _. True) r' (c' :: string concurrent_connection)"
    using echo_accepts [OF lib_adds_True reactor5_start free, of "''recv''" "''send''"] by metis
  have w: "sw_service sim_example = Some ?ssv" "sv_connections ?ssv 3 = None"
    "si_msgNum (sw_server sim_example) > 1" "si_echoCount (sw_server sim_example) + 1 <
      si_msgNum (sw_server sim_example) * si_clientNum (sw_server sim_example)" "(3::int) < 2 ^ 31"
    by (simp_all add: sim_example_def new_NetWorkService_def new_ConcurrenceSimulateServer_def
        new_TcpServer_def CLIENT_NUM_def MSG_NUM_EACH_CLIENT_def)
  from client_echo_round_trip [OF lib_adds_True reactor5_start w(5,1-4) t b(3) lib_adds_True e x b(1,2),
      of "''recv''" "''send''" "Some ?esv"]
  show ?thesis unfolding exchange_events.simps list.map append_Cons append_Nil by blast
qed

end
